(* ===== verification/Go_Base.thy ===== *)
theory Go_Base
  imports Main "HOL-Library.Word" "HOL-Library.List_Lexorder" "HOL-Library.Char_ord"
    "HOL-Library.Signed_Division" "HOL-Library.Multiset"
begin

text \<open>
  The prelude of the development: the Go types the library uses, with their widths, the few
  functions of Go's standard library the code calls on them (\<open>strings.Join\<close>,
  \<open>strings.HasSuffix\<close>, \<open>sort.Strings\<close>, FNV-1a, lookups and range loops over maps), and the
  lemmas about them the components share.

  \<^item> A Go \<open>int\<close> (on the 64-bit platforms the AWS SDK targets) and a \<open>time.Duration\<close>
    (nanoseconds) are \<open>64 word\<close>, an \<open>int32\<close> or \<open>uint32\<close> is \<open>32 word\<close>; \<open>+\<close> and \<open>*\<close> wrap as in
    Go, and the signed comparisons are \<open><s\<close> and \<open>\<le>s\<close>. A length that cannot overflow is \<open>nat\<close>.
  \<^item> A Go string is a sequence of bytes: \<open>string\<close>, a list of 8-bit \<open>char\<close>s. Its order (used by
    \<open>sort.Strings\<close>) is the bytewise lexicographic one of \<open>List_Lexorder\<close> and \<open>Char_ord\<close>.
  \<^item> A Go map is an association list with distinct keys whose order is the order a
    \<open>range\<close> loop visits it in. Go leaves that order open, so theorems quantify over it.
  \<^item> Code that may panic has the result type \<open>outcome\<close>.
\<close>

named_theorems go_simps \<open>unfoldings of the small Go helpers\<close>
named_theorems go_sint \<open>signed readings of machine words\<close>

type_synonym go_int = "64 word"
type_synonym go_int32 = "32 word"
type_synonym duration = "64 word"
type_synonym 'v gomap = "(string \<times> 'v) list"

datatype 'a outcome = Return 'a | Panic string

text \<open>What dereferencing a nil pointer panics with.\<close>

definition nilDeref :: string where
  "nilDeref = ''runtime error: invalid memory address or nil pointer dereference''"

definition second :: duration where
  "second = 1000000000"

definition millisecond :: duration where
  "millisecond = 1000000"

section \<open>Guards\<close>

text \<open>A chain of early returns, read from its result.\<close>

lemma guard_None [go_simps]: "(if c then Some x else y) = None \<longleftrightarrow> \<not> c \<and> y = None"
  by simp

lemma guard_Inr [go_simps]: "(if c then Inl e else y) = Inr z \<longleftrightarrow> \<not> c \<and> y = Inr z"
  by simp

lemma guard_list [go_simps]: "(if c then [x] else []) = [] \<longleftrightarrow> \<not> c"
  by simp

section \<open>Signed machine integers\<close>

lemma sint64_range: "- (2 ^ 63) \<le> sint (x :: 64 word)" "sint (x :: 64 word) < 2 ^ 63"
  using sint_range_size [of x] by (simp_all add: word_size)

lemma sint32_range: "- (2 ^ 31) \<le> sint (x :: 32 word)" "sint (x :: 32 word) < 2 ^ 31"
  using sint_range_size [of x] by (simp_all add: word_size)

lemma signed_take_bit_id:
  "- (2 ^ n) \<le> (k :: int) \<Longrightarrow> k < 2 ^ n \<Longrightarrow> signed_take_bit n k = k"
  by (simp add: signed_take_bit_int_eq_self_iff)

lemma sint64_of_int:
  "- (2 ^ 63) \<le> k \<Longrightarrow> k < 2 ^ 63 \<Longrightarrow> sint (word_of_int k :: 64 word) = k"
  by (simp add: sint_sbintrunc' signed_take_bit_id)

lemma sint64_add:
  "- (2 ^ 63) \<le> sint a + sint b \<Longrightarrow> sint a + sint b < 2 ^ 63 \<Longrightarrow>
   sint (a + b :: 64 word) = sint a + sint b"
  by (simp add: sint_word_ariths signed_take_bit_id)

lemma sint64_mult:
  "- (2 ^ 63) \<le> sint a * sint b \<Longrightarrow> sint a * sint b < 2 ^ 63 \<Longrightarrow>
   sint (a * b :: 64 word) = sint a * sint b"
  by (simp add: sint_word_ariths signed_take_bit_id)

lemma sint32_add:
  "- (2 ^ 31) \<le> sint a + sint b \<Longrightarrow> sint a + sint b < 2 ^ 31 \<Longrightarrow>
   sint (a + b :: 32 word) = sint a + sint b"
  by (simp add: sint_word_ariths signed_take_bit_id)

text \<open>Go's signed comparisons, read as integers.\<close>

lemma sless_sint [go_sint]: "(a :: 'a::len word) <s b \<longleftrightarrow> sint a < sint b"
  by (simp add: word_sless_alt)

lemma sle_sint [go_sint]: "(a :: 'a::len word) \<le>s b \<longleftrightarrow> sint a \<le> sint b"
  by (simp add: word_sle_eq)

text \<open>Go's integer division truncates towards zero; \<open>math.MinInt64 / -1\<close> wraps.\<close>

definition go_div :: "64 word \<Rightarrow> 64 word \<Rightarrow> 64 word" where
  "go_div a b = word_of_int (sint a sdiv sint b)"

lemma sint_go_div:
  assumes "0 \<le> sint a" "0 < sint b"
  shows "sint (go_div a b) = sint a div sint b"
proof -
  have "sint a sdiv sint b = sint a div sint b"
    using assms by (cases "sint a = 0") (simp_all add: signed_divide_int_def)
  moreover have "0 \<le> sint a div sint b"
    using assms by (simp add: pos_imp_zdiv_nonneg_iff)
  moreover have "sint a div sint b \<le> sint a"
    using zdiv_mono2 [of "sint a" 1 "sint b"] assms by simp
  then have "sint a div sint b < 2 ^ 63"
    using sint64_range [of a] by linarith
  ultimately show ?thesis
    unfolding go_div_def by (simp add: sint64_of_int)
qed

section \<open>Strings and slices\<close>

text \<open>\<open>strings.Join(xs, sep)\<close>\<close>

fun join :: "string \<Rightarrow> string list \<Rightarrow> string" where
  "join sep [] = []"
| "join sep [x] = x"
| "join sep (x # y # zs) = x @ sep @ join sep (y # zs)"

text \<open>\<open>strings.HasSuffix(s, suffix)\<close>\<close>

definition hasSuffix :: "string \<Rightarrow> string \<Rightarrow> bool" where
  "hasSuffix s suf = (length suf \<le> length s \<and> drop (length s - length suf) s = suf)"

lemma hasSuffix_iff: "hasSuffix s suf \<longleftrightarrow> (\<exists>p. s = p @ suf)"
proof
  assume "hasSuffix s suf"
  then have "s = take (length s - length suf) s @ suf"
    unfolding hasSuffix_def by (metis append_take_drop_id)
  then show "\<exists>p. s = p @ suf" by blast
qed (auto simp: hasSuffix_def)

text \<open>The separator splits: parts that do not contain it are recovered from the join.\<close>

lemma join_Cons: "xs \<noteq> [] \<Longrightarrow> join sep (x # xs) = x @ sep @ join sep xs"
  by (cases xs) auto

lemma append_sep_inject:
  "c \<notin> set x \<Longrightarrow> c \<notin> set y \<Longrightarrow> x @ c # us = y @ c # vs \<longleftrightarrow> x = y \<and> us = vs"
proof (induction x arbitrary: y)
  case Nil
  then show ?case by (cases y) auto
next
  case (Cons a x)
  then show ?case by (cases y) auto
qed

lemma join_sep_inject:
  assumes "\<forall>x \<in> set xs. c \<notin> set x" and "\<forall>y \<in> set ys. c \<notin> set y"
    and "xs \<noteq> []" and "ys \<noteq> []"
  shows "join [c] xs = join [c] ys \<longleftrightarrow> xs = ys"
  using assms
proof (induction xs arbitrary: ys)
  case (Cons x xs)
  then obtain y ys' where ys: "ys = y # ys'" by (cases ys) auto
  have alone: "u \<noteq> z @ c # w" "z @ c # w \<noteq> u" if "c \<notin> set u" for u z w
    using that by auto
  consider "xs = []" "ys' = []" | "xs = []" "ys' \<noteq> []" | "xs \<noteq> []" "ys' = []"
    | "xs \<noteq> []" "ys' \<noteq> []" by blast
  then show ?case
  proof cases
    case 2
    with Cons.prems ys show ?thesis by (simp add: join_Cons alone)
  next
    case 3
    with Cons.prems ys show ?thesis by (simp add: join_Cons alone)
  next
    case 4
    with Cons.prems ys Cons.IH [of ys'] show ?thesis
      by (simp add: join_Cons append_sep_inject)
  qed (simp_all add: ys)
qed simp

lemma join_pairs:
  "join sep (map (\<lambda>k. f k @ sep @ g k) ks) = join sep (concat (map (\<lambda>k. [f k, g k]) ks))"
proof (induction ks)
  case (Cons k ks)
  then show ?case by (cases ks) (simp_all add: join_Cons)
qed simp

text \<open>\<open>aws.ToString\<close>: the text of a string pointer, empty for nil.\<close>

definition toString :: "string option \<Rightarrow> string" where
  "toString s = (case s of None \<Rightarrow> [] | Some x \<Rightarrow> x)"

section \<open>Maps\<close>

text \<open>\<open>m[key]\<close> with the comma-ok form, and \<open>m[key] = value\<close>.\<close>

abbreviation lookup :: "'v gomap \<Rightarrow> string \<Rightarrow> 'v option" where
  "lookup m k \<equiv> map_of m k"

fun store :: "string \<Rightarrow> 'v \<Rightarrow> 'v gomap \<Rightarrow> 'v gomap" where
  "store k v [] = [(k, v)]"
| "store k v ((k', v') # m) = (if k = k' then (k, v) # m else (k', v') # store k v m)"

definition wf_map :: "'v gomap \<Rightarrow> bool" where
  "wf_map m \<longleftrightarrow> distinct (map fst m)"

lemma lookup_store [simp]: "lookup (store k v m) k' = (if k' = k then Some v else lookup m k')"
  by (induction m) auto

lemma keys_store: "fst ` set (store k v m) = insert k (fst ` set m)"
  by (induction k v m rule: store.induct) (simp_all add: insert_commute)

lemma wf_store: "wf_map m \<Longrightarrow> wf_map (store k v m)"
proof (induction m)
  case Nil
  then show ?case by (simp add: wf_map_def)
next
  case (Cons p m)
  obtain k' v' where p: "p = (k', v')" by force
  from Cons have "wf_map (store k v m)" by (simp add: wf_map_def)
  with Cons.prems show ?case
    using keys_store [of k v m] by (auto simp: wf_map_def p image_iff)
qed

lemma length_store:
  "length (store k v m) = (if k \<in> fst ` set m then length m else Suc (length m))"
  by (induction k v m rule: store.induct) simp_all

lemma wf_map_perm: "mset m = mset m' \<Longrightarrow> wf_map m \<Longrightarrow> wf_map m'"
  unfolding wf_map_def by (metis Multiset.mset_map mset_eq_imp_distinct_iff)

lemma lookup_perm:
  assumes "wf_map m" "mset m = mset m'"
  shows "lookup m = lookup m'"
proof
  fix k
  have "set m = set m'" using assms(2) by (rule mset_eq_setD)
  moreover have "wf_map m'" using assms wf_map_perm by blast
  ultimately show "lookup m k = lookup m' k"
    using assms(1) unfolding wf_map_def
    by (metis map_of_eq_Some_iff not_None_eq)
qed

lemma sort_perm: "mset xs = mset ys \<Longrightarrow> sort xs = sort (ys :: string list)"
  by (rule properties_for_sort) (simp_all add: sorted_sort)

section \<open>Hashing\<close>

text \<open>
  \<open>hash/fnv\<close>: \<open>New32a\<close> and \<open>New64a\<close>, FNV-1a over the bytes of a string with the standard
  offset basis and prime.
\<close>

unbundle bit_operations_syntax

definition fnv32a :: "string \<Rightarrow> 32 word" where
  "fnv32a s = foldl (\<lambda>h c. (h XOR of_char c) * 16777619) 2166136261 s"

definition fnv64a :: "string \<Rightarrow> 64 word" where
  "fnv64a s = foldl (\<lambda>h c. (h XOR of_char c) * 1099511628211) 14695981039346656037 s"

end
