(* ===== verification/Go_Strconv.thy ===== *)
theory Go_Strconv
  imports Go_Base
begin

text \<open>
  Decimal text and machine integers: the behaviour of Go's \<open>strconv.Itoa\<close> and
  \<open>strconv.Atoi\<close> on a 64-bit \<open>int\<close>, which carry the \<open>retry_count\<close> attribute, the receive
  count and the entry Ids of a batch delete. The lemmas: printing then parsing gives the number
  back, so printing is injective; a parsed number is in the 64-bit range.
\<close>

section \<open>Printing\<close>

definition digit :: "nat \<Rightarrow> char" where
  "digit d = char_of (48 + d)"

fun digits10 :: "nat \<Rightarrow> string" where
  "digits10 n = (if n < 10 then [digit n] else digits10 (n div 10) @ [digit (n mod 10)])"

declare digits10.simps [simp del]

definition itoa :: "go_int \<Rightarrow> string" where
  "itoa n = (let i = sint n in
     if i < 0 then CHR ''-'' # digits10 (nat (- i)) else digits10 (nat i))"

section \<open>Parsing\<close>

definition is_digit :: "char \<Rightarrow> bool" where
  "is_digit c \<longleftrightarrow> 48 \<le> (of_char c :: nat) \<and> (of_char c :: nat) \<le> 57"

fun parse_digits :: "nat \<Rightarrow> string \<Rightarrow> nat option" where
  "parse_digits acc [] = Some acc"
| "parse_digits acc (c # cs) =
     (if is_digit c then parse_digits (10 * acc + (of_char c - 48)) cs else None)"

text \<open>The sign, if there is one, and the rest of the text.\<close>

definition split_sign :: "string \<Rightarrow> bool \<times> string" where
  "split_sign s = (case s of
      [] \<Rightarrow> (False, [])
    | c # cs \<Rightarrow> if c = CHR ''-'' then (True, cs) else if c = CHR ''+'' then (False, cs)
               else (False, s))"

text \<open>\<open>None\<close> is the error of \<open>Atoi\<close>: no digits, a byte that is no digit, or out of range.\<close>

definition atoi :: "string \<Rightarrow> go_int option" where
  "atoi s = (case split_sign s of (neg, ds) \<Rightarrow>
     if ds = [] then None
     else case parse_digits 0 ds of
       None \<Rightarrow> None
     | Some n \<Rightarrow> let v = (if neg then - int n else int n) in
         if - (2 ^ 63) \<le> v \<and> v < 2 ^ 63 then Some (word_of_int v) else None)"

section \<open>Round trip\<close>

lemma of_char_digit: "d < 10 \<Longrightarrow> (of_char (digit d) :: nat) = 48 + d"
  by (simp add: digit_def take_bit_nat_eq_self)

lemma is_digit_digit: "d < 10 \<Longrightarrow> is_digit (digit d)"
  by (simp add: is_digit_def of_char_digit)

lemma parse_digits_append:
  "parse_digits acc (xs @ ys) = Option.bind (parse_digits acc xs) (\<lambda>a. parse_digits a ys)"
  by (induction acc xs rule: parse_digits.induct) auto

lemma parse_digits10:
  "\<exists>k. 0 < k \<and> n < 10 ^ k \<and> (\<forall>acc. parse_digits acc (digits10 n) = Some (acc * 10 ^ k + n))"
proof (induction n rule: digits10.induct)
  case (1 n)
  show ?case
  proof (cases "n < 10")
    case True
    then show ?thesis
      by (intro exI [of _ 1])
        (simp add: digits10.simps [of n] is_digit_digit of_char_digit algebra_simps)
  next
    case False
    with 1 obtain k where k: "0 < k" "n div 10 < 10 ^ k"
      and p: "\<And>acc. parse_digits acc (digits10 (n div 10)) = Some (acc * 10 ^ k + n div 10)"
      by blast
    have "n < 10 ^ Suc k" using k(2) by (simp add: div_less_iff_less_mult mult.commute)
    moreover have "\<forall>acc. parse_digits acc (digits10 n) = Some (acc * 10 ^ Suc k + n)"
      using False p
      by (simp add: digits10.simps [of n] parse_digits_append is_digit_digit of_char_digit
          algebra_simps)
    ultimately show ?thesis by blast
  qed
qed

lemma parse_digits_digits10 [simp]: "parse_digits 0 (digits10 n) = Some n"
  using parse_digits10 [of n] by auto

lemma digits10_digits: "c \<in> set (digits10 n) \<Longrightarrow> is_digit c"
  by (induction n rule: digits10.induct)
    (subst (asm) (2) digits10.simps, auto split: if_splits intro: is_digit_digit)

lemma digits10_nonempty [simp]: "digits10 n \<noteq> []"
  by (subst digits10.simps) simp

lemma not_digit_sign: "\<not> is_digit CHR ''-''" "\<not> is_digit CHR ''+''"
  by (simp_all add: is_digit_def)

lemma split_sign_digits10 [simp]: "split_sign (digits10 n) = (False, digits10 n)"
proof (cases "digits10 n")
  case (Cons c cs)
  then have "is_digit c" using digits10_digits [of c n] by simp
  then show ?thesis
    using Cons not_digit_sign by (auto simp: split_sign_def)
qed simp

lemma split_sign_minus [simp]: "split_sign (CHR ''-'' # cs) = (True, cs)"
  by (simp add: split_sign_def)

lemma atoi_itoa [simp]: "atoi (itoa n) = Some n"
  using sint64_range [of n]
  by (simp add: atoi_def itoa_def Let_def)

lemma itoa_inject [simp]: "itoa a = itoa b \<longleftrightarrow> a = b"
  by (metis atoi_itoa option.inject)

lemma itoa_nonempty [simp]: "itoa n \<noteq> []"
  by (simp add: itoa_def Let_def)

lemma atoi_empty [simp]: "atoi [] = None"
  by (simp add: atoi_def split_sign_def)

section \<open>Hexadecimal digits\<close>

definition hexdigit :: "nat \<Rightarrow> char" where
  "hexdigit d = (if d < 10 then char_of (48 + d) else char_of (87 + d))"

definition is_hex :: "char \<Rightarrow> bool" where
  "is_hex ch \<longleftrightarrow> ch \<in> set ''0123456789abcdef''"

lemma all_below_16: "list_all P [0..<16] \<Longrightarrow> d < 16 \<Longrightarrow> P d"
  by (simp add: list_all_iff)

lemma is_hex_hexdigit: "d < 16 \<Longrightarrow> is_hex (hexdigit d)"
  by (rule all_below_16 [of "\<lambda>d. is_hex (hexdigit d)"]) code_simp

lemma hexdigit_inject: "d < 16 \<Longrightarrow> e < 16 \<Longrightarrow> hexdigit d = hexdigit e \<longleftrightarrow> d = e"
proof -
  have "list_all (\<lambda>d. list_all (\<lambda>e. (hexdigit d = hexdigit e) = (d = e)) [0..<16]) [0..<16]"
    by code_simp
  then show "d < 16 \<Longrightarrow> e < 16 \<Longrightarrow> hexdigit d = hexdigit e \<longleftrightarrow> d = e"
    by (simp add: list_all_iff)
qed

lemma hexdigit_values:
  "hexdigit 4 = CHR ''4''" "hexdigit 8 = CHR ''8''" "hexdigit 9 = CHR ''9''"
  "hexdigit 10 = CHR ''a''" "hexdigit 11 = CHR ''b''"
  by code_simp+

end
