(* ===== verification/Errors.thy ===== *)
theory Errors
  imports Go_Strconv
begin

text \<open>
  The package \<open>errors\<close> (\<open>src/errors/errors.go\<close>) and the functional-options loop every
  constructor of the library runs.

  \<^item> \<open>sentinel\<close> is the set of package-level sentinel errors; each is one allocation compared by
    identity, so a constructor per sentinel.
  \<^item> \<open>err\<close> is an error value: a sentinel, a formatted error without a wrapped cause (its
    format string and arguments, unrendered), an error of code outside the library, an error
    that adds text to a cause (\<open>fmt.Errorf\<close> with one \<open>%w\<close>) and the two-cause error
    \<open>Wrap\<close> builds. \<open>errIs\<close> is \<open>errors.Is\<close> against a sentinel.
  \<^item> \<open>applyOptions\<close> is the loop over the options; the locale \<open>validated_options\<close> is the
    contract of a package's options: an accepted option keeps the configuration's invariant.
\<close>

datatype sentinel =
    ErrNoRoute | ErrNoSQSClient | ErrNoHandler | ErrGetMessage | ErrQueueResolve
  | ErrNoSNSClient | ErrEmptyInput | ErrMaxBatchSize | ErrEmptyRegion | ErrEmptyQueueName
  | ErrInvalidOption | ErrEmptyFields | ErrPanic | ErrRetryScheduleCreate | ErrDLQPublish
  | ErrScheduledRetryConfig | ErrNoSchedulerClient | ErrPingFailed | ErrDeleteBatchUnsupported

datatype fmt_arg = ArgInt int | ArgDur duration | ArgStr string

datatype err =
    Sentinel sentinel
  | Fmt string "fmt_arg list"
  | External string
  | FmtW string err
  | Join err err

text \<open>The text of each sentinel.\<close>

fun sentinelText :: "sentinel \<Rightarrow> string" where
  "sentinelText ErrNoRoute = ''no routes registered''"
| "sentinelText ErrNoSQSClient = ''sqs client is nil''"
| "sentinelText ErrNoHandler = ''handler is nil''"
| "sentinelText ErrGetMessage = ''failed to receive messages''"
| "sentinelText ErrQueueResolve = ''failed to resolve queue url''"
| "sentinelText ErrNoSNSClient = ''sns client is nil''"
| "sentinelText ErrEmptyInput = ''input must be filled''"
| "sentinelText ErrMaxBatchSize = ''batch size exceeds the maximum allowed''"
| "sentinelText ErrEmptyRegion = ''region must be filled''"
| "sentinelText ErrEmptyQueueName = ''queue name must be filled''"
| "sentinelText ErrInvalidOption = ''invalid option''"
| "sentinelText ErrEmptyFields = ''fields must be filled''"
| "sentinelText ErrPanic = ''handler panicked''"
| "sentinelText ErrRetryScheduleCreate = ''failed to create retry schedule''"
| "sentinelText ErrDLQPublish = ''failed to publish to dead-letter queue''"
| "sentinelText ErrScheduledRetryConfig = ''invalid scheduled retry configuration''"
| "sentinelText ErrNoSchedulerClient = ''scheduler client is nil''"
| "sentinelText ErrPingFailed = ''connectivity ping failed''"
| "sentinelText ErrDeleteBatchUnsupported = ''sqs client does not support DeleteMessageBatch''"

text \<open>\<open>Wrap(sentinel, err)\<close>; a nil error is \<open>None\<close>.\<close>

fun wrapErr :: "err option \<Rightarrow> err option \<Rightarrow> err option" where
  "wrapErr None None = None"
| "wrapErr None (Some e) = Some e"
| "wrapErr (Some s) None = Some s"
| "wrapErr (Some s) (Some e) = Some (Join s e)"

text \<open>\<open>Wrap\<close> at a sentinel and a non-nil cause, as the call sites use it.\<close>

abbreviation wrapS :: "sentinel \<Rightarrow> err \<Rightarrow> err" where
  "wrapS s e \<equiv> Join (Sentinel s) e"

primrec errIs :: "err \<Rightarrow> sentinel \<Rightarrow> bool" where
  "errIs (Sentinel s) t \<longleftrightarrow> s = t"
| "errIs (Fmt f as) t \<longleftrightarrow> False"
| "errIs (External x) t \<longleftrightarrow> False"
| "errIs (FmtW f e) t \<longleftrightarrow> errIs e t"
| "errIs (Join a b) t \<longleftrightarrow> errIs a t \<or> errIs b t"

text \<open>\<open>errors.Is\<close> on a possibly nil error.\<close>

definition isErr :: "err option \<Rightarrow> sentinel \<Rightarrow> bool" where
  "isErr e t \<longleftrightarrow> (case e of None \<Rightarrow> False | Some x \<Rightarrow> errIs x t)"

lemma isErr_simps [simp]:
  "isErr None t = False" "isErr (Some e) t = errIs e t"
  by (simp_all add: isErr_def)

lemma wrapErr_None_iff: "wrapErr s e = None \<longleftrightarrow> s = None \<and> e = None"
  by (cases s; cases e) simp_all

text \<open>The error text, for errors whose text the model keeps.\<close>

primrec errText :: "err \<Rightarrow> string" where
  "errText (Sentinel s) = sentinelText s"
| "errText (Fmt f as) = f"
| "errText (External x) = x"
| "errText (FmtW f e) = f @ errText e"
| "errText (Join a b) = errText a @ '': '' @ errText b"

text \<open>
  \<open>Wrap\<close> loses neither cause: the result matches a sentinel under \<open>errors.Is\<close> exactly
  when one of the two arguments does, it is nil exactly when both are, and with both present
  its text is the two texts joined by a colon and a space.
\<close>

theorem wrap_keeps_both_causes:
  "(isErr (wrapErr s e) t \<longleftrightarrow> isErr s t \<or> isErr e t) \<and>
   (wrapErr s e = None \<longleftrightarrow> s = None \<and> e = None) \<and>
   map_option errText (wrapErr (Some a) (Some b)) = Some (errText a @ '': '' @ errText b)"
  by (cases s; cases e) simp_all

section \<open>Functional options\<close>

text \<open>
  \<^verbatim>\<open>
  for _, opt := range opts {
      if opt == nil { continue }
      if err := opt(c); err != nil { return nil, errors.Wrap(errors.ErrInvalidOption, err) }
  }
  \<close>
  An option is a value of the package's option type, \<open>None\<close> for a nil option; \<open>app\<close> applies it.
\<close>

fun applyOptions :: "('o \<Rightarrow> 'c \<Rightarrow> err + 'c) \<Rightarrow> 'o option list \<Rightarrow> 'c \<Rightarrow> err + 'c" where
  "applyOptions app [] c = Inr c"
| "applyOptions app (None # os) c = applyOptions app os c"
| "applyOptions app (Some opt # os) c = (case app opt c of
     Inl e \<Rightarrow> Inl (wrapS ErrInvalidOption e)
   | Inr c' \<Rightarrow> applyOptions app os c')"

locale validated_options =
  fixes app :: "'o \<Rightarrow> 'c \<Rightarrow> err + 'c"
    and inv :: "'c \<Rightarrow> bool"
  assumes app_inv: "inv c \<Longrightarrow> app opt c = Inr c' \<Longrightarrow> inv c'"
begin

lemma options_inv: "inv c \<Longrightarrow> applyOptions app os c = Inr c' \<Longrightarrow> inv c'"
proof (induction os arbitrary: c)
  case (Cons x os)
  then show ?case
    by (cases x) (auto split: sum.splits dest: app_inv)
qed simp

text \<open>An option refused wherever the invariant holds makes every list it is in fail.\<close>

lemma options_refused:
  assumes "\<And>c. inv c \<Longrightarrow> \<exists>e. app opt c = Inl e" and "Some opt \<in> set os" and "inv c"
  shows "\<exists>e. applyOptions app os c = Inl e"
  using assms(2,3)
proof (induction os arbitrary: c)
  case (Cons x xs)
  show ?case
  proof (cases "x = Some opt")
    case True
    with assms(1) [OF Cons.prems(2)] show ?thesis by auto
  next
    case False
    with Cons show ?thesis by (cases x) (auto split: sum.splits dest: app_inv)
  qed
qed simp

end

lemma applyOptions_error:
  "applyOptions app os c = Inl e \<Longrightarrow> errIs e ErrInvalidOption"
  by (induction app os c rule: applyOptions.induct) (auto split: sum.splits)

lemma applyOptions_append:
  "applyOptions app (os @ os') c = (case applyOptions app os c of
     Inl e \<Rightarrow> Inl e | Inr c' \<Rightarrow> applyOptions app os' c')"
  by (induction app os c rule: applyOptions.induct) (auto split: sum.splits)

text \<open>The loop over options that cannot fail, skipping the nil ones.\<close>

fun applySubs :: "('o \<Rightarrow> 'c \<Rightarrow> 'c) \<Rightarrow> 'o option list \<Rightarrow> 'c \<Rightarrow> 'c" where
  "applySubs app [] c = c"
| "applySubs app (None # os) c = applySubs app os c"
| "applySubs app (Some opt # os) c = applySubs app os (app opt c)"

text \<open>
  The last value an option list gives to a field, or its default; \<open>sets\<close> is the value an option gives it, if any. The
  locale is the contract of a field that options set and no option reads.
\<close>

definition lastOf :: "('o \<Rightarrow> 'a option) \<Rightarrow> 'a \<Rightarrow> 'o option list \<Rightarrow> 'a" where
  "lastOf sets dflt opts = (case List.map_filter (\<lambda>x. Option.bind x sets) opts of [] \<Rightarrow> dflt | xs \<Rightarrow> last xs)"

lemma lastOf_Nil [simp]: "lastOf sets dflt [] = dflt"
  by (simp add: lastOf_def List.map_filter_def)

lemma lastOf_Cons [simp]:
  "lastOf sets dflt (x # opts) = lastOf sets (case Option.bind x sets of None \<Rightarrow> dflt | Some v \<Rightarrow> v) opts"
  by (auto simp: lastOf_def List.map_filter_simps split: option.split list.split)

locale settable_field =
  fixes app :: "'o \<Rightarrow> 'c \<Rightarrow> err + 'c"
    and field :: "'c \<Rightarrow> 'a"
    and sets :: "'o \<Rightarrow> 'a option"
  assumes app_field: "app opt c = Inr c' \<Longrightarrow> field c' = (case sets opt of None \<Rightarrow> field c | Some v \<Rightarrow> v)"
begin

lemma options_field: "applyOptions app opts c = Inr c' \<Longrightarrow> field c' = lastOf sets (field c) opts"
proof (induction opts arbitrary: c)
  case (Cons x opts)
  show ?case
  proof (cases x)
    case None
    with Cons show ?thesis by simp
  next
    case (Some opt)
    with Cons.prems obtain c1 where "app opt c = Inr c1" "applyOptions app opts c1 = Inr c'"
      by (auto split: sum.splits)
    then show ?thesis using Some Cons.IH app_field [of opt c c1] by simp
  qed
qed simp

text \<open>A list of options none of which is about the field leaves it.\<close>

lemma options_silent:
  assumes "applyOptions app opts c = Inr c'" and "\<And>opt. Some opt \<in> set opts \<Longrightarrow> sets opt = None"
  shows "field c' = field c"
proof -
  have "lastOf sets v opts = v" for v
    using assms(2) by (induction opts arbitrary: v) (auto simp: bind_eq_None_conv split: option.split bind_splits)
  then show ?thesis using options_field [OF assms(1)] by simp
qed

end

end
