(* ===== verification/Channels.thy ===== *)
theory Channels
  imports Go_Base
begin

text \<open>
  Go's buffered channels, which the worker pool (\<open>src/consumer/dispatch.go\<close>), the delete
  batcher (\<open>src/consumer/delete_batcher.go\<close>) and the backoff signal of a message
  (\<open>src/consumer/message.go\<close>) communicate through.

  A channel is its buffer, its capacity and whether it is closed. A send either completes,
  blocks (the buffer is full) or panics (the channel is closed); a receive yields the oldest
  value, blocks, or reports that the channel is closed and drained. The locale
  \<open>fifo_channel\<close> is what the users of a channel rely on; \<open>chan\<close> below provides it.
\<close>

datatype 'c sent = Sent 'c | SendBlocks | SendPanics

datatype ('a, 'c) received = Received 'a 'c | RecvBlocks | RecvClosed

locale fifo_channel =
  fixes contents :: "'c \<Rightarrow> 'a list"
    and room :: "'c \<Rightarrow> nat"
    and isClosed :: "'c \<Rightarrow> bool"
    and ok :: "'c \<Rightarrow> bool"
    and snd_op :: "'a \<Rightarrow> 'c \<Rightarrow> 'c sent"
    and rcv_op :: "'c \<Rightarrow> ('a, 'c) received"
  assumes send_Sent: "ok c \<Longrightarrow> snd_op x c = Sent c' \<Longrightarrow>
      ok c' \<and> contents c' = contents c @ [x] \<and> room c = Suc (room c') \<and>
      \<not> isClosed c \<and> \<not> isClosed c'"
    and send_blocks: "ok c \<Longrightarrow> snd_op x c = SendBlocks \<longleftrightarrow> \<not> isClosed c \<and> room c = 0"
    and send_panics: "ok c \<Longrightarrow> snd_op x c = SendPanics \<longleftrightarrow> isClosed c"
    and recv_Received: "ok c \<Longrightarrow> rcv_op c = Received x c' \<Longrightarrow>
      ok c' \<and> contents c = x # contents c' \<and> room c' = Suc (room c) \<and> isClosed c' = isClosed c"
    and recv_blocks: "ok c \<Longrightarrow> rcv_op c = RecvBlocks \<longleftrightarrow> contents c = [] \<and> \<not> isClosed c"
    and recv_closed: "ok c \<Longrightarrow> rcv_op c = RecvClosed \<longleftrightarrow> contents c = [] \<and> isClosed c"
begin

text \<open>What is buffered plus what is free stays the capacity.\<close>

lemma send_capacity:
  "ok c \<Longrightarrow> snd_op x c = Sent c' \<Longrightarrow>
   length (contents c') + room c' = length (contents c) + room c"
  using send_Sent [of c x c'] by simp

lemma recv_capacity:
  "ok c \<Longrightarrow> rcv_op c = Received x c' \<Longrightarrow>
   length (contents c') + room c' = length (contents c) + room c"
  using recv_Received [of c x c'] by simp

text \<open>An open channel with room accepts, and a channel with a value delivers.\<close>

lemma send_progress: "ok c \<Longrightarrow> \<not> isClosed c \<Longrightarrow> 0 < room c \<Longrightarrow> \<exists>c'. snd_op x c = Sent c'"
  using send_blocks [of c x] send_panics [of c x] by (cases "snd_op x c") auto

lemma recv_progress: "ok c \<Longrightarrow> contents c \<noteq> [] \<Longrightarrow> \<exists>x c'. rcv_op c = Received x c'"
  using recv_blocks [of c] recv_closed [of c] by (cases "rcv_op c") auto

text \<open>Sending every value of a list in order, stopping at the first send that does not complete.\<close>

fun send_all :: "'a list \<Rightarrow> 'c \<Rightarrow> 'c option" where
  "send_all [] c = Some c"
| "send_all (x # xs) c = (case snd_op x c of Sent c' \<Rightarrow> send_all xs c' | _ \<Rightarrow> None)"

lemma send_all_contents:
  "ok c \<Longrightarrow> send_all xs c = Some c' \<Longrightarrow> ok c' \<and> contents c' = contents c @ xs"
proof (induction xs arbitrary: c)
  case (Cons x xs)
  then obtain c1 where s: "snd_op x c = Sent c1" "send_all xs c1 = Some c'"
    by (auto split: sent.splits)
  from send_Sent [OF Cons.prems(1) s(1)] Cons.IH [OF _ s(2)] show ?case by simp
qed simp

lemma send_all_room:
  "ok c \<Longrightarrow> \<not> isClosed c \<Longrightarrow> length xs \<le> room c \<Longrightarrow> \<exists>c'. send_all xs c = Some c'"
proof (induction xs arbitrary: c)
  case (Cons x xs)
  then obtain c' where c': "snd_op x c = Sent c'" using send_progress [of c x] by auto
  from send_Sent [OF Cons.prems(1) c'] Cons have "\<exists>c''. send_all xs c' = Some c''" by simp
  with c' show ?case by simp
qed simp

text \<open>Receiving until the buffer is empty gives the values back in the order they were sent.\<close>

fun recv_n :: "nat \<Rightarrow> 'c \<Rightarrow> 'a list" where
  "recv_n 0 c = []"
| "recv_n (Suc n) c = (case rcv_op c of Received x c' \<Rightarrow> x # recv_n n c' | _ \<Rightarrow> [])"

lemma recv_n_contents: "ok c \<Longrightarrow> recv_n n c = take n (contents c)"
proof (induction n arbitrary: c)
  case (Suc n)
  then show ?case
    using recv_Received [of c] recv_blocks [of c] recv_closed [of c]
    by (cases "rcv_op c") auto
qed simp

lemma send_all_recv:
  "ok c \<Longrightarrow> contents c = [] \<Longrightarrow> send_all xs c = Some c' \<Longrightarrow> recv_n (length xs) c' = xs"
  using send_all_contents [of c xs c'] by (simp add: recv_n_contents)

end

section \<open>The runtime's channel\<close>

record 'a chan =
  buf :: "'a list"
  cap :: nat
  closed :: bool

definition make_chan :: "nat \<Rightarrow> 'a chan" where
  "make_chan n = \<lparr>buf = [], cap = n, closed = False\<rparr>"

definition send :: "'a \<Rightarrow> 'a chan \<Rightarrow> 'a chan sent" where
  "send x c = (if closed c then SendPanics
     else if length (buf c) < cap c then Sent (c\<lparr>buf := buf c @ [x]\<rparr>)
     else SendBlocks)"

definition recv :: "'a chan \<Rightarrow> ('a, 'a chan) received" where
  "recv c = (case buf c of
      x # xs \<Rightarrow> Received x (c\<lparr>buf := xs\<rparr>)
    | [] \<Rightarrow> if closed c then RecvClosed else RecvBlocks)"

text \<open>\<open>close(ch)\<close> panics on a closed channel.\<close>

definition close_chan :: "'a chan \<Rightarrow> 'a chan outcome" where
  "close_chan c = (if closed c then Panic ''close of closed channel''
                   else Return (c\<lparr>closed := True\<rparr>))"

definition chan_ok :: "'a chan \<Rightarrow> bool" where
  "chan_ok c \<longleftrightarrow> length (buf c) \<le> cap c"

lemma chan_ok_make [simp]: "chan_ok (make_chan n)"
  by (simp add: chan_ok_def make_chan_def)

interpretation ch: fifo_channel buf "\<lambda>c. cap c - length (buf c)" closed chan_ok send recv
  by unfold_locales (auto simp: send_def recv_def chan_ok_def split: if_splits list.splits)

end
