(* ===== verification/Clients.thy ===== *)
theory Clients
  imports Errors Channels
begin

text \<open>
  The outside of the library, as the code sees it: the calls it makes on the AWS clients
  (\<open>src/consumer/client.go\<close>), on its logger and on its metrics recorder, collected in one
  ordered list of events, and the answers of those clients as functions of the events so far.
  The clients are code outside \<open>src/\<close>: a record of answer functions, so that every theorem
  quantifies over everything they may answer.
\<close>

section \<open>Requests and events\<close>

text \<open>An SQS message attribute value: the data type and the text.\<close>

record attr_value =
  dataType :: string
  stringValue :: string

text \<open>\<open>sqs.SendMessageInput\<close> as the DLQ publisher fills it; an unset pointer is \<open>None\<close>.\<close>

record send_input =
  siQueueUrl :: string
  siMessageBody :: string
  siMessageAttributes :: "attr_value gomap"
  siMessageGroupId :: "string option"
  siMessageDeduplicationId :: "string option"

text \<open>\<open>scheduler.CreateScheduleInput\<close> as the retry scheduler fills it.\<close>

record schedule_input =
  csName :: string
  csScheduleExpression :: string
  csActionAfterCompletion :: string
  csFlexibleMode :: string
  csTargetArn :: string
  csTargetRoleArn :: string
  csTargetInput :: string

text \<open>\<open>sqs.ReceiveMessageInput\<close>: what varies of it.\<close>

record receive_input =
  riQueueUrl :: string
  riMaxNumberOfMessages :: go_int32
  riWaitTimeSeconds :: go_int32
  riVisibilityTimeout :: go_int32

text \<open>\<open>sns.PublishInput\<close> and an entry of \<open>sns.PublishBatchInput\<close>.\<close>

record publish_request =
  prMessage :: string
  prTopicArn :: string
  prMessageGroupId :: "string option"
  prMessageDeduplicationId :: "string option"
  prMessageAttributes :: "attr_value gomap"

record batch_request_entry =
  brId :: string
  brMessage :: string
  brMessageGroupId :: "string option"
  brMessageDeduplicationId :: "string option"
  brMessageAttributes :: "attr_value gomap"

datatype level = LevelInfo | LevelWarn | LevelError

text \<open>The levels of \<open>slog\<close> with their numbers, which order them.\<close>

primrec severity :: "level \<Rightarrow> int" where
  "severity LevelInfo = 0" | "severity LevelWarn = 4" | "severity LevelError = 8"

lemma severity_inject: "severity l = severity l' \<longleftrightarrow> l = l'"
  by (cases l; cases l') simp_all

instantiation level :: linorder
begin

definition "l \<le> l' \<longleftrightarrow> severity l \<le> severity l'"
definition "l < l' \<longleftrightarrow> severity l < severity l'"

instance
  by standard (auto simp: less_eq_level_def less_level_def severity_inject)

end

lemma LevelInfo_least [simp]: "LevelInfo \<le> l"
  by (cases l) (simp_all add: less_eq_level_def)

datatype log_arg = LStr string | LInt int | LBool bool | LErr err | LDur int

text \<open>
  The events the library causes, in the order it causes them: log records, SQS and Scheduler
  calls, SNS calls, the connectivity probe of a client, calls of an id generator (role, fields),
  handing a receipt handle to the delete batcher, calls of the metrics recorder (method,
  route), updates of the middleware's collectors (collector, labels), the start of a visibility
  goroutine, the OnDLQ callback, spans (name, attributes, new root, linked span), and whatever the
  user's handler does.
\<close>

datatype event =
    Log level string "(string \<times> log_arg) list"
  | CallDelete string string
  | EnqueueDelete string
  | CallChangeVisibility string string go_int32
  | CallSend send_input
  | CallReceive receive_input
  | CallGetQueueUrl string
  | CallDeleteBatch string "(string \<times> string) list"
  | CallPublish publish_request
  | CallPublishBatch string "batch_request_entry list"
  | CallPing
  | CallGenerate string "string gomap"
  | CallSchedule schedule_input
  | Metric string string
  | CounterInc string "string list"
  | GaugeInc string "string list"
  | GaugeDec string "string list"
  | Observe string "string list" int
  | SpawnVisibility string
  | CallOnDLQ string
  | SpanStart string "(string \<times> string) list" bool "string option"
  | SpanError err
  | SpanStatus bool
  | SpanEnd
  | User string

type_synonym trace = "event list"

section \<open>Clients\<close>

text \<open>
  The answers of an \<open>SQSClient\<close>. \<open>receiveMessage\<close> yields an error, or an output that may be nil.
  \<open>deleteMessageBatch\<close> is \<open>None\<close> for a client that does not implement \<open>BatchDeleteClient\<close>;
  the answer lists the failed entries (Id, code, sender fault, text), or is a nil output.
\<close>

type_synonym batch_failure = "string option \<times> string option \<times> bool \<times> string option"

record 'm sqs_client =
  receiveMessage :: "trace \<Rightarrow> err + 'm list option"
  deleteMessage :: "trace \<Rightarrow> err option"
  changeMessageVisibility :: "trace \<Rightarrow> err option"
  getQueueUrl :: "trace \<Rightarrow> err + string option option"
  sendMessage :: "trace \<Rightarrow> err option"
  deleteMessageBatch :: "(trace \<Rightarrow> err + batch_failure list option) option"

record scheduler_client =
  createSchedule :: "trace \<Rightarrow> err option"

text \<open>
  A \<open>MetricsRecorder\<close>: whether the call made last in the trace panics, and with what. All
  its four methods have this shape; which one is called is in the event.
\<close>

type_synonym recorder = "trace \<Rightarrow> string option"

section \<open>Fallible steps\<close>

text \<open>
  A step that may return an error or panic, with the events it causes. \<open>andThen\<close> is the code's
  \<open>if err != nil { return \<dots>, err }\<close> before the rest; a panic unwinds past it.
\<close>

type_synonym 'a step = "(err + 'a) outcome \<times> trace"

fun andThen :: "'a step \<Rightarrow> ('a \<Rightarrow> trace \<Rightarrow> 'b step) \<Rightarrow> 'b step" where
  "andThen (Return (Inr x), t) k = k x t"
| "andThen (Return (Inl e), t) k = (Return (Inl e), t)"
| "andThen (Panic p, t) k = (Panic p, t)"

lemma andThen_Inr_iff:
  "andThen s k = (Return (Inr y), t') \<longleftrightarrow> (\<exists>x t. s = (Return (Inr x), t) \<and> k x t = (Return (Inr y), t'))"
  by (cases "(s, k)" rule: andThen.cases) auto

lemma andThen_cong [fundef_cong]:
  "s = s' \<Longrightarrow> (\<And>x t. s' = (Return (Inr x), t) \<Longrightarrow> k x t = k' x t) \<Longrightarrow> andThen s k = andThen s' k'"
  by (cases "(s', k')" rule: andThen.cases) auto

section \<open>Reading a trace\<close>

text \<open>The receipt handles committed (deleted, or handed to the batcher) by a list of events.\<close>

fun commits :: "trace \<Rightarrow> string list" where
  "commits [] = []"
| "commits (CallDelete q h # es) = h # commits es"
| "commits (EnqueueDelete h # es) = h # commits es"
| "commits (e # es) = commits es"

fun metrics_of :: "trace \<Rightarrow> (string \<times> string) list" where
  "metrics_of [] = []"
| "metrics_of (Metric m r # es) = (m, r) # metrics_of es"
| "metrics_of (e # es) = metrics_of es"

fun schedules :: "trace \<Rightarrow> schedule_input list" where
  "schedules [] = []"
| "schedules (CallSchedule i # es) = i # schedules es"
| "schedules (e # es) = schedules es"

fun sends :: "trace \<Rightarrow> send_input list" where
  "sends [] = []"
| "sends (CallSend i # es) = i # sends es"
| "sends (e # es) = sends es"

lemma commits_append [simp]: "commits (es @ fs) = commits es @ commits fs"
  by (induction es rule: commits.induct) auto

lemma metrics_of_append [simp]: "metrics_of (es @ fs) = metrics_of es @ metrics_of fs"
  by (induction es rule: metrics_of.induct) auto

lemma schedules_append [simp]: "schedules (es @ fs) = schedules es @ schedules fs"
  by (induction es rule: schedules.induct) auto

lemma sends_append [simp]: "sends (es @ fs) = sends es @ sends fs"
  by (induction es rule: sends.induct) auto

lemmas trace_readers = commits.simps metrics_of.simps schedules.simps sends.simps

section \<open>An example client\<close>

text \<open>A client that answers every call without an error.\<close>

definition quietClient :: "'m sqs_client" where
  "quietClient = \<lparr>receiveMessage = (\<lambda>t. Inr None), deleteMessage = (\<lambda>t. None),
     changeMessageVisibility = (\<lambda>t. None), getQueueUrl = (\<lambda>t. Inr None), sendMessage = (\<lambda>t. None),
     deleteMessageBatch = None\<rparr>"

end
