(* ===== verification/Message.thy ===== *)
theory Message
  imports Clients
begin

text \<open>
  A received message (\<open>src/consumer/message.go\<close>): the SQS message, the SNS envelope parsed
  from its body, and the state through which the handler talks to the dispatcher and to the
  visibility goroutine: whether \<open>Dispatch\<close> closed the dispatch channel, whether \<open>Backoff\<close> was
  called, and the backoff channel of capacity one. A Go \<open>*string\<close> that may be nil is a
  \<open>string option\<close>; the barrier pointer is the address of a barrier in the batch store
  (theory \<open>Barrier\<close>), \<open>None\<close> for nil. JSON decoding of the envelope is a parameter of
  \<open>newMessage\<close>: \<open>parse body\<close> is what \<open>json.Unmarshal\<close> leaves in the envelope, errors ignored.
\<close>

record message_attribute =
  maType :: string
  maValue :: string

record sns_envelope =
  seTimestamp :: int
  seMessageAttributes :: "message_attribute gomap"
  seMessage :: string

definition zero_envelope :: sns_envelope where
  "zero_envelope = \<lparr>seTimestamp = 0, seMessageAttributes = [], seMessage = []\<rparr>"

text \<open>\<open>types.Message\<close>: the fields of it the library reads.\<close>

record sqs_message =
  smBody :: "string option"
  smReceiptHandle :: "string option"
  smAttributes :: "string gomap"
  smMessageAttributes :: "string option gomap"

record message =
  backoffChannel :: "duration chan"
  dispatched :: bool
  barrier :: "nat option"
  original :: sqs_message
  groupKey :: string
  envelope :: sns_envelope
  backedOff :: bool

definition newMessage :: "(string \<Rightarrow> sns_envelope) \<Rightarrow> sqs_message \<Rightarrow> message" where
  "newMessage parse m =
     \<lparr>backoffChannel = make_chan 1, dispatched = False, barrier = None, original = m,
      groupKey = [], envelope = (case smBody m of None \<Rightarrow> zero_envelope | Some b \<Rightarrow> parse b),
      backedOff = False\<rparr>"

section \<open>Accessors\<close>

definition Body :: "message \<Rightarrow> string" where
  "Body m = (case smBody (original m) of Some b \<Rightarrow> b | None \<Rightarrow> [])"

definition Attribute :: "message \<Rightarrow> string \<Rightarrow> string" where
  "Attribute m key = (case lookup (seMessageAttributes (envelope m)) key of
     None \<Rightarrow> [] | Some a \<Rightarrow> maValue a)"

definition Attributes :: "message \<Rightarrow> string gomap" where
  "Attributes m = fold (\<lambda>(k, v) attrs. store k (maValue v) attrs)
     (seMessageAttributes (envelope m)) []"

definition SystemAttributeByKey :: "message \<Rightarrow> string \<Rightarrow> string" where
  "SystemAttributeByKey m key = (case lookup (smAttributes (original m)) key of
     None \<Rightarrow> [] | Some v \<Rightarrow> v)"

definition SystemAttributes :: "message \<Rightarrow> string gomap" where
  "SystemAttributes m = fold (\<lambda>(k, v) attrs. store k v attrs) (smAttributes (original m)) []"

definition UserMessageAttribute :: "message \<Rightarrow> string \<Rightarrow> string" where
  "UserMessageAttribute m key = (case lookup (smMessageAttributes (original m)) key of
     Some (Some v) \<Rightarrow> v | _ \<Rightarrow> [])"

definition UserMessageAttributes :: "message \<Rightarrow> string gomap" where
  "UserMessageAttributes m = fold (\<lambda>(k, v) attrs. case v of None \<Rightarrow> attrs | Some s \<Rightarrow> store k s attrs)
     (smMessageAttributes (original m)) []"

definition Metadata :: "message \<Rightarrow> string gomap" where
  "Metadata m = Attributes m"

definition Identifier :: "message \<Rightarrow> string" where
  "Identifier m = (case smReceiptHandle (original m) of None \<Rightarrow> [] | Some h \<Rightarrow> h)"

definition MessageText :: "message \<Rightarrow> string" where
  "MessageText m = seMessage (envelope m)"

definition TimeStamp :: "message \<Rightarrow> int" where
  "TimeStamp m = seTimestamp (envelope m)"

text \<open>
  \<open>unmarshal data out\<close> stands for \<open>json.Unmarshal\<close> at the type of \<open>out\<close>: what it leaves there, and its
  error.
\<close>

definition Decode :: "(string \<Rightarrow> 'o \<Rightarrow> 'o \<times> err option) \<Rightarrow> message \<Rightarrow> 'o \<Rightarrow> 'o \<times> err option" where
  "Decode unmarshal m out = unmarshal (Body m) out"

definition DecodeMessage :: "(string \<Rightarrow> 'o \<Rightarrow> 'o \<times> err option) \<Rightarrow> message \<Rightarrow> 'o \<Rightarrow> 'o \<times> err option" where
  "DecodeMessage unmarshal m out = unmarshal (seMessage (envelope m)) out"

section \<open>Signals\<close>

text \<open>\<open>Dispatch\<close> closes the dispatch channel once; later calls do nothing.\<close>

definition Dispatch :: "message \<Rightarrow> message" where
  "Dispatch m = (if dispatched m then m else m\<lparr>dispatched := True\<rparr>)"

text \<open>
  \<open>Backoff\<close> first marks the message, then sends on the channel of capacity one. The result is
  the message after the call and whether the call is blocked in the send.
\<close>

definition Backoff :: "duration \<Rightarrow> message \<Rightarrow> message \<times> bool" where
  "Backoff delay m = (let m1 = m\<lparr>backedOff := True\<rparr> in
     case send delay (backoffChannel m1) of
       Sent c \<Rightarrow> (m1\<lparr>backoffChannel := c\<rparr>, False)
     | _ \<Rightarrow> (m1, True))"

definition BackedOff :: "message \<Rightarrow> bool" where
  "BackedOff m = backedOff m"

section \<open>Properties\<close>

text \<open>Copying a map key by key gives the same lookups.\<close>

lemma lookup_fold_store:
  "wf_map xs \<Longrightarrow> lookup (fold (\<lambda>(k, v) m. store k (f v) m) xs m) k =
     (case lookup xs k of Some v \<Rightarrow> Some (f v) | None \<Rightarrow> lookup m k)"
proof (induction xs arbitrary: m)
  case (Cons p xs)
  obtain k' v' where p: "p = (k', v')" by force
  from Cons.prems have "wf_map xs" and "k' \<notin> fst ` set xs"
    by (simp_all add: wf_map_def p)
  moreover from this have "lookup xs k' = None" by (simp add: map_of_eq_None_iff)
  ultimately show ?case using Cons.IH by (simp add: p split: option.split)
qed simp

lemma lookup_fold_store_opt:
  "wf_map xs \<Longrightarrow>
   lookup (fold (\<lambda>(k, v) m. case v of None \<Rightarrow> m | Some s \<Rightarrow> store k s m) xs m) k =
     (case lookup xs k of Some (Some v) \<Rightarrow> Some v | _ \<Rightarrow> lookup m k)"
proof (induction xs arbitrary: m)
  case (Cons p xs)
  obtain k' v' where p: "p = (k', v')" by force
  from Cons.prems have "wf_map xs" and "k' \<notin> fst ` set xs"
    by (simp_all add: wf_map_def p)
  moreover from this have "lookup xs k' = None" by (simp add: map_of_eq_None_iff)
  ultimately show ?case using Cons.IH by (simp add: p split: option.split)
qed simp

lemma wf_fold_store: "wf_map m \<Longrightarrow> wf_map (fold (\<lambda>(k, v) m. store k (f v) m) xs m)"
  by (induction xs arbitrary: m) (auto simp: wf_store)

lemma wf_fold_store_opt:
  "wf_map m \<Longrightarrow> wf_map (fold (\<lambda>(k, v) m. case v of None \<Rightarrow> m | Some s \<Rightarrow> store k s m) xs m)"
  by (induction xs arbitrary: m) (auto simp: wf_store split: option.split)

lemma wf_map_Nil [simp]: "wf_map []"
  by (simp add: wf_map_def)

lemma wf_UserMessageAttributes [simp]: "wf_map (UserMessageAttributes m)"
  by (simp add: UserMessageAttributes_def wf_fold_store_opt)

lemma lookup_UserMessageAttributes:
  "wf_map (smMessageAttributes (original m)) \<Longrightarrow>
   UserMessageAttribute m k = (case lookup (UserMessageAttributes m) k of None \<Rightarrow> [] | Some v \<Rightarrow> v)"
  by (simp add: UserMessageAttribute_def UserMessageAttributes_def lookup_fold_store_opt
      split: option.split)

lemma Dispatch_idem [simp]: "Dispatch (Dispatch m) = Dispatch m"
  by (simp add: Dispatch_def)

text \<open>
  The three map accessors agree with the single-key accessors: for a message whose maps have
  distinct keys, the value under a key of the copied map, or the empty string when the key is
  absent (for user attributes also when it carries no string value), is what the single-key
  accessor returns; and every copied map has distinct keys.
\<close>

theorem accessors_agree:
  assumes "wf_map (seMessageAttributes (envelope m))" "wf_map (smAttributes (original m))"
    "wf_map (smMessageAttributes (original m))"
  shows "Attribute m k = (case lookup (Attributes m) k of None \<Rightarrow> [] | Some v \<Rightarrow> v) \<and>
    SystemAttributeByKey m k = (case lookup (SystemAttributes m) k of None \<Rightarrow> [] | Some v \<Rightarrow> v) \<and>
    UserMessageAttribute m k = (case lookup (UserMessageAttributes m) k of None \<Rightarrow> [] | Some v \<Rightarrow> v) \<and>
    wf_map (Attributes m) \<and> wf_map (SystemAttributes m) \<and> wf_map (UserMessageAttributes m)"
  using assms lookup_fold_store [of "smAttributes (original m)" "\<lambda>v. v"]
  by (simp add: lookup_UserMessageAttributes Attribute_def Attributes_def
      SystemAttributeByKey_def SystemAttributes_def lookup_fold_store wf_fold_store
      wf_fold_store [where f = "\<lambda>v. v"] split: option.split)

definition example_message :: message where
  "example_message = newMessage (\<lambda>b. zero_envelope)
     \<lparr>smBody = Some ''hi'', smReceiptHandle = Some ''rh-1'',
      smAttributes = [(''MessageGroupId'', ''g1''), (''ApproximateReceiveCount'', ''3'')],
      smMessageAttributes = [(''retry_count'', Some ''2''), (''bin'', None)]\<rparr>"

theorem accessors_agree_witness:
  "UserMessageAttribute example_message ''retry_count'' = ''2'' \<and>
   lookup (UserMessageAttributes example_message) ''retry_count'' = Some ''2''"
proof -
  have wf: "wf_map (seMessageAttributes (envelope example_message))"
    "wf_map (smAttributes (original example_message))"
    "wf_map (smMessageAttributes (original example_message))"
    by (simp_all add: example_message_def newMessage_def zero_envelope_def wf_map_def)
  have "UserMessageAttribute example_message ''retry_count'' = ''2''"
    by (simp add: example_message_def newMessage_def UserMessageAttribute_def)
  then show ?thesis
    using accessors_agree [OF wf, of "''retry_count''"] by (auto split: option.splits)
qed

end
