(* ===== verification/Middleware.thy ===== *)
theory Middleware
  imports Message
begin

text \<open>
  The package \<open>middleware\<close>: \<open>Handler\<close>, \<open>Middleware\<close> and \<open>Chain\<close> (\<open>middleware.go\<close>), and the
  built-in middlewares \<open>Recovery\<close>, \<open>Logging\<close>, \<open>Metrics\<close> and \<open>OTel\<close>.

  A handler is a state transformer: it gets the context and the state (the message, which it
  may mark through \<open>Backoff\<close> and \<open>Dispatch\<close>, and the events so far) and returns an error, nil,
  or panics. A panic unwinds to the nearest deferred function, so \<open>HPanic\<close> runs exactly the
  deferred parts of each middleware. The locale \<open>transparent_middleware\<close> is the contract
  "calls next once on the same message, adds only logs, metrics and spans around it, returns its result"; \<open>Logging\<close>, \<open>Metrics\<close> and
  \<open>OTel\<close> are shown to satisfy it, and a chain of such middlewares does too.
\<close>

datatype hresult = HRet "err option" | HPanic string

record ctx =
  spanCtx :: "string option"

record hstate =
  cur :: "message option"
  htrace :: trace

type_synonym handler = "ctx \<Rightarrow> hstate \<Rightarrow> hresult \<times> hstate"
type_synonym middleware = "handler \<Rightarrow> handler"

definition emit :: "trace \<Rightarrow> hstate \<Rightarrow> hstate" where
  "emit es s = s\<lparr>htrace := htrace s @ es\<rparr>"

lemma emit_simps [simp]:
  "cur (emit es s) = cur s" "htrace (emit es s) = htrace s @ es"
  "emit [] s = s" "emit fs (emit es s) = emit (es @ fs) s"
  by (simp_all add: emit_def)

section \<open>Chain\<close>

text \<open>\<^verbatim>\<open>for i := len(mws) - 1; i >= 0; i-- { next = mws[i](next) }\<close>\<close>

definition Chain :: "middleware list \<Rightarrow> middleware" where
  "Chain mws next = fold (\<lambda>mw n. mw n) (rev mws) next"

lemma Chain_Nil [simp]: "Chain [] next = next"
  by (simp add: Chain_def)

lemma Chain_Cons [simp]: "Chain (mw # mws) next = mw (Chain mws next)"
  by (simp add: Chain_def)

lemma Chain_append [simp]: "Chain (xs @ ys) next = Chain xs (Chain ys next)"
  by (induction xs) simp_all

text \<open>
  Chain composes outermost-first: for every list of middlewares it is the nested
  application \<open>mw1 (mw2 (\<dots> (mwn h)))\<close>, the empty chain is the identity, and splitting the list
  in two composes the two chains (global middlewares outside route middlewares).
\<close>

theorem chain_first_is_outermost:
  "Chain mws h = foldr (\<lambda>mw n. mw n) mws h \<and> Chain [] h = h \<and>
   Chain (globals @ routes) h = Chain globals (Chain routes h)"
  by (simp add: Chain_def foldr_conv_fold)

section \<open>The contract of an observing middleware\<close>

text \<open>Logs, metrics and spans: the events that only observe.\<close>

fun observation :: "event \<Rightarrow> bool" where
  "observation (Log lvl text attrs) = True"
| "observation (CounterInc m ls) = True"
| "observation (GaugeInc m ls) = True"
| "observation (GaugeDec m ls) = True"
| "observation (Observe m ls x) = True"
| "observation (SpanStart name attrs linked link) = True"
| "observation (SpanError e) = True"
| "observation (SpanStatus ok) = True"
| "observation SpanEnd = True"
| "observation _ = False"

text \<open>
  Called with the context \<open>c\<close> in the state \<open>s\<close>, and whatever the next handler is, \<open>mw\<close> calls it once, with the
  context \<open>c'\<close> on the same message, and returns its result; around the call it adds observations only.
\<close>

definition wraps :: "middleware \<Rightarrow> ctx \<Rightarrow> hstate \<Rightarrow> ctx \<Rightarrow> trace \<Rightarrow> (hresult \<Rightarrow> hstate \<Rightarrow> trace) \<Rightarrow> bool" where
  "wraps mw c s c' pre post \<longleftrightarrow> list_all observation pre \<and> (\<forall>r s'. list_all observation (post r s')) \<and>
     (\<forall>next. mw next c s = (case next c' (emit pre s) of (r, s') \<Rightarrow> (r, emit (post r s') s')))"

lemma wraps_call:
  "wraps mw c s c' pre post \<Longrightarrow> next c' (emit pre s) = (r, s') \<Longrightarrow> mw next c s = (r, emit (post r s') s')"
  by (simp add: wraps_def)

locale transparent_middleware =
  fixes mw :: middleware
  assumes around: "\<exists>c' pre post. wraps mw c s c' pre post"
begin

lemma same_result: "\<exists>c' pre. fst (mw next c s) = fst (next c' (emit pre s))"
proof -
  obtain c' pre post where "wraps mw c s c' pre post" using around by blast
  then have "fst (mw next c s) = fst (next c' (emit pre s))"
    by (simp add: wraps_def case_prod_beta)
  then show ?thesis by blast
qed

text \<open>A handler that never panics still does not, and a fixed result passes through unchanged.\<close>

lemma keeps_safe:
  assumes "\<And>c s. P (fst (next c s))"
  shows "P (fst (mw next c s))"
  using same_result [of "next" c s] assms by metis

end

lemma transparent_Nil: "transparent_middleware (Chain [])"
proof
  fix c :: ctx and s :: hstate
  have "wraps (Chain []) c s c [] (\<lambda>r s'. [])" by (simp add: wraps_def)
  then show "\<exists>c' pre post. wraps (Chain []) c s c' pre post" by blast
qed

lemma wraps_comp:
  assumes "wraps f c s c1 pre1 post1" and "wraps g c1 (emit pre1 s) c2 pre2 post2"
  shows "wraps (\<lambda>n. f (g n)) c s c2 (pre1 @ pre2) (\<lambda>r s'. post2 r s' @ post1 r (emit (post2 r s') s'))"
proof -
  have "f (g next) c s = (r, emit (post2 r s' @ post1 r (emit (post2 r s') s')) s')"
    if "next c2 (emit (pre1 @ pre2) s) = (r, s')" for "next" :: handler and r s'
    using wraps_call [OF assms(2), of "next" r s'] wraps_call [OF assms(1), of "g next"] that by simp
  then have "f (g next) c s = (case next c2 (emit (pre1 @ pre2) s) of
      (r, s') \<Rightarrow> (r, emit (post2 r s' @ post1 r (emit (post2 r s') s')) s'))" for "next" :: handler
    by (cases "next c2 (emit (pre1 @ pre2) s)") simp
  then show ?thesis using assms unfolding wraps_def by simp
qed

lemma transparent_comp:
  assumes "transparent_middleware f" "transparent_middleware g"
  shows "transparent_middleware (\<lambda>n. f (g n))"
proof
  fix c :: ctx and s :: hstate
  obtain c1 pre1 post1 where f: "wraps f c s c1 pre1 post1"
    using transparent_middleware.around [OF assms(1)] by blast
  obtain c2 pre2 post2 where g: "wraps g c1 (emit pre1 s) c2 pre2 post2"
    using transparent_middleware.around [OF assms(2)] by blast
  from wraps_comp [OF f g] show "\<exists>c' pre post. wraps (\<lambda>n. f (g n)) c s c' pre post" by blast
qed

lemma transparent_Chain:
  "(\<And>mw. mw \<in> set mws \<Longrightarrow> transparent_middleware mw) \<Longrightarrow> transparent_middleware (Chain mws)"
proof (induction mws)
  case Nil
  show ?case by (rule transparent_Nil)
next
  case (Cons mw mws)
  then have "transparent_middleware (\<lambda>n. mw (Chain mws n))"
    by (intro transparent_comp [of mw "Chain mws"]) simp_all
  moreover have "Chain (mw # mws) = (\<lambda>n. mw (Chain mws n))"
    by (rule ext) simp
  ultimately show ?case by simp
qed

section \<open>Recovery\<close>

text \<open>The log attributes that carry the message identifier, none for a nil message.\<close>

definition idAttrs :: "hstate \<Rightarrow> (string \<times> log_arg) list" where
  "idAttrs s = (case cur s of None \<Rightarrow> [] | Some m \<Rightarrow> [(''message_id'', LStr (Identifier m))])"

text \<open>\<open>stack\<close> stands for \<open>debug.Stack()\<close>.\<close>

definition Recovery :: "string \<Rightarrow> middleware" where
  "Recovery stack next c s = (case next c s of
     (HRet e, s') \<Rightarrow> (HRet e, s')
   | (HPanic v, s') \<Rightarrow>
       (HRet (wrapErr (Some (Sentinel ErrPanic)) (Some (Fmt v []))),
        emit [Log LevelError ''panic recovered''
                ([(''panic'', LStr v), (''stack'', LStr stack)] @ idAttrs s')] s'))"

section \<open>Logging\<close>

text \<open>\<open>now\<close> is the clock: the time \<open>time.Now\<close> reads after the events so far.\<close>

definition Logging :: "(trace \<Rightarrow> int) \<Rightarrow> middleware" where
  "Logging now next c s =
     (let ids = idAttrs s;
          s1 = emit [Log LevelInfo ''message received'' ids] s;
          start = now (htrace s1)
      in case next c s1 of
        (HPanic v, s2) \<Rightarrow> (HPanic v, s2)
      | (HRet (Some e), s2) \<Rightarrow>
          (HRet (Some e), emit [Log LevelError ''message processing failed''
             ([(''duration'', LDur (now (htrace s2) - start)), (''error'', LErr e)] @ ids)] s2)
      | (HRet None, s2) \<Rightarrow>
          (HRet None, emit [Log LevelInfo ''message processed''
             ([(''duration'', LDur (now (htrace s2) - start))] @ ids)] s2))"

section \<open>Metrics\<close>

definition metricReceived :: string where "metricReceived = ''loafer_messages_received_total''"
definition metricProcessed :: string where "metricProcessed = ''loafer_messages_processed_total''"
definition metricErrors :: string where "metricErrors = ''loafer_messages_errors_total''"
definition metricDuration :: string where
  "metricDuration = ''loafer_message_processing_duration_seconds''"
definition metricInflight :: string where "metricInflight = ''loafer_messages_inflight''"

lemmas metric_names = metricReceived_def metricProcessed_def metricErrors_def
  metricDuration_def metricInflight_def

text \<open>The deferred \<open>inflight.Dec\<close> runs on a panic too; the other updates do not.\<close>

definition Metrics :: "(trace \<Rightarrow> int) \<Rightarrow> string \<Rightarrow> middleware" where
  "Metrics now routeName next c s =
     (let s1 = emit [CounterInc metricReceived [routeName], GaugeInc metricInflight [routeName]] s;
          start = now (htrace s1);
          dec = GaugeDec metricInflight [routeName]
      in case next c s1 of
        (HPanic v, s2) \<Rightarrow> (HPanic v, emit [dec] s2)
      | (HRet e, s2) \<Rightarrow>
          (let observed = Observe metricDuration [routeName] (now (htrace s2) - start) in
           case e of
             Some x \<Rightarrow> (HRet (Some x), emit [observed, CounterInc metricErrors [routeName],
                 CounterInc metricProcessed [routeName, ''error''], dec] s2)
           | None \<Rightarrow> (HRet None, emit [observed,
                 CounterInc metricProcessed [routeName, ''success''], dec] s2)))"

section \<open>OTel\<close>

text \<open>
  \<open>linked\<close> is the option \<open>WithLinkFromContext\<close>; \<open>start\<close> stands for the tracer provider: the
  span context \<open>Tracer.Start\<close> puts into the context it returns.
\<close>

definition OTel :: "bool \<Rightarrow> (trace \<Rightarrow> string option) \<Rightarrow> string \<Rightarrow> middleware" where
  "OTel linked start routeName next c s =
     (let attrs = [(''messaging.system'', ''aws_sqs''), (''messaging.destination.name'', routeName)]
            @ (case cur s of None \<Rightarrow> [] | Some m \<Rightarrow> [(''messaging.message.id'', Identifier m)]);
          link = (if linked then spanCtx c else None);
          s1 = emit [SpanStart (''loafer.process/'' @ routeName) attrs linked link] s;
          c1 = c\<lparr>spanCtx := start (htrace s1)\<rparr>
      in case next c1 s1 of
        (HPanic v, s2) \<Rightarrow> (HPanic v, emit [SpanEnd] s2)
      | (HRet (Some e), s2) \<Rightarrow> (HRet (Some e), emit [SpanError e, SpanStatus False, SpanEnd] s2)
      | (HRet None, s2) \<Rightarrow> (HRet None, emit [SpanStatus True, SpanEnd] s2))"

section \<open>The built-in observers keep the contract\<close>

interpretation logging: transparent_middleware "Logging now" for now
proof
  fix c :: ctx and s :: hstate
  define pre where "pre = [Log LevelInfo ''message received'' (idAttrs s)]"
  have "wraps (Logging now) c s c pre (\<lambda>r s2. case r of HPanic v \<Rightarrow> []
      | HRet (Some e) \<Rightarrow> [Log LevelError ''message processing failed''
         ([(''duration'', LDur (now (htrace s2) - now (htrace (emit pre s)))), (''error'', LErr e)] @ idAttrs s)]
      | HRet None \<Rightarrow> [Log LevelInfo ''message processed''
         ([(''duration'', LDur (now (htrace s2) - now (htrace (emit pre s))))] @ idAttrs s)])"
    by (auto simp: wraps_def Logging_def Let_def pre_def split: prod.split hresult.split option.split)
  then show "\<exists>c' pre post. wraps (Logging now) c s c' pre post" by blast
qed

interpretation metrics: transparent_middleware "Metrics now route" for now route
proof
  fix c :: ctx and s :: hstate
  define pre where
    "pre = [CounterInc metricReceived [route], GaugeInc metricInflight [route]]"
  have "wraps (Metrics now route) c s c pre (\<lambda>r s2. case r of HPanic v \<Rightarrow> [GaugeDec metricInflight [route]]
      | HRet e \<Rightarrow> Observe metricDuration [route] (now (htrace s2) - now (htrace (emit pre s)))
          # (case e of Some x \<Rightarrow> [CounterInc metricErrors [route], CounterInc metricProcessed [route, ''error'']]
             | None \<Rightarrow> [CounterInc metricProcessed [route, ''success'']])
          @ [GaugeDec metricInflight [route]])"
    by (auto simp: wraps_def Metrics_def Let_def pre_def split: prod.split hresult.split option.split)
  then show "\<exists>c' pre post. wraps (Metrics now route) c s c' pre post" by blast
qed

interpretation otel: transparent_middleware "OTel linked start route" for linked start route
proof
  fix c :: ctx and s :: hstate
  define pre where "pre = [SpanStart (''loafer.process/'' @ route)
      ([(''messaging.system'', ''aws_sqs''), (''messaging.destination.name'', route)]
        @ (case cur s of None \<Rightarrow> [] | Some m \<Rightarrow> [(''messaging.message.id'', Identifier m)]))
      linked (if linked then spanCtx c else None)]"
  have "wraps (OTel linked start route) c s (c\<lparr>spanCtx := start (htrace (emit pre s))\<rparr>) pre
      (\<lambda>r s2. case r of HPanic v \<Rightarrow> [SpanEnd]
         | HRet (Some e) \<Rightarrow> [SpanError e, SpanStatus False, SpanEnd]
         | HRet None \<Rightarrow> [SpanStatus True, SpanEnd])"
    by (auto simp: wraps_def OTel_def Let_def pre_def split: prod.split hresult.split option.split)
  then show "\<exists>c' pre post. wraps (OTel linked start route) c s c' pre post" by blast
qed

section \<open>Properties\<close>

text \<open>The three observing middlewares of the package.\<close>

definition observer :: "middleware \<Rightarrow> bool" where
  "observer mw \<longleftrightarrow> (\<exists>now. mw = Logging now) \<or> (\<exists>now route. mw = Metrics now route) \<or>
     (\<exists>linked start route. mw = OTel linked start route)"

lemma observer_intros [simp]:
  "observer (Logging now)" "observer (Metrics now route)" "observer (OTel linked start route)"
  unfolding observer_def by blast+

lemma observer_transparent: "observer mw \<Longrightarrow> transparent_middleware mw"
  unfolding observer_def
  using logging.transparent_middleware_axioms metrics.transparent_middleware_axioms
    otel.transparent_middleware_axioms by blast

lemma observers_safe:
  assumes "\<forall>mw \<in> set mws. observer mw" and "\<And>c s. P (fst (h c s))"
  shows "P (fst (Chain mws h c s))"
  using transparent_middleware.keeps_safe [OF transparent_Chain, of mws P h c s]
    assms observer_transparent by blast

lemma Recovery_returns: "\<exists>e. fst (Recovery stack next c s) = HRet e"
  by (auto simp: Recovery_def split: prod.split hresult.split)

text \<open>
  Recovery protects the worker: in any chain that has Recovery, with only observing
  middlewares (Logging, Metrics, OTel) outside it and anything inside it, no panic of the
  handler or of an inner middleware escapes; the chain always returns.
\<close>

theorem chain_with_recovery_never_panics:
  assumes "\<forall>mw \<in> set outer. observer mw"
  shows "\<exists>e. fst (Chain (outer @ Recovery stack # inner) h c s) = HRet e"
proof -
  have "\<And>c s. \<exists>e. fst (Recovery stack (Chain inner h) c s) = HRet e"
    by (rule Recovery_returns)
  then show ?thesis
    using observers_safe [OF assms, where P = "\<lambda>r. \<exists>e. r = HRet e" and
        h = "Recovery stack (Chain inner h)"] by simp
qed

theorem chain_with_recovery_never_panics_witness:
  "\<exists>e. fst (Chain ([Logging (\<lambda>t. 0), Metrics (\<lambda>t. 0) ''q''] @ Recovery ''st'' # [])
     (\<lambda>c s. (HPanic ''boom'', s)) \<lparr>spanCtx = None\<rparr> \<lparr>cur = None, htrace = []\<rparr>) = HRet e"
  by (rule chain_with_recovery_never_panics) simp_all

text \<open>
  Recovery converts a panic into an error that matches \<open>ErrPanic\<close> and carries the panic
  value, logs it once after everything the handler did, and leaves a handler that returns
  normally unchanged: same result, same state.
\<close>

theorem recovery_converts_panics:
  "case next c s of
     (HRet e, s') \<Rightarrow> Recovery stack next c s = (HRet e, s')
   | (HPanic v, s') \<Rightarrow> (\<exists>e rec. Recovery stack next c s = (HRet (Some e), emit [rec] s') \<and>
       errIs e ErrPanic \<and> errText e = ''handler panicked: '' @ v \<and>
       (\<exists>attrs. rec = Log LevelError ''panic recovered'' attrs \<and>
          (''panic'', LStr v) \<in> set attrs))"
  by (auto simp: Recovery_def split: prod.split hresult.split)

text \<open>
  C39: Observability never changes an outcome. Any stack of Logging, Metrics and OTel, in any order, calls the handler
  exactly once, on the message it was given and with what happened before in the trace, and returns the very result
  of that call, an error, nil or a panic; the message is left as the handler left it, and only logs, metrics and spans
  are added, before the call and after it. What is added before does not depend on the handler at all, and what is
  added after only on the result and the state of the call.
\<close>

theorem observers_do_not_change_result:
  assumes "\<forall>mw \<in> set mws. observer mw"
  shows "\<exists>c' pre post. list_all observation pre \<and> (\<forall>r s'. list_all observation (post r s')) \<and>
    (\<forall>h. Chain mws h c s = (case h c' (s\<lparr>htrace := htrace s @ pre\<rparr>) of
       (r, s') \<Rightarrow> (r, s'\<lparr>htrace := htrace s' @ post r s'\<rparr>)))"
  using transparent_middleware.around [OF transparent_Chain, of mws c s] assms observer_transparent
  unfolding wraps_def emit_def by blast

text \<open>A handler that dispatches its message and fails on it, but not without a message.\<close>

theorem observers_do_not_change_result_witness:
  "let h = (\<lambda>c s. case cur s of None \<Rightarrow> (HRet None, s)
         | Some m \<Rightarrow> (HRet (Some (External (Identifier m))), s\<lparr>cur := Some (Dispatch m)\<rparr>));
       (r, s') = Chain [Logging (\<lambda>t. 0), OTel True (\<lambda>t. None) ''q'', Metrics (\<lambda>t. 0) ''q''] h
         \<lparr>spanCtx = None\<rparr> \<lparr>cur = Some example_message, htrace = []\<rparr>
   in r = HRet (Some (External (Identifier example_message))) \<and> cur s' = Some (Dispatch example_message)"
proof -
  have "\<forall>mw \<in> set [Logging (\<lambda>t. 0), OTel True (\<lambda>t. None) ''q'', Metrics (\<lambda>t. 0) ''q'']. observer mw" by simp
  from observers_do_not_change_result [OF this, of "\<lparr>spanCtx = None\<rparr>" "\<lparr>cur = Some example_message, htrace = []\<rparr>"]
  obtain c' pre post where run: "\<And>h. Chain [Logging (\<lambda>t. 0), OTel True (\<lambda>t. None) ''q'', Metrics (\<lambda>t. 0) ''q''] h
      \<lparr>spanCtx = None\<rparr> \<lparr>cur = Some example_message, htrace = []\<rparr> =
    (case h c' \<lparr>cur = Some example_message, htrace = pre\<rparr> of
       (r, s') \<Rightarrow> (r, s'\<lparr>htrace := htrace s' @ post r s'\<rparr>))" by auto
  show ?thesis unfolding run by simp
qed

text \<open>
  The collectors of the Metrics middleware stay balanced around every message: what it adds
  before and after the handler increments received once, increments and decrements the inflight
  gauge once each (also when the handler panics), and counts the message as processed exactly
  once with the status of its outcome, and as an error exactly when an error was returned; a
  panicking message is counted as received but never as processed.
\<close>

theorem metrics_balanced:
  "\<exists>pre post. Metrics now route next c s =
     (case next c (emit pre s) of (r, s') \<Rightarrow> (r, emit (post r s') s')) \<and>
   (\<forall>r (s' :: hstate). let es = pre @ post r s' in
      count_list es (CounterInc metricReceived [route]) = 1 \<and>
      count_list es (GaugeInc metricInflight [route]) = 1 \<and>
      count_list es (GaugeDec metricInflight [route]) = 1 \<and>
      count_list es (CounterInc metricProcessed [route, ''success'']) =
        (if r = HRet None then 1 else 0) \<and>
      count_list es (CounterInc metricProcessed [route, ''error'']) =
        (if \<exists>e. r = HRet (Some e) then 1 else 0) \<and>
      count_list es (CounterInc metricErrors [route]) =
        (if \<exists>e. r = HRet (Some e) then 1 else 0))"
proof -
  define pre where
    "pre = [CounterInc metricReceived [route], GaugeInc metricInflight [route]]"
  define post where "post = (\<lambda>r (s2 :: hstate). case r of HPanic v \<Rightarrow> [GaugeDec metricInflight [route]]
    | HRet e \<Rightarrow> Observe metricDuration [route] (now (htrace s2) - now (htrace (emit pre s)))
        # (case e of Some x \<Rightarrow> [CounterInc metricErrors [route],
             CounterInc metricProcessed [route, ''error'']]
           | None \<Rightarrow> [CounterInc metricProcessed [route, ''success'']])
        @ [GaugeDec metricInflight [route]])"
  have "Metrics now route next c s =
     (case next c (emit pre s) of (r, s') \<Rightarrow> (r, emit (post r s') s'))"
    by (auto simp: Metrics_def Let_def pre_def post_def
        split: prod.split hresult.split option.split)
  moreover have "let es = pre @ post r s' in
      count_list es (CounterInc metricReceived [route]) = 1 \<and>
      count_list es (GaugeInc metricInflight [route]) = 1 \<and>
      count_list es (GaugeDec metricInflight [route]) = 1 \<and>
      count_list es (CounterInc metricProcessed [route, ''success'']) =
        (if r = HRet None then 1 else 0) \<and>
      count_list es (CounterInc metricProcessed [route, ''error'']) =
        (if \<exists>e. r = HRet (Some e) then 1 else 0) \<and>
      count_list es (CounterInc metricErrors [route]) =
        (if \<exists>e. r = HRet (Some e) then 1 else 0)" for r and s' :: hstate
    by (auto simp: Let_def pre_def post_def metric_names split: hresult.split option.split)
  ultimately show ?thesis by blast
qed

end
