(* ===== verification/Router.thy ===== *)
theory Router
  imports Middleware
begin

text \<open>
  The package \<open>router\<close>: the immutable \<open>Route\<close>, its functional options with their validation,
  and \<open>New\<close>. An option is the closure an option constructor returns; here it is a constructor of
  \<open>route_option\<close> holding the captured arguments, and \<open>applyRoute\<close> is the closure's body.
  \<open>Mode\<close> and \<open>RetryModel\<close> are Go integers with named constants, so that the values no constant
  names are in the model too. A nil function or pointer is \<open>None\<close>.

  The lemmas: every accepted option keeps the route's invariant (the interpretation \<open>ro\<close> of
  \<open>validated_options\<close>), and what \<open>New\<close> therefore guarantees of every route it returns.
\<close>

section \<open>Modes and retry models\<close>

type_synonym mode = go_int
type_synonym retry_model = go_int

definition Parallel :: mode where "Parallel = 0"
definition PerGroupID :: mode where "PerGroupID = 1"

definition modeString :: "mode \<Rightarrow> string" where
  "modeString m = (if m = Parallel then ''Parallel''
     else if m = PerGroupID then ''PerGroupID'' else ''Unknown'')"

definition modeValid :: "mode \<Rightarrow> bool" where
  "modeValid m \<longleftrightarrow> m = Parallel \<or> m = PerGroupID"

definition VisibilityRetryModel :: retry_model where "VisibilityRetryModel = 0"
definition ScheduledRetryModel :: retry_model where "ScheduledRetryModel = 1"

lemmas route_consts = Parallel_def PerGroupID_def VisibilityRetryModel_def ScheduledRetryModel_def

section \<open>Configuration values\<close>

text \<open>\<open>DLQConfig\<close>: the callback is user code, of which the model keeps whether it panics.\<close>

record dlq_config =
  OnDLQ :: "recorder option"
  MaxReceiveCount :: go_int

datatype dlq_option = WithOnDLQ "recorder option"

fun applyDLQ :: "dlq_option \<Rightarrow> dlq_config \<Rightarrow> dlq_config" where
  "applyDLQ (WithOnDLQ None) c = c"
| "applyDLQ (WithOnDLQ (Some fn)) c = c\<lparr>OnDLQ := Some fn\<rparr>"

record sched_config =
  TargetQueueARN :: string
  ExecutionRoleARN :: string
  DLQQueueURL :: string
  MaxRetryCount :: go_int
  BaseBackoff :: duration
  MaxBackoff :: duration

datatype sched_option =
    WithSchedulerIdentity string string
  | WithScheduledDLQ string
  | WithMaxRetryCount go_int
  | WithBackoff duration duration

fun applySched :: "sched_option \<Rightarrow> sched_config \<Rightarrow> sched_config" where
  "applySched (WithSchedulerIdentity t e) c = c\<lparr>TargetQueueARN := t, ExecutionRoleARN := e\<rparr>"
| "applySched (WithScheduledDLQ u) c = c\<lparr>DLQQueueURL := u\<rparr>"
| "applySched (WithMaxRetryCount n) c = c\<lparr>MaxRetryCount := n\<rparr>"
| "applySched (WithBackoff b m) c = c\<lparr>BaseBackoff := b, MaxBackoff := m\<rparr>"

definition maxReceiveMessages :: go_int32 where "maxReceiveMessages = 10"
definition maxWaitTimeSeconds :: go_int32 where "maxWaitTimeSeconds = 20"
definition defaultBaseBackoff :: duration where "defaultBaseBackoff = 1000 * millisecond"
definition minBackoffCfg :: duration where "minBackoffCfg = 1 * millisecond"
definition maxBackoffGuard :: duration where "maxBackoffGuard = 24 * 60 * 60 * second"
definition minMaxRetryCount :: go_int where "minMaxRetryCount = 0"
definition maxMaxRetryCount :: go_int where "maxMaxRetryCount = 2147483647"

lemmas router_bounds = maxReceiveMessages_def maxWaitTimeSeconds_def defaultBaseBackoff_def
  minBackoffCfg_def maxBackoffGuard_def minMaxRetryCount_def maxMaxRetryCount_def
  second_def millisecond_def

section \<open>Routes and their options\<close>

record route =
  handler :: handler
  dlqConfig :: "dlq_config option"
  scheduledRetry :: "sched_config option"
  queueName :: string
  middlewares :: "middleware list"
  customGroupFields :: "string list"
  workerPoolSize :: go_int
  extensionLimit :: go_int
  runMode :: mode
  retryModel :: retry_model
  maxMessages :: go_int32
  waitTimeSeconds :: go_int32
  visibilityTimeout :: go_int32
  deleteBatch :: bool

datatype route_option =
    WithWorkerPoolSize go_int
  | WithMaxMessages go_int32
  | WithWaitTimeSeconds go_int32
  | WithVisibilityTimeout go_int32
  | WithExtensionLimit go_int
  | WithRunMode mode
  | WithCustomGroupFields "string list"
  | WithMiddleware "middleware option list"
  | WithDLQ go_int "dlq_option option list"
  | WithDeleteBatch
  | WithRetryModel retry_model
  | WithScheduledRetry "sched_option option list"

text \<open>\<open>validateScheduledRetry\<close>: \<open>None\<close> when the configuration is accepted.\<close>

definition validateScheduledRetry :: "route \<Rightarrow> sched_config \<Rightarrow> err option" where
  "validateScheduledRetry r cfg =
     (if dlqConfig r \<noteq> None then
        Some (Fmt ''scheduled Retry model DLQ conflicts with the observe-only WithDLQ'' [])
      else
        (let missing = (if TargetQueueARN cfg = [] then [''target Entry_Queue ARN''] else [])
                     @ (if ExecutionRoleARN cfg = [] then [''execution role ARN''] else [])
         in if missing \<noteq> [] then
              Some (Fmt ''missing scheduler identity: %s'' [ArgStr (join '', '' missing)])
            else if DLQQueueURL cfg = [] then Some (Fmt ''missing DLQ destination'' [])
            else if MaxRetryCount cfg <s minMaxRetryCount \<or> maxMaxRetryCount <s MaxRetryCount cfg then
              Some (Fmt ''max retry count must be within [%d, %d], got %d''
                [ArgInt 0, ArgInt 2147483647, ArgInt (sint (MaxRetryCount cfg))])
            else if BaseBackoff cfg <s minBackoffCfg \<or> maxBackoffGuard <s BaseBackoff cfg then
              Some (Fmt ''base backoff must be within [%s, %s], got %s''
                [ArgDur minBackoffCfg, ArgDur maxBackoffGuard, ArgDur (BaseBackoff cfg)])
            else if MaxBackoff cfg <s minBackoffCfg \<or> maxBackoffGuard <s MaxBackoff cfg then
              Some (Fmt ''max backoff must be within [%s, %s], got %s''
                [ArgDur minBackoffCfg, ArgDur maxBackoffGuard, ArgDur (MaxBackoff cfg)])
            else if MaxBackoff cfg <s BaseBackoff cfg then
              Some (Fmt ''max backoff %s must be greater than or equal to base backoff %s''
                [ArgDur (MaxBackoff cfg), ArgDur (BaseBackoff cfg)])
            else None))"

definition zero_sched :: sched_config where
  "zero_sched = \<lparr>TargetQueueARN = [], ExecutionRoleARN = [], DLQQueueURL = [],
     MaxRetryCount = 0, BaseBackoff = 0, MaxBackoff = 0\<rparr>"

text \<open>The sub-options applied in order to a zero configuration, then the default base backoff.\<close>

definition assembleSched :: "sched_option option list \<Rightarrow> sched_config" where
  "assembleSched opts = (let cfg = applySubs applySched opts zero_sched in
     if BaseBackoff cfg = 0 then cfg\<lparr>BaseBackoff := defaultBaseBackoff\<rparr> else cfg)"

fun applyRoute :: "route_option \<Rightarrow> route \<Rightarrow> err + route" where
  "applyRoute (WithWorkerPoolSize n) r =
     (if n <s 1 then Inl (Fmt ''worker pool size must be greater than zero, got %d'' [ArgInt (sint n)])
      else Inr (r\<lparr>workerPoolSize := n\<rparr>))"
| "applyRoute (WithMaxMessages n) r =
     (if n <s 1 \<or> maxReceiveMessages <s n then
        Inl (Fmt ''max messages must be between 1 and %d, got %d'' [ArgInt 10, ArgInt (sint n)])
      else Inr (r\<lparr>maxMessages := n\<rparr>))"
| "applyRoute (WithWaitTimeSeconds n) r =
     (if n <s 0 \<or> maxWaitTimeSeconds <s n then
        Inl (Fmt ''wait time seconds must be between 0 and %d, got %d'' [ArgInt 20, ArgInt (sint n)])
      else Inr (r\<lparr>waitTimeSeconds := n\<rparr>))"
| "applyRoute (WithVisibilityTimeout s) r = Inr (r\<lparr>visibilityTimeout := s\<rparr>)"
| "applyRoute (WithExtensionLimit n) r =
     (if n <s 0 then Inl (Fmt ''extension limit must not be negative, got %d'' [ArgInt (sint n)])
      else Inr (r\<lparr>extensionLimit := n\<rparr>))"
| "applyRoute (WithRunMode m) r =
     (if \<not> modeValid m then Inl (Fmt ''unknown run mode %d'' [ArgInt (sint m)])
      else Inr (r\<lparr>runMode := m\<rparr>))"
| "applyRoute (WithCustomGroupFields fs) r =
     Inr (r\<lparr>customGroupFields := filter (\<lambda>f. f \<noteq> []) fs\<rparr>)"
| "applyRoute (WithMiddleware mws) r =
     Inr (r\<lparr>middlewares := middlewares r @ List.map_filter (\<lambda>m. m) mws\<rparr>)"
| "applyRoute (WithDLQ n opts) r =
     (if n <s 1 then Inl (Fmt ''dlq max receive count must be greater than zero, got %d'' [ArgInt (sint n)])
      else if scheduledRetry r \<noteq> None then
        Inl (wrapS ErrScheduledRetryConfig
          (Fmt ''observe-only WithDLQ conflicts with the Scheduled Retry model DLQ destination'' []))
      else Inr (r\<lparr>dlqConfig := Some (applySubs applyDLQ opts
                    \<lparr>OnDLQ = None, MaxReceiveCount = n\<rparr>)\<rparr>))"
| "applyRoute WithDeleteBatch r = Inr (r\<lparr>deleteBatch := True\<rparr>)"
| "applyRoute (WithRetryModel m) r =
     (if m \<noteq> VisibilityRetryModel \<and> m \<noteq> ScheduledRetryModel then
        Inl (wrapS ErrScheduledRetryConfig (Fmt ''unknown retry model %d'' [ArgInt (sint m)]))
      else Inr (r\<lparr>retryModel := m\<rparr>))"
| "applyRoute (WithScheduledRetry opts) r =
     (let cfg = assembleSched opts in
      case validateScheduledRetry r cfg of
        Some e \<Rightarrow> Inl (wrapS ErrScheduledRetryConfig e)
      | None \<Rightarrow> Inr (r\<lparr>retryModel := ScheduledRetryModel, scheduledRetry := Some cfg\<rparr>))"

section \<open>New\<close>

definition defaultRoute :: "string \<Rightarrow> handler \<Rightarrow> route" where
  "defaultRoute q h =
     \<lparr>handler = h, dlqConfig = None, scheduledRetry = None, queueName = q, middlewares = [],
      customGroupFields = [], workerPoolSize = 5, extensionLimit = 2, runMode = Parallel,
      retryModel = VisibilityRetryModel, maxMessages = 10, waitTimeSeconds = 10,
      visibilityTimeout = 30, deleteBatch = False\<rparr>"

definition minVisibilityTimeout :: go_int32 where "minVisibilityTimeout = 11"

definition clampVisibility :: "route \<Rightarrow> route" where
  "clampVisibility r = (if visibilityTimeout r \<le>s minVisibilityTimeout
     then r\<lparr>visibilityTimeout := minVisibilityTimeout\<rparr> else r)"

definition NewRoute :: "string \<Rightarrow> handler option \<Rightarrow> route_option option list \<Rightarrow> err + route" where
  "NewRoute q h opts =
     (if q = [] then Inl (Sentinel ErrEmptyQueueName)
      else case h of
        None \<Rightarrow> Inl (Sentinel ErrNoHandler)
      | Some h \<Rightarrow> (case applyOptions applyRoute opts (defaultRoute q h) of
          Inl e \<Rightarrow> Inl e
        | Inr r \<Rightarrow> Inr (clampVisibility r)))"

section \<open>The invariant of a route\<close>

definition valid_sched :: "sched_config \<Rightarrow> bool" where
  "valid_sched cfg \<longleftrightarrow> TargetQueueARN cfg \<noteq> [] \<and> ExecutionRoleARN cfg \<noteq> [] \<and> DLQQueueURL cfg \<noteq> [] \<and>
     0 \<le> sint (MaxRetryCount cfg) \<and> sint (MaxRetryCount cfg) \<le> 2147483647 \<and>
     1000000 \<le> sint (BaseBackoff cfg) \<and> sint (BaseBackoff cfg) \<le> sint (MaxBackoff cfg) \<and>
     sint (MaxBackoff cfg) \<le> 86400000000000"

definition route_inv :: "route \<Rightarrow> bool" where
  "route_inv r \<longleftrightarrow>
     1 \<le> sint (workerPoolSize r) \<and>
     1 \<le> sint (maxMessages r) \<and> sint (maxMessages r) \<le> 10 \<and>
     0 \<le> sint (waitTimeSeconds r) \<and> sint (waitTimeSeconds r) \<le> 20 \<and>
     0 \<le> sint (extensionLimit r) \<and> modeValid (runMode r) \<and>
     (retryModel r = VisibilityRetryModel \<or> retryModel r = ScheduledRetryModel) \<and>
     (\<forall>f \<in> set (customGroupFields r). f \<noteq> []) \<and>
     (case dlqConfig r of None \<Rightarrow> True | Some c \<Rightarrow> 1 \<le> sint (MaxReceiveCount c)) \<and>
     (case scheduledRetry r of None \<Rightarrow> True | Some c \<Rightarrow> valid_sched c) \<and>
     \<not> (dlqConfig r \<noteq> None \<and> scheduledRetry r \<noteq> None)"

lemma MaxReceiveCount_subs [simp]:
  "MaxReceiveCount (applySubs applyDLQ opts c) = MaxReceiveCount c"
proof (induction applyDLQ opts c rule: applySubs.induct)
  case (3 opt os c)
  then show ?case by (cases opt; cases "case opt of WithOnDLQ f \<Rightarrow> f") simp_all
qed simp_all

lemma sint_bounds [simp]:
  "sint minMaxRetryCount = 0" "sint maxMaxRetryCount = 2147483647"
  "sint minBackoffCfg = 1000000" "sint maxBackoffGuard = 86400000000000"
  "sint maxReceiveMessages = 10" "sint maxWaitTimeSeconds = 20" "sint minVisibilityTimeout = 11"
  by (simp_all add: router_bounds minVisibilityTimeout_def)

lemma validate_iff:
  "validateScheduledRetry r cfg = None \<longleftrightarrow> dlqConfig r = None \<and> valid_sched cfg"
  unfolding validateScheduledRetry_def valid_sched_def go_sint Let_def sint_bounds
  by (simp only: go_simps append_is_Nil_conv not_not) auto

lemma applySchedRetry_Inr:
  "applyRoute (WithScheduledRetry opts) r = Inr r' \<longleftrightarrow>
     dlqConfig r = None \<and> valid_sched (assembleSched opts) \<and>
     r' = r\<lparr>retryModel := ScheduledRetryModel, scheduledRetry := Some (assembleSched opts)\<rparr>"
  unfolding validate_iff [symmetric] conj_assoc [symmetric] applyRoute.simps Let_def
  by (cases "validateScheduledRetry r (assembleSched opts)") auto

lemma applyRoute_inv: "route_inv r \<Longrightarrow> applyRoute opt r = Inr r' \<Longrightarrow> route_inv r'"
proof (cases opt)
  case (WithScheduledRetry opts)
  assume "route_inv r" "applyRoute opt r = Inr r'"
  then show ?thesis
    unfolding WithScheduledRetry applySchedRetry_Inr by (simp add: route_inv_def)
qed (simp_all only: applyRoute.simps go_simps go_sint sint_bounds sum.inject,
  (simp add: route_inv_def, (elim conjE, hypsubst, simp)?)+)

interpretation ro: validated_options applyRoute route_inv
  by unfold_locales (rule applyRoute_inv)

lemma defaultRoute_inv: "route_inv (defaultRoute q h)"
  by (simp add: route_inv_def defaultRoute_def modeValid_def route_consts)

lemma clamp_frame [simp]:
  "queueName (clampVisibility r) = queueName r" "handler (clampVisibility r) = handler r"
  by (simp_all add: clampVisibility_def)

lemma clamp_inv [simp]: "route_inv (clampVisibility r) = route_inv r"
  by (simp add: clampVisibility_def route_inv_def)

lemma NewRoute_Inr:
  "NewRoute q h opts = Inr r \<longleftrightarrow> q \<noteq> [] \<and> (\<exists>h' r'. h = Some h' \<and>
     applyOptions applyRoute opts (defaultRoute q h') = Inr r' \<and> r = clampVisibility r')"
  by (auto simp: NewRoute_def split: option.splits sum.splits)

text \<open>No option changes the queue name or the handler, and a set DLQ or retry configuration stays.\<close>

lemma applyRoute_frame:
  "applyRoute opt r = Inr r' \<Longrightarrow>
   queueName r' = queueName r \<and> handler r' = handler r \<and>
   (dlqConfig r \<noteq> None \<longrightarrow> dlqConfig r' \<noteq> None) \<and>
   (scheduledRetry r \<noteq> None \<longrightarrow> scheduledRetry r' \<noteq> None) \<and>
   visibilityTimeout r' = (case opt of WithVisibilityTimeout s \<Rightarrow> s | _ \<Rightarrow> visibilityTimeout r)"
proof (cases opt)
  case (WithScheduledRetry opts)
  assume "applyRoute opt r = Inr r'"
  then show ?thesis
    unfolding WithScheduledRetry applySchedRetry_Inr by simp
qed (simp_all only: applyRoute.simps go_simps sum.inject,
  ((elim conjE)?, hypsubst, simp)+)

interpretation rname: validated_options applyRoute "\<lambda>r. queueName r = q \<and> handler r = h" for q h
  by unfold_locales (simp add: applyRoute_frame)

interpretation rdlq: validated_options applyRoute "\<lambda>r. dlqConfig r \<noteq> None"
  by unfold_locales (use applyRoute_frame in blast)

interpretation rsched: validated_options applyRoute "\<lambda>r. scheduledRetry r \<noteq> None"
  by unfold_locales (use applyRoute_frame in blast)

lemma dlq_after_sched:
  "scheduledRetry r \<noteq> None \<Longrightarrow> Some (WithDLQ n ds) \<in> set opts \<Longrightarrow>
   \<exists>e. applyOptions applyRoute opts r = Inl e"
  by (rule rsched.options_refused [of "WithDLQ n ds"]) (simp_all add: go_simps)

lemma sched_after_dlq:
  assumes "dlqConfig r \<noteq> None" "Some (WithScheduledRetry ss) \<in> set opts"
  shows "\<exists>e. applyOptions applyRoute opts r = Inl e"
proof (rule rdlq.options_refused [of "WithScheduledRetry ss", OF _ assms(2,1)])
  fix r :: route assume "dlqConfig r \<noteq> None"
  then have "\<nexists>r'. applyRoute (WithScheduledRetry ss) r = Inr r'"
    by (simp only: applySchedRetry_Inr) simp
  then show "\<exists>e. applyRoute (WithScheduledRetry ss) r = Inl e"
    by (cases "applyRoute (WithScheduledRetry ss) r") blast+
qed

lemma dlq_sched_conflict:
  "Some (WithDLQ n ds) \<in> set opts \<Longrightarrow> Some (WithScheduledRetry ss) \<in> set opts \<Longrightarrow>
   \<exists>e. applyOptions applyRoute opts r = Inl e"
proof (induction opts arbitrary: r)
  case (Cons x xs)
  show ?case
  proof (cases x)
    case None
    with Cons show ?thesis by simp
  next
    case (Some opt)
    show ?thesis
    proof (cases "applyRoute opt r")
      case (Inl e)
      with Some show ?thesis by simp
    next
      case (Inr r')
      consider "opt = WithDLQ n ds" | "opt = WithScheduledRetry ss"
        | "Some (WithDLQ n ds) \<in> set xs" "Some (WithScheduledRetry ss) \<in> set xs"
        using Cons.prems Some by auto
      then have "\<exists>e. applyOptions applyRoute xs r' = Inl e"
      proof cases
        case 1
        with Inr have "dlqConfig r' \<noteq> None" by (simp only: applyRoute.simps go_simps) auto
        moreover have "Some (WithScheduledRetry ss) \<in> set xs" using Cons.prems 1 Some by simp
        ultimately show ?thesis by (rule sched_after_dlq)
      next
        case 2
        with Inr have "scheduledRetry r' \<noteq> None" by (simp only: applySchedRetry_Inr) simp
        moreover have "Some (WithDLQ n ds) \<in> set xs" using Cons.prems 2 Some by simp
        ultimately show ?thesis by (rule dlq_after_sched)
      next
        case 3
        then show ?thesis by (rule Cons.IH)
      qed
      with Some Inr show ?thesis by auto
    qed
  qed
qed simp

section \<open>Properties\<close>

text \<open>
  Every route \<open>New\<close> returns is well formed: at least one worker, a receive batch within
  [1, 10], a wait within [0, 20] seconds, a visibility timeout of at least 11 seconds, a
  non-negative extension limit, a named run mode and retry model, no empty custom group field, a
  positive DLQ receive count, a scheduled-retry configuration within its documented bounds, and
  never both DLQ observability and a scheduled-retry configuration; its queue name and handler
  are the arguments.
\<close>

theorem new_route_well_formed:
  assumes "NewRoute q h opts = Inr r"
  shows "route_inv r \<and> 11 \<le> sint (visibilityTimeout r) \<and> queueName r = q \<and> q \<noteq> [] \<and>
    h = Some (handler r)"
proof -
  obtain h' r' where *: "q \<noteq> []" "h = Some h'"
      "applyOptions applyRoute opts (defaultRoute q h') = Inr r'" "r = clampVisibility r'"
    using assms by (auto simp: NewRoute_Inr)
  have "route_inv r'" using ro.options_inv [OF defaultRoute_inv *(3)] .
  moreover have "queueName r' = q \<and> handler r' = h'"
    using rname.options_inv [OF _ *(3), where q = q and h = h'] by (simp add: defaultRoute_def)
  moreover have "11 \<le> sint (visibilityTimeout r)"
    by (simp add: *(4) clampVisibility_def go_sint)
  ultimately show ?thesis
    using * by simp
qed

definition exampleHandler :: handler where
  "exampleHandler c s = (HRet None, s)"

theorem new_route_well_formed_witness:
  "\<exists>r. NewRoute ''orders'' (Some exampleHandler)
      [Some (WithWorkerPoolSize 8), None, Some (WithVisibilityTimeout 3)] = Inr r \<and> route_inv r"
proof -
  have "\<exists>r. NewRoute ''orders'' (Some exampleHandler)
      [Some (WithWorkerPoolSize 8), None, Some (WithVisibilityTimeout 3)] = Inr r"
    by (simp add: NewRoute_def go_sint)
  then show ?thesis using new_route_well_formed by blast
qed

text \<open>
  How \<open>New\<close> fails: an empty queue name gives \<open>ErrEmptyQueueName\<close>, a nil handler
  \<open>ErrNoHandler\<close>, and any other failure is an option's error wrapped so that it matches
  \<open>ErrInvalidOption\<close>; with no options it never fails on a name and a handler.
\<close>

theorem new_route_errors:
  "NewRoute [] h opts = Inl (Sentinel ErrEmptyQueueName) \<and>
   (q \<noteq> [] \<longrightarrow> NewRoute q None opts = Inl (Sentinel ErrNoHandler)) \<and>
   (q \<noteq> [] \<longrightarrow> (\<forall>e. NewRoute q (Some f) opts = Inl e \<longrightarrow> errIs e ErrInvalidOption)) \<and>
   (q \<noteq> [] \<longrightarrow> (\<exists>r. NewRoute q (Some f) [] = Inr r))"
  using applyOptions_error [of applyRoute opts "defaultRoute q f"]
  by (auto simp: NewRoute_def split: sum.splits)

theorem new_route_errors_witness:
  "NewRoute ''q'' None [] = Inl (Sentinel ErrNoHandler)"
  using new_route_errors [where q = "''q''"] by blast

text \<open>The visibility timeout the options ask for: the last one, or \<open>t\<close>.\<close>

fun requestedTimeout :: "go_int32 \<Rightarrow> route_option option list \<Rightarrow> go_int32" where
  "requestedTimeout t [] = t"
| "requestedTimeout t (Some (WithVisibilityTimeout s) # os) = requestedTimeout s os"
| "requestedTimeout t (opt # os) = requestedTimeout t os"

lemma requestedTimeout_step:
  "requestedTimeout t (Some opt # os) =
     requestedTimeout (case opt of WithVisibilityTimeout s \<Rightarrow> s | _ \<Rightarrow> t) os"
  by (cases opt) simp_all

lemma options_timeout:
  "applyOptions applyRoute opts r = Inr r' \<Longrightarrow>
   visibilityTimeout r' = requestedTimeout (visibilityTimeout r) opts"
proof (induction opts arbitrary: r)
  case (Cons x xs)
  show ?case
  proof (cases x)
    case None
    with Cons show ?thesis by simp
  next
    case (Some opt)
    with Cons.prems obtain r1 where "applyRoute opt r = Inr r1"
        "applyOptions applyRoute xs r1 = Inr r'"
      by (auto split: sum.splits)
    then show ?thesis
      unfolding Some requestedTimeout_step using applyRoute_frame [of opt r r1] Cons.IH by simp
  qed
qed simp

text \<open>
  The visibility timeout of a new route is the last one an option set (30 by default),
  raised to 11 when it is 11 or less, whatever else the options do.
\<close>

theorem new_route_visibility_timeout:
  assumes "NewRoute q h opts = Inr r"
  shows "sint (visibilityTimeout r) = max 11 (sint (requestedTimeout 30 opts))"
proof -
  obtain h' r' where "applyOptions applyRoute opts (defaultRoute q h') = Inr r'"
      and r: "r = clampVisibility r'"
    using assms by (auto simp: NewRoute_Inr)
  then have "visibilityTimeout r' = requestedTimeout 30 opts"
    using options_timeout by (fastforce simp: defaultRoute_def)
  then show ?thesis
    by (simp add: r clampVisibility_def go_sint)
qed

theorem new_route_visibility_timeout_witness:
  "\<exists>r. NewRoute ''orders'' (Some exampleHandler) [Some (WithVisibilityTimeout 45)] = Inr r \<and>
     sint (visibilityTimeout r) = 45"
proof -
  have "\<exists>r. NewRoute ''orders'' (Some exampleHandler) [Some (WithVisibilityTimeout 45)] = Inr r"
    by (simp add: NewRoute_def)
  then show ?thesis using new_route_visibility_timeout by fastforce
qed

text \<open>
  Observe-only DLQ and scheduled retry exclude each other in any order: an option list that
  has both \<open>WithDLQ\<close> and \<open>WithScheduledRetry\<close>, with any arguments, at any positions and among
  any other options, is refused.
\<close>

theorem dlq_and_scheduled_retry_conflict:
  assumes "Some (WithDLQ n ds) \<in> set opts" "Some (WithScheduledRetry ss) \<in> set opts"
  shows "\<exists>e. NewRoute q h opts = Inl e"
proof (cases "q = [] \<or> h = None")
  case True
  then show ?thesis by (auto simp: NewRoute_def)
next
  case False
  then obtain h' where "q \<noteq> []" "h = Some h'" by auto
  moreover obtain e where "applyOptions applyRoute opts (defaultRoute q h') = Inl e"
    using dlq_sched_conflict [OF assms] by blast
  ultimately show ?thesis by (simp add: NewRoute_def)
qed

theorem dlq_and_scheduled_retry_conflict_witness:
  "\<exists>e. NewRoute ''orders'' (Some exampleHandler)
     [Some (WithDLQ 3 []), Some WithDeleteBatch, Some (WithScheduledRetry [])] = Inl e"
  by (rule dlq_and_scheduled_retry_conflict [of 3 "[]" _ "[]"]) simp_all

text \<open>
  \<open>WithScheduledRetry\<close> is accepted exactly for a route without DLQ observability and a
  configuration inside the documented bounds (identity and DLQ destination present, retry
  maximum in [0, 2147483647], 1 ms up to 24 h for both delays, maximum at least the base), and
  then selects the Scheduled model; otherwise the error matches \<open>ErrScheduledRetryConfig\<close>.
\<close>

theorem scheduled_retry_validation:
  "(case applyRoute (WithScheduledRetry opts) r of
      Inr r' \<Rightarrow> dlqConfig r = None \<and> valid_sched (assembleSched opts) \<and>
        r' = r\<lparr>retryModel := ScheduledRetryModel, scheduledRetry := Some (assembleSched opts)\<rparr>
    | Inl e \<Rightarrow> \<not> (dlqConfig r = None \<and> valid_sched (assembleSched opts)) \<and>
        errIs e ErrScheduledRetryConfig)"
proof (cases "validateScheduledRetry r (assembleSched opts)")
  case None
  then show ?thesis using validate_iff [of r "assembleSched opts"] by (simp add: Let_def)
next
  case (Some e)
  then show ?thesis using validate_iff [of r "assembleSched opts"] by (simp add: Let_def)
qed

text \<open>
  The Scheduled model can be selected without its configuration: for every queue name and
  handler, \<open>WithRetryModel(ScheduledRetryModel)\<close> alone is accepted and the route it builds has
  no scheduled-retry configuration, so nothing of it was validated.
\<close>

theorem scheduled_model_without_config:
  "q \<noteq> [] \<longrightarrow> (\<exists>r. NewRoute q (Some h) [Some (WithRetryModel ScheduledRetryModel)] = Inr r \<and>
     retryModel r = ScheduledRetryModel \<and> scheduledRetry r = None)"
  by (simp add: NewRoute_def clampVisibility_def defaultRoute_def)

theorem scheduled_model_without_config_witness:
  "\<exists>r. NewRoute ''q'' (Some exampleHandler) [Some (WithRetryModel ScheduledRetryModel)] = Inr r \<and>
     scheduledRetry r = None"
  using scheduled_model_without_config [of "''q''" exampleHandler] by auto

end
