(* ===== verification/Barrier.thy ===== *)
theory Barrier
  imports Go_Base
begin

text \<open>
  The group barrier of a received batch (\<open>src/consumer/barrier.go\<close>): the set of FIFO groups
  that failed in the batch. A nil \<open>*groupBarrier\<close> is \<open>None\<close>; its methods are nil-safe. The
  mutex makes each method one atomic step, so the model has no lock.

  The locale \<open>group_barrier\<close> is what the dispatcher and the worker pool use of it; the
  dispatcher keeps the barriers of the batches in a store, since the messages of a batch share
  one by pointer.
\<close>

locale group_barrier =
  fixes live :: "'b \<Rightarrow> bool"
    and fl :: "'b \<Rightarrow> string \<Rightarrow> 'b"
    and fd :: "'b \<Rightarrow> string \<Rightarrow> bool"
  assumes fl_live [simp]: "live (fl b k) = live b"
    and fd_fl: "fd (fl b k) k' \<longleftrightarrow> fd b k' \<or> live b \<and> k' = k"
    and dead_fd: "\<not> live b \<Longrightarrow> \<not> fd b k"
begin

lemma fold_live [simp]: "live (foldl fl b ks) = live b"
  by (induction ks arbitrary: b) simp_all

text \<open>Whatever was recorded, in whatever order, is what is reported.\<close>

lemma fd_fold: "fd (foldl fl b ks) k \<longleftrightarrow> fd b k \<or> live b \<and> k \<in> set ks"
  by (induction ks arbitrary: b) (auto simp: fd_fl)

lemma fd_mono: "fd b k \<Longrightarrow> fd (fl b k') k"
  by (simp add: fd_fl)

lemma fd_order: "set ks = set ks' \<Longrightarrow> fd (foldl fl b ks) k = fd (foldl fl b ks') k"
  by (simp add: fd_fold)

end

type_synonym groupBarrier = "string set option"

definition newGroupBarrier :: groupBarrier where
  "newGroupBarrier = Some {}"

definition fail :: "groupBarrier \<Rightarrow> string \<Rightarrow> groupBarrier" where
  "fail b key = (case b of None \<Rightarrow> None | Some poisoned \<Rightarrow> Some (insert key poisoned))"

definition failed :: "groupBarrier \<Rightarrow> string \<Rightarrow> bool" where
  "failed b key = (case b of None \<Rightarrow> False | Some poisoned \<Rightarrow> key \<in> poisoned)"

interpretation bar: group_barrier "\<lambda>b. b \<noteq> None" fail failed
  by unfold_locales (auto simp: fail_def failed_def split: option.splits)

lemma failed_new [simp]: "\<not> failed newGroupBarrier k"
  by (simp add: failed_def newGroupBarrier_def)

lemma failed_None [simp]: "\<not> failed None k" "fail None k = None"
  by (simp_all add: failed_def fail_def)

section \<open>Property\<close>

text \<open>
  A barrier reports exactly the groups recorded on it: after any sequence of \<open>fail\<close> calls on
  a fresh barrier, in any order and with repetitions, \<open>failed\<close> holds of a key exactly when it is
  among them; a nil barrier records and reports nothing.
\<close>

theorem barrier_reports_failed_groups:
  "(failed (foldl fail newGroupBarrier ks) k \<longleftrightarrow> k \<in> set ks) \<and>
   foldl fail None ks = None \<and> \<not> failed (foldl fail None ks) k"
proof -
  have "foldl fail None ks = None" by (induction ks) simp_all
  then show ?thesis
    using bar.fd_fold [of newGroupBarrier ks k] by (simp add: newGroupBarrier_def failed_def)
qed

end
