(* ===== verification/Backoff.thy ===== *)
theory Backoff
  imports Go_Base
begin

text \<open>
  The retry delay of the Scheduled Retry model (\<open>src/consumer/backoff.go\<close>), on 64-bit
  durations with Go's wrapping arithmetic, and its specification over the integers: the
  exponential \<open>base * 2 ^ (attempt - 1)\<close> clamped to the range from one millisecond to the
  maximum. The refinement lemma shows that no step of the loop overflows.
\<close>

definition minBackoff :: duration where
  "minBackoff = millisecond"

text \<open>
  The loop \<^verbatim>\<open>for i := 1; i < attempt; i++\<close> with \<open>n\<close> iterations to go: \<open>Inl\<close> is the early
  return, \<open>Inr\<close> the delay after the last iteration.
\<close>

fun backoffLoop :: "nat \<Rightarrow> duration \<Rightarrow> duration \<Rightarrow> duration + duration" where
  "backoffLoop 0 delay maxDelay = Inr delay"
| "backoffLoop (Suc n) delay maxDelay =
     (if go_div maxDelay 2 <s delay then Inl maxDelay
      else backoffLoop n (delay * 2) maxDelay)"

definition computeBackoff :: "go_int \<Rightarrow> duration \<Rightarrow> duration \<Rightarrow> duration" where
  "computeBackoff attempt base maxDelay =
     (let maxDelay = (if maxDelay <s minBackoff then minBackoff else maxDelay);
          base = (if base <s minBackoff then minBackoff else base);
          base = (if maxDelay <s base then maxDelay else base);
          attempt = (if attempt <s 1 then 1 else attempt)
      in case backoffLoop (nat (sint attempt - 1)) base maxDelay of
           Inl d \<Rightarrow> d
         | Inr delay \<Rightarrow> if maxDelay <s delay then maxDelay
                       else if delay <s minBackoff then minBackoff else delay)"

text \<open>
  \<open>now.Add(backoff).Truncate(time.Second)\<close>; a time is its nanoseconds since the zero time.
\<close>

definition scheduleAt :: "int \<Rightarrow> duration \<Rightarrow> int" where
  "scheduleAt now backoff = (let t = now + sint backoff in t - t mod 1000000000)"

section \<open>Specification\<close>

definition backoffSpec :: "int \<Rightarrow> int \<Rightarrow> int \<Rightarrow> int" where
  "backoffSpec attempt base maxDelay =
     (let m = max 1000000 maxDelay; b = min m (max 1000000 base)
      in min m (b * 2 ^ nat (max 1 attempt - 1)))"

lemma sint_minBackoff [simp]: "sint minBackoff = 1000000"
  by (simp add: minBackoff_def millisecond_def)

lemma double_step:
  assumes "1 \<le> sint d" "sint d \<le> sint m" "\<not> go_div m 2 <s d"
  shows "sint (d * 2) = 2 * sint d" "2 * sint d \<le> sint m"
proof -
  have "sint (go_div m 2) = sint m div 2" using assms by (simp add: sint_go_div)
  with assms(3) have le: "2 * sint d \<le> sint m" by (simp add: go_sint)
  then show "2 * sint d \<le> sint m" .
  have "sint d * 2 < 2 ^ 63" using le sint64_range [of m] by linarith
  then show "sint (d * 2) = 2 * sint d" using assms(1) by (subst sint64_mult) simp_all
qed

lemma backoffLoop_spec:
  assumes "1 \<le> sint d" "sint d \<le> sint m"
  shows "case backoffLoop n d m of
      Inl r \<Rightarrow> r = m \<and> sint m < sint d * 2 ^ n
    | Inr r \<Rightarrow> sint r = sint d * 2 ^ n \<and> sint d * 2 ^ n \<le> sint m"
  using assms
proof (induction n arbitrary: d)
  case (Suc n)
  show ?case
  proof (cases "go_div m 2 <s d")
    case True
    have "sint (go_div m 2) = sint m div 2" using Suc.prems by (simp add: sint_go_div)
    with True have "sint m < 2 * sint d" by (simp add: go_sint)
    moreover have "2 * sint d \<le> sint d * 2 ^ Suc n"
      using Suc.prems(1) by simp
    ultimately show ?thesis using True by simp
  next
    case False
    note step = double_step [OF Suc.prems False]
    have "1 \<le> sint (d * 2)" "sint (d * 2) \<le> sint m" using step Suc.prems by simp_all
    from Suc.IH [OF this] show ?thesis
      using False step by (simp add: mult.commute mult.left_commute split: sum.split_asm)
  qed
qed simp

lemma computeBackoff_spec:
  "sint (computeBackoff attempt base maxDelay) = backoffSpec (sint attempt) (sint base) (sint maxDelay)"
proof -
  define m where "m = (if maxDelay <s minBackoff then minBackoff else maxDelay)"
  define b0 where "b0 = (if base <s minBackoff then minBackoff else base)"
  define b where "b = (if m <s b0 then m else b0)"
  define a where "a = (if attempt <s 1 then 1 else attempt)"
  have sm: "sint m = max 1000000 (sint maxDelay)" by (simp add: m_def go_sint max_def)
  have sb0: "sint b0 = max 1000000 (sint base)" by (simp add: b0_def go_sint max_def)
  have sb: "sint b = min (sint m) (sint b0)" by (simp add: b_def go_sint min_def)
  have sa: "sint a = max 1 (sint attempt)" by (simp add: a_def go_sint max_def)
  have pre: "1 \<le> sint b" "sint b \<le> sint m" "1000000 \<le> sint b" by (auto simp: sb sm sb0)
  define p where "p = sint b * 2 ^ nat (sint a - 1)"
  have "sint b * 1 \<le> p" unfolding p_def by (rule mult_left_mono) (use pre in simp_all)
  then have p: "1000000 \<le> p" using pre(3) by linarith
  have "computeBackoff attempt base maxDelay =
      (case backoffLoop (nat (sint a - 1)) b m of Inl d \<Rightarrow> d
       | Inr d \<Rightarrow> if m <s d then m else if d <s minBackoff then minBackoff else d)"
    by (simp only: computeBackoff_def Let_def m_def b0_def b_def a_def)
  also have "sint \<dots> = min (sint m) p"
    using backoffLoop_spec [OF pre(1,2), of "nat (sint a - 1)", folded p_def] p
    by (auto simp: go_sint split: sum.splits)
  finally show ?thesis
    unfolding p_def by (simp only: backoffSpec_def Let_def sb sm sb0 sa)
qed

lemma backoffSpec_mono:
  assumes "a \<le> a'"
  shows "backoffSpec a b m \<le> backoffSpec a' b m"
proof -
  have "nat (max 1 a - 1) \<le> nat (max 1 a' - 1)"
    by (intro nat_mono diff_right_mono max.mono assms order_refl)
  then have "(2::int) ^ nat (max 1 a - 1) \<le> 2 ^ nat (max 1 a' - 1)"
    by (rule power_increasing) simp
  then have "min (max 1000000 m) (max 1000000 b) * 2 ^ nat (max 1 a - 1)
      \<le> min (max 1000000 m) (max 1000000 b) * 2 ^ nat (max 1 a' - 1)"
    by (rule mult_left_mono) (simp add: min_def max_def)
  then show ?thesis
    unfolding backoffSpec_def Let_def by (intro min.mono order_refl)
qed

lemma backoffSpec_range:
  "1000000 \<le> backoffSpec a b m" "backoffSpec a b m \<le> max 1000000 m"
proof -
  define c where "c = min (max 1000000 m) (max 1000000 b)"
  have c: "1000000 \<le> c" by (simp add: c_def)
  have "c * 1 \<le> c * 2 ^ nat (max 1 a - 1)"
    by (rule mult_left_mono) (use c in simp_all)
  then have "1000000 \<le> c * 2 ^ nat (max 1 a - 1)" using c by linarith
  then show "1000000 \<le> backoffSpec a b m"
    unfolding backoffSpec_def Let_def c_def [symmetric] by (intro min.boundedI) simp_all
  show "backoffSpec a b m \<le> max 1000000 m"
    unfolding backoffSpec_def Let_def by (rule min.cobounded1)
qed

section \<open>Properties\<close>

text \<open>
  C29: The backoff delay is the clamped exponential, for every 64-bit input: read as integers, it
  is \<open>min m (b * 2 ^ (attempt - 1))\<close> with \<open>m\<close> the maximum raised to 1 ms and \<open>b\<close> the base
  raised to 1 ms and lowered to \<open>m\<close>, an attempt below one counting as one. So no doubling ever
  overflows, however large the attempt.
\<close>

theorem backoff_is_clamped_exponential:
  "sint (computeBackoff attempt base maxDelay) =
     (let m = max 1000000 (sint maxDelay); b = min m (max 1000000 (sint base))
      in min m (b * 2 ^ nat (max 1 (sint attempt) - 1)))"
  by (simp only: computeBackoff_spec backoffSpec_def)

text \<open>
  The delay stays within one millisecond and the (raised) maximum, and never shrinks as the
  attempt number grows.
\<close>

theorem backoff_bounded_and_monotone:
  "1000000 \<le> sint (computeBackoff a base maxDelay) \<and>
   sint (computeBackoff a base maxDelay) \<le> max 1000000 (sint maxDelay) \<and>
   (sint a \<le> sint a' \<longrightarrow>
      sint (computeBackoff a base maxDelay) \<le> sint (computeBackoff a' base maxDelay))"
  by (simp add: computeBackoff_spec backoffSpec_range backoffSpec_mono)

theorem backoff_bounded_and_monotone_witness:
  "sint (computeBackoff 3 1000000000 900000000000) \<le> sint (computeBackoff 7 1000000000 900000000000)"
  using backoff_bounded_and_monotone [of 3 1000000000 900000000000 7] by simp

text \<open>
  The fire time of a retry is a whole second, not after \<open>now + backoff\<close> and less than one
  second before it.
\<close>

theorem schedule_time_within_a_second:
  "scheduleAt now b mod 1000000000 = 0 \<and> scheduleAt now b \<le> now + sint b \<and>
   now + sint b < scheduleAt now b + 1000000000"
proof -
  let ?t = "now + sint b"
  have "0 \<le> ?t mod 1000000000" "?t mod 1000000000 < 1000000000" by simp_all
  then show ?thesis
    by (simp add: scheduleAt_def Let_def mod_diff_left_eq [symmetric])
qed

end
