(* ===== verification/Idgen.thy ===== *)
theory Idgen
  imports Clients
begin

text \<open>
  The package \<open>idgen\<close>: the key-based, composite, composite-with-suffix and random generators of
  message group and deduplication ids. A generator is a function of the trace (for the ones that
  read a random source) and of the fields map. SHA-256 is a parameter (\<open>sum256\<close>, the digest
  bytes of a text); the random source is a parameter too: the 16 bytes \<open>crypto/rand\<close> fills, or
  the draw behind \<open>rand.IntN\<close>.

  The lemmas: the ids do not depend on the iteration order of the fields map (the locale
  \<open>order_free_generator\<close>, interpreted for both deterministic generators), when generation fails,
  and the shape of the random ids.
\<close>

type_synonym generator = "trace \<Rightarrow> string gomap \<Rightarrow> err + string"

section \<open>Configuration\<close>

type_synonym hash_algorithm = go_int

definition SHA256 :: hash_algorithm where "SHA256 = 0"
definition FNV64 :: hash_algorithm where "FNV64 = 1"

record generator_config =
  separator :: string
  gfields :: "string list"
  algorithm :: hash_algorithm
  suffixMin :: go_int
  suffixMax :: go_int

definition newConfig :: generator_config where
  "newConfig = \<lparr>separator = '':'', gfields = [], algorithm = SHA256, suffixMin = 1, suffixMax = 20\<rparr>"

datatype gen_option =
    WithHashAlgorithm hash_algorithm
  | WithSeparator string
  | WithFields "string list"
  | WithSuffixRange go_int go_int

fun applyGen :: "gen_option \<Rightarrow> generator_config \<Rightarrow> generator_config" where
  "applyGen (WithHashAlgorithm a) c = (if a = SHA256 \<or> a = FNV64 then c\<lparr>algorithm := a\<rparr> else c)"
| "applyGen (WithSeparator s) c = (if s \<noteq> [] then c\<lparr>separator := s\<rparr> else c)"
| "applyGen (WithFields fs) c = (if 0 < length fs then c\<lparr>gfields := fs\<rparr> else c)"
| "applyGen (WithSuffixRange a b) c = c\<lparr>suffixMin := a, suffixMax := b\<rparr>"

definition configOf :: "gen_option option list \<Rightarrow> generator_config" where
  "configOf opts = applySubs applyGen opts newConfig"

text \<open>\<open>fields[key]\<close>: the empty string when the key is absent.\<close>

definition at_key :: "string gomap \<Rightarrow> string \<Rightarrow> string" where
  "at_key fm k = (case lookup fm k of None \<Rightarrow> [] | Some v \<Rightarrow> v)"

section \<open>Text encodings of digests\<close>

fun hexnat :: "nat \<Rightarrow> string" where
  "hexnat n = (if n < 16 then [hexdigit n] else hexnat (n div 16) @ [hexdigit (n mod 16)])"

declare hexnat.simps [simp del]

text \<open>\<open>hex.EncodeToString\<close>, two digits per byte.\<close>

definition hexbyte :: "8 word \<Rightarrow> string" where
  "hexbyte b = [hexdigit (unat (drop_bit 4 b)), hexdigit (unat (b AND 15))]"

definition hexEncode :: "8 word list \<Rightarrow> string" where
  "hexEncode bs = concat (map hexbyte bs)"

section \<open>Key-based\<close>

definition selectKeys :: "generator_config \<Rightarrow> string gomap \<Rightarrow> string list" where
  "selectKeys c fm = (if gfields c = [] then map fst fm
     else filter (\<lambda>k. lookup fm k \<noteq> None) (gfields c))"

definition hashCanonical :: "(string \<Rightarrow> 8 word list) \<Rightarrow> generator_config \<Rightarrow> string \<Rightarrow> string" where
  "hashCanonical sum256 c canonical =
     (if algorithm c = FNV64 then hexnat (unat (fnv64a canonical))
      else hexEncode (sum256 canonical))"

definition canonicalText :: "generator_config \<Rightarrow> string gomap \<Rightarrow> string list \<Rightarrow> string" where
  "canonicalText c fm keys =
     join (separator c) (map (\<lambda>k. k @ separator c @ at_key fm k) keys)"

definition keyGenerate :: "(string \<Rightarrow> 8 word list) \<Rightarrow> generator_config \<Rightarrow> generator" where
  "keyGenerate sum256 c t fm =
     (if length fm = 0 then Inl (Sentinel ErrEmptyFields)
      else let keys = selectKeys c fm in
        if length keys = 0 then Inl (Sentinel ErrEmptyFields)
        else Inr (hashCanonical sum256 c (canonicalText c fm (sort keys))))"

definition NewKeyBased :: "(string \<Rightarrow> 8 word list) \<Rightarrow> gen_option option list \<Rightarrow> generator" where
  "NewKeyBased sum256 opts = keyGenerate sum256 (configOf opts)"

section \<open>Composite\<close>

definition selectValues :: "generator_config \<Rightarrow> string gomap \<Rightarrow> string list" where
  "selectValues c fm =
     (if gfields c = [] then map (at_key fm) (sort (map fst fm))
      else List.map_filter (lookup fm) (gfields c))"

definition compositeJoin :: "generator_config \<Rightarrow> string gomap \<Rightarrow> err + string" where
  "compositeJoin c fm =
     (if length fm = 0 then Inl (Sentinel ErrEmptyFields)
      else let values = selectValues c fm in
        if length values = 0 then Inl (Sentinel ErrEmptyFields)
        else Inr (join (separator c) values))"

definition NewComposite :: "gen_option option list \<Rightarrow> generator" where
  "NewComposite opts t fm = compositeJoin (configOf opts) fm"

text \<open>
  \<open>rand.IntN\<close> panics on a bound below one; otherwise \<open>draw\<close>, the random source, selects a value
  in \<open>[0, n)\<close>.
\<close>

definition intN :: "nat \<Rightarrow> go_int \<Rightarrow> go_int outcome" where
  "intN draw n = (if n \<le>s 0 then Panic ''invalid argument to IntN''
     else Return (word_of_int (int draw mod sint n)))"

definition randomSuffix :: "generator_config \<Rightarrow> nat \<Rightarrow> go_int outcome" where
  "randomSuffix c draw =
     (let span = suffixMax c - suffixMin c + 1 in
      case intN draw span of Panic p \<Rightarrow> Panic p | Return x \<Rightarrow> Return (suffixMin c + x))"

definition suffixGenerate :: "generator_config \<Rightarrow> nat \<Rightarrow> string gomap \<Rightarrow> (err + string) outcome" where
  "suffixGenerate c draw fm =
     (if suffixMax c <s suffixMin c then Return (Inl (Sentinel ErrInvalidOption))
      else case compositeJoin c fm of
          Inl e \<Rightarrow> Return (Inl e)
        | Inr prefix \<Rightarrow> (case randomSuffix c draw of
              Panic p \<Rightarrow> Panic p
            | Return n \<Rightarrow> Return (Inr (prefix @ separator c @ itoa n))))"

definition NewCompositeWithSuffix :: "gen_option option list \<Rightarrow> nat \<Rightarrow> string gomap \<Rightarrow> (err + string) outcome" where
  "NewCompositeWithSuffix opts = suffixGenerate (configOf opts)"

section \<open>Random\<close>

definition setVersion :: "8 word list \<Rightarrow> 8 word list" where
  "setVersion b = (let b = b[6 := (b ! 6 AND 0x0f) OR 0x40] in b[8 := (b ! 8 AND 0x3f) OR 0x80])"

text \<open>The canonical 8-4-4-4-12 form; \<open>slice i j\<close> is \<open>b[i:j]\<close>.\<close>

definition slice :: "nat \<Rightarrow> nat \<Rightarrow> 'a list \<Rightarrow> 'a list" where
  "slice i j xs = take (j - i) (drop i xs)"

definition formatUUID :: "8 word list \<Rightarrow> string" where
  "formatUUID b = hexEncode (slice 0 4 b) @ ''-'' @ hexEncode (slice 4 6 b) @ ''-'' @
     hexEncode (slice 6 8 b) @ ''-'' @ hexEncode (slice 8 10 b) @ ''-'' @ hexEncode (slice 10 16 b)"

text \<open>\<open>rd\<close> is what reading the system random source yields: an error, or sixteen bytes.\<close>

definition randomGenerate :: "(trace \<Rightarrow> err + 8 word list) \<Rightarrow> generator" where
  "randomGenerate rd t fm = (case rd t of Inl e \<Rightarrow> Inl e
     | Inr b \<Rightarrow> Inr (formatUUID (setVersion b)))"

definition NewRandom :: "(trace \<Rightarrow> err + 8 word list) \<Rightarrow> generator" where
  [simp]: "NewRandom rd = randomGenerate rd"

section \<open>Independence of the map's iteration order\<close>

locale order_free_generator =
  fixes gen :: generator
  assumes order_free: "wf_map fm \<Longrightarrow> mset fm = mset fm' \<Longrightarrow> gen t fm = gen t' fm'"
    and empty_fields: "gen t [] = Inl (Sentinel ErrEmptyFields)"
begin

lemma deterministic: "wf_map fm \<Longrightarrow> gen t fm = gen t' fm"
  by (rule order_free) simp_all

text \<open>Equal contents, whatever the order they were stored in, give equal ids.\<close>

lemma store_commute:
  assumes "wf_map m" "k \<noteq> k'" "k \<notin> fst ` set m" "k' \<notin> fst ` set m"
  shows "gen t (store k v (store k' v' m)) = gen t (store k' v' (store k v m))"
proof (rule order_free)
  show "wf_map (store k v (store k' v' m))" using assms(1) by (simp add: wf_store)
  have app: "store k v m = m @ [(k, v)]" if "k \<notin> fst ` set m" for k and v :: string and m
    using that by (induction k v m rule: store.induct) auto
  show "mset (store k v (store k' v' m)) = mset (store k' v' (store k v m))"
    using assms by (simp add: app keys_store)
qed

end

lemma at_key_perm: "wf_map m \<Longrightarrow> mset m = mset m' \<Longrightarrow> at_key m = at_key m'"
  by (rule ext) (simp only: at_key_def lookup_perm [of m m'])

lemma length_perm: "mset m = mset m' \<Longrightarrow> length m = length m'"
  by (rule mset_eq_length)

lemma keys_perm: "mset m = mset m' \<Longrightarrow> mset (map fst m) = mset (map fst m')"
  by (metis Multiset.mset_map)

lemma selectKeys_perm:
  assumes "wf_map m" "mset m = mset m'"
  shows "mset (selectKeys c m) = mset (selectKeys c m')"
  using keys_perm [OF assms(2)] lookup_perm [OF assms] by (simp add: selectKeys_def)

lemma canonical_perm:
  "wf_map m \<Longrightarrow> mset m = mset m' \<Longrightarrow> canonicalText c m ks = canonicalText c m' ks"
  by (simp add: canonicalText_def at_key_perm [of m m'])

lemma keyGenerate_perm:
  assumes "wf_map m" "mset m = mset m'"
  shows "keyGenerate sum256 c t m = keyGenerate sum256 c t' m'"
proof -
  have "length m = length m'" using assms(2) by (rule length_perm)
  moreover have "length (selectKeys c m) = length (selectKeys c m')"
    using selectKeys_perm [OF assms] by (rule mset_eq_length)
  moreover have "sort (selectKeys c m) = sort (selectKeys c m')"
    using selectKeys_perm [OF assms] by (rule sort_perm)
  ultimately show ?thesis
    unfolding keyGenerate_def Let_def by (simp only: canonical_perm [OF assms])
qed

lemma compositeJoin_perm:
  assumes "wf_map m" "mset m = mset m'"
  shows "compositeJoin c m = compositeJoin c m'"
proof -
  have "length m = length m'" using assms(2) by (rule length_perm)
  moreover have "sort (map fst m) = sort (map fst m')"
    using keys_perm [OF assms(2)] by (rule sort_perm)
  ultimately show ?thesis
    unfolding compositeJoin_def Let_def selectValues_def
    by (simp only: at_key_perm [OF assms] lookup_perm [OF assms])
qed

interpretation kb: order_free_generator "NewKeyBased sum256 opts" for sum256 opts
  by unfold_locales (simp_all only: NewKeyBased_def keyGenerate_perm, simp add: keyGenerate_def)

interpretation cp: order_free_generator "NewComposite opts" for opts
  by unfold_locales (simp_all only: NewComposite_def compositeJoin_perm, simp add: compositeJoin_def)

section \<open>When generation fails\<close>

definition selects :: "generator_config \<Rightarrow> string gomap \<Rightarrow> bool" where
  "selects c m = (if gfields c = [] then m \<noteq> []
     else \<exists>k \<in> set (gfields c). lookup m k \<noteq> None)"

lemma selects_nonempty: "selects c m \<Longrightarrow> m \<noteq> []"
  by (cases m; cases "gfields c") (simp_all add: selects_def)

lemma selectKeys_Nil: "m \<noteq> [] \<Longrightarrow> selectKeys c m = [] \<longleftrightarrow> \<not> selects c m"
  by (simp add: selectKeys_def selects_def filter_empty_conv)

lemma map_filter_Nil: "List.map_filter f xs = [] \<longleftrightarrow> (\<forall>x \<in> set xs. f x = None)"
  by (induction xs) (auto simp: List.map_filter_simps split: option.splits)

lemma sort_Nil: "sort xs = [] \<longleftrightarrow> xs = []"
  by (metis length_0_conv length_sort)

lemma selectValues_Nil: "m \<noteq> [] \<Longrightarrow> selectValues c m = [] \<longleftrightarrow> \<not> selects c m"
  by (simp add: selectValues_def selects_def map_filter_Nil sort_Nil)

lemma keyGenerate_cases:
  "keyGenerate sum256 c t m = (if selects c m
     then Inr (hashCanonical sum256 c (canonicalText c m (sort (selectKeys c m))))
     else Inl (Sentinel ErrEmptyFields))"
proof (cases "m = []")
  case True
  then show ?thesis using selects_nonempty [of c m] by (auto simp: keyGenerate_def)
next
  case False
  then show ?thesis by (simp add: keyGenerate_def Let_def selectKeys_Nil)
qed

lemma compositeJoin_cases:
  "compositeJoin c m = (if selects c m then Inr (join (separator c) (selectValues c m))
     else Inl (Sentinel ErrEmptyFields))"
proof (cases "m = []")
  case True
  then show ?thesis using selects_nonempty [of c m] by (auto simp: compositeJoin_def)
next
  case False
  then show ?thesis by (simp add: compositeJoin_def Let_def selectValues_Nil)
qed

text \<open>
  The two deterministic generators fail in exactly the same case, when the configuration
  selects no field of the map (an empty map, or a whitelist none of whose names is present), and
  then with ErrEmptyFields; the composite-with-suffix generator fails in that case too, and with
  ErrInvalidOption, before it looks at the map, when its range is reversed.
\<close>

theorem generators_fail_without_fields:
  "(keyGenerate sum256 c t m = Inl e \<longleftrightarrow> \<not> selects c m \<and> e = Sentinel ErrEmptyFields) \<and>
   (compositeJoin c m = Inl e \<longleftrightarrow> \<not> selects c m \<and> e = Sentinel ErrEmptyFields) \<and>
   (suffixGenerate c draw m = Return (Inl e) \<longleftrightarrow>
     (if sint (suffixMax c) < sint (suffixMin c) then e = Sentinel ErrInvalidOption
      else \<not> selects c m \<and> e = Sentinel ErrEmptyFields))"
  by (auto simp: keyGenerate_cases compositeJoin_cases suffixGenerate_def go_sint
      split: outcome.splits)

section \<open>Key-based ids\<close>

lemma applySubs_snoc: "applySubs app (opts @ [Some r]) c = app r (applySubs app opts c)"
  by (induction app opts c rule: applySubs.induct) simp_all

lemma keyGenerate_whitelist:
  assumes "mset fs = mset fs'"
  shows "keyGenerate sum256 (c\<lparr>gfields := fs\<rparr>) t m = keyGenerate sum256 (c\<lparr>gfields := fs'\<rparr>) t m"
proof -
  have nil: "fs = [] \<longleftrightarrow> fs' = []" and set: "set fs = set fs'"
    using assms mset_eq_setD by (auto dest: mset_eq_length)
  have "selects (c\<lparr>gfields := fs\<rparr>) m = selects (c\<lparr>gfields := fs'\<rparr>) m"
    using nil set by (simp add: selects_def)
  moreover have "mset (selectKeys (c\<lparr>gfields := fs\<rparr>) m) = mset (selectKeys (c\<lparr>gfields := fs'\<rparr>) m)"
    using nil assms by (simp add: selectKeys_def)
  then have "sort (selectKeys (c\<lparr>gfields := fs\<rparr>) m) = sort (selectKeys (c\<lparr>gfields := fs'\<rparr>) m)"
    by (rule sort_perm)
  ultimately show ?thesis
    by (simp add: keyGenerate_cases canonicalText_def hashCanonical_def)
qed

text \<open>
  A key-based id depends neither on the order in which the fields map is iterated nor on the
  order in which the whitelist names its fields: reordering both gives the same id or the same
  error.
\<close>

theorem key_based_order_independent:
  assumes "wf_map m" and "mset m = mset m'" and "mset fs = mset fs'"
  shows "NewKeyBased sum256 (opts @ [Some (WithFields fs)]) t m =
         NewKeyBased sum256 (opts @ [Some (WithFields fs')]) t' m'"
proof -
  have "length fs = length fs'" using assms(3) by (rule mset_eq_length)
  then have "NewKeyBased sum256 (opts @ [Some (WithFields fs)]) t m =
    NewKeyBased sum256 (opts @ [Some (WithFields fs')]) t m"
    using keyGenerate_whitelist [OF assms(3)]
    by (simp add: NewKeyBased_def configOf_def applySubs_snoc)
  also have "\<dots> = NewKeyBased sum256 (opts @ [Some (WithFields fs')]) t' m'"
    by (rule kb.order_free [OF assms(1,2)])
  finally show ?thesis .
qed

lemma key_based_order_independent_witness:
  "NewKeyBased (\<lambda>_. [0xab]) ([] @ [Some (WithFields [''a'', ''b''])]) [] [(''a'', ''1''), (''b'', ''2'')] =
   NewKeyBased (\<lambda>_. [0xab]) ([] @ [Some (WithFields [''b'', ''a''])]) [] [(''b'', ''2''), (''a'', ''1'')]"
  by (rule key_based_order_independent) (simp_all add: wf_map_def)

definition canonicalOf :: "generator_config \<Rightarrow> string gomap \<Rightarrow> string" where
  "canonicalOf c m = canonicalText c m (sort (selectKeys c m))"

lemma pairs_inject:
  "concat (map (\<lambda>k. [k, f k]) ks) = concat (map (\<lambda>k. [k, g k]) ks') \<longleftrightarrow>
   ks = ks' \<and> (\<forall>k \<in> set ks. f k = g k)"
proof (induction ks arbitrary: ks')
  case Nil
  then show ?case by (cases ks') simp_all
next
  case (Cons k ks)
  then show ?case by (cases ks') auto
qed

lemma lookup_in: "lookup m k = Some v \<Longrightarrow> (k, v) \<in> set m"
  by (rule map_of_SomeD)

lemma lookup_ext:
  assumes "set (map fst m) = set (map fst m')" and "\<forall>k \<in> set (map fst m). at_key m k = at_key m' k"
  shows "lookup m = lookup m'"
proof (rule ext)
  fix k
  show "lookup m k = lookup m' k"
  proof (cases "k \<in> set (map fst m)")
    case True
    with assms have "lookup m k \<noteq> None" "lookup m' k \<noteq> None" "at_key m k = at_key m' k"
      by (auto simp: map_of_eq_None_iff)
    then show ?thesis by (auto simp: at_key_def)
  next
    case False
    with assms(1) have "lookup m k = None" "lookup m' k = None"
      by (simp_all add: map_of_eq_None_iff)
    then show ?thesis by simp
  qed
qed

lemma canonicalOf_inject:
  assumes "gfields c = []" and "separator c = [ch]"
    and "wf_map m" and "wf_map m'" and "m \<noteq> []" and "m' \<noteq> []"
    and free: "\<forall>(k, v) \<in> set m. ch \<notin> set k \<and> ch \<notin> set v"
    and free': "\<forall>(k, v) \<in> set m'. ch \<notin> set k \<and> ch \<notin> set v"
  shows "canonicalOf c m = canonicalOf c m' \<longleftrightarrow> lookup m = lookup m'"
proof -
  define parts where "parts n = concat (map (\<lambda>k. [k, at_key n k]) (sort (map fst n)))"
    for n :: "string gomap"
  have ne: "parts n \<noteq> []" if "n \<noteq> []" for n
  proof -
    from that have "sort (map fst n) \<noteq> []" by (simp add: sort_Nil)
    then show ?thesis by (cases "sort (map fst n)") (simp_all add: parts_def)
  qed
  have clean': "ch \<notin> set k \<and> ch \<notin> set (at_key n k)"
    if "\<forall>(k, v) \<in> set n. ch \<notin> set k \<and> ch \<notin> set v" "k \<in> fst ` set n" for n k
  proof -
    from that(2) obtain v where v: "lookup n k = Some v"
      by (metis domD dom_map_of_conv_image_fst)
    then show ?thesis using that(1) lookup_in [OF v] by (auto simp: at_key_def)
  qed
  have clean: "\<forall>x \<in> set (parts n). ch \<notin> set x"
    if "\<forall>(k, v) \<in> set n. ch \<notin> set k \<and> ch \<notin> set v" for n
  proof -
    have "ch \<notin> set k" "ch \<notin> set (at_key n k)" if "k \<in> set (map fst n)" for k
      using that clean' [OF \<open>\<forall>(k, v) \<in> set n. ch \<notin> set k \<and> ch \<notin> set v\<close>] by auto
    then show ?thesis by (auto simp: parts_def)
  qed
  have canon: "canonicalOf c n = join [ch] (parts n)" for n
    using assms(1,2) join_pairs [where f = "\<lambda>k. k" and g = "at_key n" and sep = "[ch]"]
    by (simp add: canonicalOf_def canonicalText_def selectKeys_def parts_def)
  have "canonicalOf c m = canonicalOf c m' \<longleftrightarrow> parts m = parts m'"
    unfolding canon
    by (rule join_sep_inject [OF clean [OF free] clean [OF free'] ne [OF assms(5)] ne [OF assms(6)]])
  also have "\<dots> \<longleftrightarrow> lookup m = lookup m'"
  proof
    assume "parts m = parts m'"
    then have *: "sort (map fst m) = sort (map fst m')" "\<forall>k \<in> set (map fst m). at_key m k = at_key m' k"
      by (simp_all add: parts_def pairs_inject)
    from *(1) have "set (map fst m) = set (map fst m')" by (metis set_sort)
    then show "lookup m = lookup m'" using *(2) by (rule lookup_ext)
  next
    assume eq: "lookup m = lookup m'"
    then have "at_key m = at_key m'" by (simp add: fun_eq_iff at_key_def)
    moreover have "set (map fst m) = set (map fst m')"
      using eq by (metis dom_map_of_conv_image_fst image_set)
    then have "mset (map fst m) = mset (map fst m')"
      using set_eq_iff_mset_eq_distinct [of "map fst m" "map fst m'"] assms(3,4)
      unfolding wf_map_def by blast
    then have "sort (map fst m) = sort (map fst m')" by (rule sort_perm)
    ultimately show "parts m = parts m'" by (simp add: parts_def)
  qed
  finally show ?thesis .
qed

text \<open>
  With no whitelist and a one-character separator that occurs in no key and no value, two
  non-empty field maps get the same key-based id exactly when they hold the same fields or the
  hash sends their two different canonical texts to one digest: the canonical text itself never
  confuses two field maps.
\<close>

theorem key_based_id_collisions:
  assumes "gfields c = []" and "separator c = [ch]"
    and "wf_map m" and "wf_map m'" and "m \<noteq> []" and "m' \<noteq> []"
    and "\<forall>(k, v) \<in> set m. ch \<notin> set k \<and> ch \<notin> set v"
    and "\<forall>(k, v) \<in> set m'. ch \<notin> set k \<and> ch \<notin> set v"
  shows "keyGenerate sum256 c t m = keyGenerate sum256 c t' m' \<longleftrightarrow> lookup m = lookup m' \<or>
     canonicalOf c m \<noteq> canonicalOf c m' \<and>
     hashCanonical sum256 c (canonicalOf c m) = hashCanonical sum256 c (canonicalOf c m')"
proof -
  have "selects c m" "selects c m'" using assms by (simp_all add: selects_def)
  then have "keyGenerate sum256 c t m = keyGenerate sum256 c t' m' \<longleftrightarrow>
     hashCanonical sum256 c (canonicalOf c m) = hashCanonical sum256 c (canonicalOf c m')"
    by (simp add: keyGenerate_cases canonicalOf_def)
  with canonicalOf_inject [OF assms] show ?thesis by auto
qed

lemma key_based_id_collisions_witness:
  "keyGenerate (\<lambda>_. [1]) newConfig [] [(''a'', ''b'')] =
     keyGenerate (\<lambda>_. [1]) newConfig [] [(''a'', ''c'')] \<longleftrightarrow>
   lookup [(''a'', ''b'')] = lookup [(''a'', ''c'')] \<or>
   canonicalOf newConfig [(''a'', ''b'')] \<noteq> canonicalOf newConfig [(''a'', ''c'')] \<and>
   hashCanonical (\<lambda>_. [1]) newConfig (canonicalOf newConfig [(''a'', ''b'')]) =
   hashCanonical (\<lambda>_. [1]) newConfig (canonicalOf newConfig [(''a'', ''c'')])"
  by (rule key_based_id_collisions [of newConfig "CHR '':''"]) (simp_all add: newConfig_def wf_map_def)

text \<open>
  Without that condition the canonical text is ambiguous: a separator inside a value makes two
  different field maps share it, hence share the id whatever the hash.
\<close>

lemma canonical_text_ambiguous:
  "keyGenerate sum256 newConfig t [(''a'', ''b:c:d'')] =
   keyGenerate sum256 newConfig t' [(''a'', ''b''), (''c'', ''d'')]"
  by (simp add: keyGenerate_def Let_def selectKeys_def canonicalText_def newConfig_def at_key_def
      hashCanonical_def SHA256_def FNV64_def)

section \<open>Composite ids\<close>

lemma sint_randomSuffix:
  assumes "sint (suffixMin c) \<le> sint (suffixMax c)"
    and "sint (suffixMax c) - sint (suffixMin c) < 2 ^ 63 - 1"
  shows "\<exists>n. randomSuffix c draw = Return n \<and>
    sint n = sint (suffixMin c) + int draw mod (sint (suffixMax c) - sint (suffixMin c) + 1)"
proof -
  define lo hi where "lo = sint (suffixMin c)" and "hi = sint (suffixMax c)"
  have lo: "- (2 ^ 63) \<le> lo" "hi < 2 ^ 63" "lo \<le> hi" "hi - lo < 2 ^ 63 - 1"
    using assms sint64_range [of "suffixMin c"] sint64_range [of "suffixMax c"]
    by (simp_all add: lo_def hi_def)
  define x where "x = int draw mod (hi - lo + 1)"
  have x: "0 \<le> x" "x < hi - lo + 1" using lo(3) pos_mod_bound [of "hi - lo + 1" "int draw"]
    by (simp_all add: x_def)
  have "sint (suffixMax c - suffixMin c) = hi - lo"
    using lo by (simp add: sint_word_ariths signed_take_bit_id flip: lo_def hi_def)
  then have span: "sint (suffixMax c - suffixMin c + 1) = hi - lo + 1"
    using lo by (subst sint64_add) simp_all
  then have "randomSuffix c draw = Return (suffixMin c + word_of_int x)"
    using lo by (simp add: randomSuffix_def intN_def go_sint Let_def x_def)
  moreover have "sint (word_of_int x :: go_int) = x" using x lo by (intro sint64_of_int) simp_all
  then have "sint (suffixMin c + word_of_int x) = lo + x"
    using x lo by (subst sint64_add) (simp_all flip: lo_def)
  ultimately show ?thesis by (simp add: x_def lo_def hi_def)
qed

text \<open>
  C40: The composite-with-suffix id is the composite prefix, the separator and the decimal text of
  a number inside the inclusive configured range, for every draw of the random source, as long as
  the range holds fewer than 2^63 values; and every number of the range is drawn.
\<close>

theorem composite_suffix_in_range:
  assumes "sint (suffixMin c) \<le> sint (suffixMax c)"
    and "sint (suffixMax c) - sint (suffixMin c) < 2 ^ 63 - 1"
    and "compositeJoin c m = Inr p"
  shows "(\<forall>draw. \<exists>n. suffixGenerate c draw m = Return (Inr (p @ separator c @ itoa n)) \<and>
      sint (suffixMin c) \<le> sint n \<and> sint n \<le> sint (suffixMax c)) \<and>
    (\<forall>n. sint (suffixMin c) \<le> sint n \<and> sint n \<le> sint (suffixMax c) \<longrightarrow>
      (\<exists>draw. suffixGenerate c draw m = Return (Inr (p @ separator c @ itoa n))))"
proof (intro conjI allI impI)
  have gen: "suffixGenerate c draw m = (case randomSuffix c draw of Panic q \<Rightarrow> Panic q
    | Return n \<Rightarrow> Return (Inr (p @ separator c @ itoa n)))" for draw
    using assms(1,3) by (simp add: suffixGenerate_def go_sint)
  define w where "w = sint (suffixMax c) - sint (suffixMin c) + 1"
  have w: "0 < w" using assms(1) by (simp add: w_def)
  { fix draw
    obtain n where n: "randomSuffix c draw = Return n"
        "sint n = sint (suffixMin c) + int draw mod w"
      using sint_randomSuffix [OF assms(1,2), of draw] by (auto simp: w_def)
    moreover have "0 \<le> int draw mod w" "int draw mod w < w" using w by simp_all
    then have "sint (suffixMin c) \<le> sint n" "sint n \<le> sint (suffixMax c)"
      unfolding n(2) by (simp_all add: w_def)
    ultimately show "\<exists>n. suffixGenerate c draw m = Return (Inr (p @ separator c @ itoa n)) \<and>
      sint (suffixMin c) \<le> sint n \<and> sint n \<le> sint (suffixMax c)"
      by (simp add: gen) }
  fix n :: go_int
  assume n: "sint (suffixMin c) \<le> sint n \<and> sint n \<le> sint (suffixMax c)"
  define draw where "draw = nat (sint n - sint (suffixMin c))"
  have "int draw mod w = sint n - sint (suffixMin c)"
    using n by (simp add: draw_def w_def)
  then obtain n' where "randomSuffix c draw = Return n'" "sint n' = sint n"
    using sint_randomSuffix [OF assms(1,2), of draw] by (auto simp: w_def)
  then have "randomSuffix c draw = Return n" by (simp add: signed_word_eqI)
  then have "suffixGenerate c draw m = Return (Inr (p @ separator c @ itoa n))" by (simp add: gen)
  then show "\<exists>draw. suffixGenerate c draw m = Return (Inr (p @ separator c @ itoa n))" ..
qed

lemma composite_suffix_in_range_witness:
  "\<exists>n. suffixGenerate newConfig 45 [(''a'', ''b'')] = Return (Inr (''b'' @ '':'' @ itoa n)) \<and>
     1 \<le> sint n \<and> sint n \<le> 20"
  using composite_suffix_in_range [of newConfig "[(''a'', ''b'')]" "''b''"]
  by (simp add: newConfig_def compositeJoin_def selectValues_def at_key_def)

text \<open>A range of 2^63 values or more makes the width of the range wrap and the draw panic.\<close>

lemma composite_suffix_overflow:
  "suffixGenerate (configOf [Some (WithSuffixRange 0 0x7FFFFFFFFFFFFFFF)]) draw [(''a'', ''b'')] =
   Panic ''invalid argument to IntN''"
  by (simp add: suffixGenerate_def configOf_def newConfig_def compositeJoin_def selectValues_def
      randomSuffix_def intN_def go_sint at_key_def)

section \<open>Random ids\<close>

lemma nibbles [simp]:
  "unat (drop_bit 4 b :: 8 word) < 16" "unat (b AND 15 :: 8 word) < 16"
proof -
  show "unat (drop_bit 4 b) < 16"
  proof -
    have "unat b < 2 ^ LENGTH(8)" by (rule unsigned_less)
    then show ?thesis
      unfolding unat_drop_bit_eq by (simp add: drop_bit_eq_div less_mult_imp_div_less)
  qed
  have "b AND 15 \<le> 15" by (rule word_and_le1)
  then show "unat (b AND 15) < 16" by (simp add: word_le_nat_alt)
qed

lemma nibbles_inject:
  assumes "drop_bit 4 a = drop_bit 4 b" and "a AND 15 = b AND 15"
  shows "a = (b :: 8 word)"
proof -
  have m: "mask 4 = (15 :: 8 word)" by (simp add: mask_eq_exp_minus_1)
  have "push_bit 4 (drop_bit 4 x) OR (x AND 15) = x" for x :: "8 word"
    by (rule bit_word_eqI) (auto simp: bit_simps m [symmetric])
  with assms show ?thesis by metis
qed

lemma hexbyte_inject: "hexbyte a = hexbyte b \<longleftrightarrow> a = b"
  using nibbles_inject [of a b] unat_cong
  by (auto simp: hexbyte_def hexdigit_inject unat_arith_simps(3) [symmetric])

lemma hexEncode_Nil [simp]: "hexEncode [] = []"
  by (simp add: hexEncode_def)

lemma hexEncode_Cons [simp]: "hexEncode (b # bs) = hexbyte b @ hexEncode bs"
  by (simp add: hexEncode_def)

lemma version_nibble: "drop_bit 4 (b AND 15 OR 64 :: 8 word) = 4"
  by (simp add: drop_bit_or drop_bit_and)

lemma variant_nibble:
  "hexdigit (unat (drop_bit 4 (b AND 63 OR 128 :: 8 word))) \<in> set ''89ab''"
proof -
  have "drop_bit 4 (b AND 63 OR 128) = drop_bit 4 b AND 3 OR 8"
    by (simp add: drop_bit_or drop_bit_and)
  moreover have "drop_bit 4 b AND 3 \<in> {0, 1, 2, 3}"
  proof -
    have "drop_bit 4 b AND 3 \<le> 3" by (rule word_and_le1)
    then have "unat (drop_bit 4 b AND 3) \<in> {0, 1, 2, 3}" by (auto simp: word_le_nat_alt)
    then have "word_of_nat (unat (drop_bit 4 b AND 3)) \<in> {0, 1, 2, 3 :: 8 word}"
      by (elim insertE) simp_all
    then show ?thesis by simp
  qed
  ultimately show ?thesis by (auto simp: hexdigit_values)
qed

lemma hexEncode_inject: "length xs = length ys \<Longrightarrow> hexEncode xs = hexEncode ys \<longleftrightarrow> xs = ys"
proof (induction xs ys rule: list_induct2)
  case (Cons x xs y ys)
  moreover have "length (hexbyte x) = length (hexbyte y)" by (simp add: hexbyte_def)
  ultimately show ?case by (simp add: hexbyte_inject)
qed simp

lemma length_16E:
  assumes "length b = 16"
  obtains b0 b1 b2 b3 b4 b5 b6 b7 b8 b9 b10 b11 b12 b13 b14 b15
  where "b = [b0, b1, b2, b3, b4, b5, b6, b7, b8, b9, b10, b11, b12, b13, b14, b15]"
  using assms by (auto simp: numeral_eq_Suc length_Suc_conv)

lemma length_hexEncode [simp]: "length (hexEncode bs) = 2 * length bs"
  by (induction bs) (simp_all add: hexbyte_def)

lemma formatUUID_inject:
  assumes "length b = 16" and "length b' = 16"
  shows "formatUUID b = formatUUID b' \<longleftrightarrow> b = b'"
proof
  assume eq: "formatUUID b = formatUUID b'"
  have split: "x = slice 0 4 x @ slice 4 6 x @ slice 6 8 x @ slice 8 10 x @ slice 10 16 x"
    if "length x = 16" for x :: "8 word list"
    using that by (rule length_16E) (simp add: slice_def)
  have len: "length (slice i j b) = length (slice i j b')" for i j
    using assms by (simp add: slice_def)
  have "slice 0 4 b = slice 0 4 b'" "slice 4 6 b = slice 4 6 b'" "slice 6 8 b = slice 6 8 b'"
    "slice 8 10 b = slice 8 10 b'" "slice 10 16 b = slice 10 16 b'"
    using eq len unfolding formatUUID_def by (simp_all add: hexEncode_inject)
  then show "b = b'" using split [OF assms(1)] split [OF assms(2)] by simp
qed simp

lemma uuid_shape:
  assumes "length b = 16"
  shows "length (formatUUID (setVersion b)) = 36 \<and>
    (\<forall>i < 36. if i \<in> {8, 13, 18, 23} then formatUUID (setVersion b) ! i = CHR ''-''
       else is_hex (formatUUID (setVersion b) ! i)) \<and>
    formatUUID (setVersion b) ! 14 = CHR ''4'' \<and>
    formatUUID (setVersion b) ! 19 \<in> set ''89ab''"
proof (rule length_16E [OF assms])
  fix b0 b1 b2 b3 b4 b5 b6 b7 b8 b9 b10 b11 b12 b13 b14 b15
  assume b: "b = [b0, b1, b2, b3, b4, b5, b6, b7, b8, b9, b10, b11, b12, b13, b14, b15]"
  define v6 where "v6 = b6 AND 15 OR 64"
  define v8 where "v8 = b8 AND 63 OR 128"
  define w where "w = setVersion b"
  have w: "w = [b0, b1, b2, b3, b4, b5, v6, b7, v8, b9, b10, b11, b12, b13, b14, b15]"
    by (simp add: w_def b setVersion_def v6_def v8_def)
  define u where "u = formatUUID w"
  have u: "u = hexbyte b0 @ hexbyte b1 @ hexbyte b2 @ hexbyte b3 @ ''-'' @ hexbyte b4 @ hexbyte b5 @
    ''-'' @ hexbyte v6 @ hexbyte b7 @ ''-'' @ hexbyte v8 @ hexbyte b9 @ ''-'' @ hexbyte b10 @
    hexbyte b11 @ hexbyte b12 @ hexbyte b13 @ hexbyte b14 @ hexbyte b15"
    by (simp add: u_def w formatUUID_def slice_def)
  have len: "length u = 36" by (simp add: u hexbyte_def)
  have "list_all (\<lambda>i. if i \<in> {8, 13, 18, 23} then u ! i = CHR ''-'' else is_hex (u ! i)) [0..<36]"
    unfolding u hexbyte_def by (simp add: upt_rec is_hex_hexdigit)
  then have "\<forall>i < 36. if i \<in> {8, 13, 18, 23} then u ! i = CHR ''-'' else is_hex (u ! i)"
    by (simp add: list_all_iff)
  moreover have "u ! 14 = CHR ''4''"
    unfolding u hexbyte_def by (simp add: v6_def version_nibble hexdigit_values)
  moreover have "u ! 19 \<in> set ''89ab''"
    unfolding u hexbyte_def using variant_nibble [of b8] by (simp add: v8_def)
  ultimately show ?thesis using len unfolding u_def w_def by blast
qed

text \<open>
  A random id is a version-4 UUID in canonical form: 36 characters, hyphens exactly at the
  four separators and lower-case hexadecimal elsewhere, the version digit 4 and an RFC 4122
  variant digit; and two ids agree only when the random bytes agree outside the version and
  variant bits.
\<close>

theorem random_ids_are_uuid4:
  assumes "rd t = Inr b" and "length b = 16" and "randomGenerate rd t m = Inr u"
  shows "length u = 36 \<and>
    (\<forall>i < 36. if i \<in> {8, 13, 18, 23} then u ! i = CHR ''-'' else is_hex (u ! i)) \<and>
    u ! 14 = CHR ''4'' \<and> u ! 19 \<in> set ''89ab'' \<and>
    (\<forall>t' b' m'. rd t' = Inr b' \<and> length b' = 16 \<longrightarrow>
       (randomGenerate rd t' m' = Inr u \<longleftrightarrow> setVersion b' = setVersion b))"
proof -
  have u: "u = formatUUID (setVersion b)" using assms by (simp add: randomGenerate_def)
  have len: "length (setVersion x) = length x" for x by (simp add: setVersion_def Let_def)
  have "randomGenerate rd t' m' = Inr u \<longleftrightarrow> setVersion b' = setVersion b"
    if "rd t' = Inr b'" "length b' = 16" for t' b' m'
    using that assms(2) by (simp add: randomGenerate_def u formatUUID_inject len)
  then show ?thesis using uuid_shape [OF assms(2)] unfolding u by blast
qed

lemma random_ids_are_uuid4_witness:
  "\<exists>u. randomGenerate (\<lambda>_. Inr (replicate 16 0xff)) [] [] = Inr u \<and> length u = 36 \<and> u ! 14 = CHR ''4''"
proof -
  let ?rd = "\<lambda>_. Inr (replicate 16 0xff)"
  have "randomGenerate ?rd [] [] = Inr (formatUUID (setVersion (replicate 16 0xff)))"
    by (simp add: randomGenerate_def)
  from random_ids_are_uuid4 [of ?rd, OF refl _ this] this show ?thesis by simp
qed

end
