(* ===== verification/Go_Time.thy ===== *)
theory Go_Time
  imports Go_Strconv
begin

text \<open>
  UTC calendar time as Go's package \<open>time\<close> computes and formats it. A time is its number of
  nanoseconds since the zero time, 1 January of year 1, 00:00:00 UTC. \<open>civil\<close> splits a day count
  into 400-year, 100-year, 4-year and 1-year cycles; \<open>formatDateTime\<close> is \<open>Format\<close> with the
  layout "2006-01-02T15:04:05". The lemmas show that the day count is recovered from the civil
  date, and the whole second from the formatted text for the years 1 to 9999.
\<close>

definition leap :: "int \<Rightarrow> bool" where
  "leap y \<longleftrightarrow> y mod 4 = 0 \<and> (y mod 100 \<noteq> 0 \<or> y mod 400 = 0)"

definition monthLengths :: "bool \<Rightarrow> int list" where
  "monthLengths l = [31, if l then 29 else 28, 31, 30, 31, 30, 31, 31, 30, 31, 30, 31]"

text \<open>The month, counted from \<open>m\<close>, and the day of a zero-based day of the year.\<close>

fun monthDay :: "int \<Rightarrow> int list \<Rightarrow> int \<Rightarrow> int \<times> int" where
  "monthDay m [] d = (m, d + 1)"
| "monthDay m (l # ls) d = (if d < l then (m, d + 1) else monthDay (m + 1) ls (d - l))"

text \<open>The year and the zero-based day of the year of a day count.\<close>

definition yearDay :: "int \<Rightarrow> int \<times> int" where
  "yearDay d = (let n400 = d div 146097; d1 = d mod 146097;
       n100 = min 3 (d1 div 36524); d2 = d1 - 36524 * n100;
       n4 = d2 div 1461; d3 = d2 mod 1461;
       n1 = min 3 (d3 div 365); d4 = d3 - 365 * n1
     in (400 * n400 + 100 * n100 + 4 * n4 + n1 + 1, d4))"

definition civil :: "int \<Rightarrow> int \<times> int \<times> int" where
  "civil d = (case yearDay d of (y, yd) \<Rightarrow>
     (case monthDay 1 (monthLengths (leap y)) yd of (m, dd) \<Rightarrow> (y, m, dd)))"

text \<open>Decimal text padded with zeros to a width, as the layout's fields are.\<close>

definition padded :: "nat \<Rightarrow> int \<Rightarrow> string" where
  "padded w n = (if n < 0
     then CHR ''-'' # replicate (w - length (digits10 (nat (- n)))) CHR ''0'' @ digits10 (nat (- n))
     else replicate (w - length (digits10 (nat n))) CHR ''0'' @ digits10 (nat n))"

definition formatDateTime :: "int \<Rightarrow> string" where
  "formatDateTime t = (let s = t div 1000000000; sod = s mod 86400 in
     case civil (s div 86400) of (y, m, d) \<Rightarrow>
       padded 4 y @ ''-'' @ padded 2 m @ ''-'' @ padded 2 d @ ''T'' @
       padded 2 (sod div 3600) @ '':'' @ padded 2 (sod div 60 mod 60) @ '':'' @ padded 2 (sod mod 60))"

section \<open>Recovering the day\<close>

definition daysBeforeYear :: "int \<Rightarrow> int" where
  "daysBeforeYear y = (let p = y - 1 in 365 * p + p div 4 - p div 100 + p div 400)"

definition daysBeforeMonth :: "bool \<Rightarrow> int \<Rightarrow> int" where
  "daysBeforeMonth l m = sum_list (take (nat (m - 1)) (monthLengths l))"

definition dayCount :: "int \<times> int \<times> int \<Rightarrow> int" where
  "dayCount c = (case c of (y, m, d) \<Rightarrow>
     daysBeforeYear y + daysBeforeMonth (leap y) m + (d - 1))"

lemma yearDay_cycles:
  obtains a b c e where "0 \<le> b" "b \<le> 3" "0 \<le> c" "c \<le> 24" "0 \<le> e" "e \<le> 3"
    "fst (yearDay d) = 400 * a + 100 * b + 4 * c + e + 1"
    "d = 146097 * a + 36524 * b + 1461 * c + 365 * e + snd (yearDay d)"
    "0 \<le> snd (yearDay d)" "snd (yearDay d) \<le> 365"
    "snd (yearDay d) = 365 \<Longrightarrow> e = 3 \<and> (c \<noteq> 24 \<or> b = 3)"
proof -
  define a d1 where "a = d div 146097" and "d1 = d mod 146097"
  define b d2 where "b = min 3 (d1 div 36524)" and "d2 = d1 - 36524 * b"
  define c d3 where "c = d2 div 1461" and "d3 = d2 mod 1461"
  define e d4 where "e = min 3 (d3 div 365)" and "d4 = d3 - 365 * e"
  have y: "yearDay d = (400 * a + 100 * b + 4 * c + e + 1, d4)"
    by (simp add: yearDay_def Let_def a_def d1_def b_def d2_def c_def d3_def e_def d4_def)
  have d1: "0 \<le> d1" "d1 < 146097" "d = 146097 * a + d1" by (simp_all add: d1_def a_def)
  then have b: "0 \<le> b" "b \<le> 3" "0 \<le> d2" "d2 \<le> 36524" "d2 = 36524 \<Longrightarrow> b = 3"
    unfolding d2_def b_def min_def by (auto simp: not_le)
  then have c: "0 \<le> c" "c \<le> 24" "0 \<le> d3" "d3 < 1461" "d2 = 1461 * c + d3"
    unfolding c_def d3_def by (simp_all add: pos_imp_zdiv_nonneg_iff)
  then have e: "0 \<le> e" "e \<le> 3" "0 \<le> d4" "d4 \<le> 365" "d4 = 365 \<Longrightarrow> e = 3"
    unfolding d4_def e_def min_def by (auto simp: not_le)
  have dd: "d = 146097 * a + 36524 * b + 1461 * c + 365 * e + d4"
    using d1(3) c(5) by (simp add: d2_def d4_def)
  have last: "e = 3 \<and> (c \<noteq> 24 \<or> b = 3)" if "d4 = 365"
    using that b c e by (auto simp: d4_def)
  show thesis
    by (rule that [of b c e a, OF b(1,2) c(1,2) e(1,2)], unfold y fst_conv snd_conv)
      (use dd e(3,4) last in \<open>blast\<close>)+
qed

lemma daysBeforeYear_cycles:
  assumes "0 \<le> b" "b \<le> 3" "0 \<le> c" "c \<le> 24" "0 \<le> e" "e \<le> 3"
  shows "daysBeforeYear (400 * a + 100 * b + 4 * c + e + 1) = 146097 * a + 36524 * b + 1461 * c + 365 * e"
    and "leap (400 * a + 100 * b + 4 * c + e + 1) \<longleftrightarrow> e = 3 \<and> (c \<noteq> 24 \<or> b = 3)"
proof -
  define p where "p = 400 * a + 100 * b + 4 * c + e"
  have q: "p div 4 = 100 * a + 25 * b + c" "p div 100 = 4 * a + b" "p div 400 = a"
    using int_div_pos_eq [of p 4 "100 * a + 25 * b + c" e]
      int_div_pos_eq [of p 100 "4 * a + b" "4 * c + e"]
      int_div_pos_eq [of p 400 a "100 * b + 4 * c + e"] assms
    by (simp_all add: p_def)
  show "daysBeforeYear (400 * a + 100 * b + 4 * c + e + 1) = 146097 * a + 36524 * b + 1461 * c + 365 * e"
    by (simp add: daysBeforeYear_def Let_def q flip: p_def) (simp add: p_def)
  have "(p + 1) mod 4 = 0 \<longleftrightarrow> e = 3" "(p + 1) mod 100 = 0 \<longleftrightarrow> e = 3 \<and> c = 24"
    "(p + 1) mod 400 = 0 \<longleftrightarrow> e = 3 \<and> c = 24 \<and> b = 3"
  proof -
    have md: "(p + 1) mod 4 = (e + 1) mod 4" "(p + 1) mod 100 = (4 * c + e + 1) mod 100"
      "(p + 1) mod 400 = (100 * b + 4 * c + e + 1) mod 400"
      unfolding p_def mod_eq_dvd_iff by presburger+
    have small: "n mod k = 0 \<longleftrightarrow> n = k" if "0 < n" "n \<le> k" for n k :: int
      using that by (cases "n = k") simp_all
    have "(e + 1) mod 4 = 0 \<longleftrightarrow> e + 1 = 4" by (rule small) (use assms in linarith)+
    also have "\<dots> \<longleftrightarrow> e = 3" by linarith
    finally show "(p + 1) mod 4 = 0 \<longleftrightarrow> e = 3" by (simp only: md)
    have "(4 * c + e + 1) mod 100 = 0 \<longleftrightarrow> 4 * c + e + 1 = 100"
      by (rule small) (use assms in linarith)+
    also have "\<dots> \<longleftrightarrow> e = 3 \<and> c = 24" using assms by linarith
    finally show "(p + 1) mod 100 = 0 \<longleftrightarrow> e = 3 \<and> c = 24" by (simp only: md)
    have "(100 * b + 4 * c + e + 1) mod 400 = 0 \<longleftrightarrow> 100 * b + 4 * c + e + 1 = 400"
      by (rule small) (use assms in linarith)+
    also have "\<dots> \<longleftrightarrow> e = 3 \<and> c = 24 \<and> b = 3" using assms by linarith
    finally show "(p + 1) mod 400 = 0 \<longleftrightarrow> e = 3 \<and> c = 24 \<and> b = 3" by (simp only: md)
  qed
  then have "leap (p + 1) \<longleftrightarrow> e = 3 \<and> (c \<noteq> 24 \<or> b = 3)"
    unfolding leap_def by (simp only:) blast
  then show "leap (400 * a + 100 * b + 4 * c + e + 1) \<longleftrightarrow> e = 3 \<and> (c \<noteq> 24 \<or> b = 3)"
    unfolding p_def .
qed

lemma monthDay_sum:
  assumes "0 \<le> d" and "d < sum_list ls" and "\<forall>l \<in> set ls. 0 \<le> l"
  shows "\<exists>n < length ls. monthDay m ls d = (m + int n, d - sum_list (take n ls) + 1) \<and>
    0 \<le> d - sum_list (take n ls) \<and> d - sum_list (take n ls) < ls ! n"
  using assms
proof (induction m ls d rule: monthDay.induct)
  case (2 m l ls d)
  show ?case
  proof (cases "d < l")
    case True
    with 2 show ?thesis by (intro exI [of _ 0]) simp
  next
    case False
    with 2 obtain n where "n < length ls" "monthDay (m + 1) ls (d - l) =
        (m + 1 + int n, d - l - sum_list (take n ls) + 1)"
      "0 \<le> d - l - sum_list (take n ls)" "d - l - sum_list (take n ls) < ls ! n" by auto
    with False show ?thesis by (intro exI [of _ "Suc n"]) (simp add: algebra_simps)
  qed
qed simp

lemma sum_monthLengths: "sum_list (monthLengths l) = (if l then 366 else 365)"
  by (simp add: monthLengths_def)

lemma monthLengths_range: "x \<in> set (monthLengths l) \<Longrightarrow> 28 \<le> x \<and> x \<le> 31"
  by (auto simp: monthLengths_def split: if_splits)

lemma civil_spec:
  assumes "civil d = (y, m, dd)"
  shows "dayCount (y, m, dd) = d" "1 \<le> m" "m \<le> 12" "1 \<le> dd" "dd \<le> 31"
    "dd \<le> monthLengths (leap y) ! nat (m - 1)"
proof -
  obtain yd where yd: "yearDay d = (y, yd)"
    using assms by (auto simp: civil_def split: prod.splits)
  obtain a b c e where cyc: "0 \<le> b" "b \<le> 3" "0 \<le> c" "c \<le> 24" "0 \<le> e" "e \<le> 3"
    and y: "y = 400 * a + 100 * b + 4 * c + e + 1"
    and d: "d = 146097 * a + 36524 * b + 1461 * c + 365 * e + yd"
    and r: "0 \<le> yd" "yd \<le> 365" "yd = 365 \<Longrightarrow> e = 3 \<and> (c \<noteq> 24 \<or> b = 3)"
    by (rule yearDay_cycles [of d], unfold yd fst_conv snd_conv, rule that; assumption?)
  have days: "daysBeforeYear y + yd = d"
    unfolding y d daysBeforeYear_cycles(1) [OF cyc] ..
  have leap: "leap y \<longleftrightarrow> e = 3 \<and> (c \<noteq> 24 \<or> b = 3)"
    unfolding y by (rule daysBeforeYear_cycles(2) [OF cyc])
  have "yd < sum_list (monthLengths (leap y))"
    using r leap by (auto simp: sum_monthLengths)
  moreover have "\<forall>x \<in> set (monthLengths (leap y)). 0 \<le> x" using monthLengths_range by fastforce
  moreover have "length (monthLengths (leap y)) = 12" by (simp add: monthLengths_def)
  ultimately obtain n where n: "n < 12"
    "monthDay 1 (monthLengths (leap y)) yd = (1 + int n, yd - sum_list (take n (monthLengths (leap y))) + 1)"
    "0 \<le> yd - sum_list (take n (monthLengths (leap y)))"
    "yd - sum_list (take n (monthLengths (leap y))) < monthLengths (leap y) ! n"
    using monthDay_sum [OF r(1), of "monthLengths (leap y)" 1] by metis
  have mm: "m = 1 + int n" "dd = yd - sum_list (take n (monthLengths (leap y))) + 1"
    using assms n(2) by (simp_all add: civil_def yd)
  show "dayCount (y, m, dd) = d"
    using days by (simp add: dayCount_def daysBeforeMonth_def mm)
  have "monthLengths (leap y) ! n \<le> 31"
    using n(1) monthLengths_range [OF nth_mem] by (simp add: monthLengths_def)
  with n show "1 \<le> m" "m \<le> 12" "1 \<le> dd" "dd \<le> 31" "dd \<le> monthLengths (leap y) ! nat (m - 1)"
    by (simp_all add: mm)
qed

section \<open>Recovering the text\<close>

lemma length_digits10: "n < 10 ^ w \<Longrightarrow> 0 < w \<Longrightarrow> length (digits10 n) \<le> w"
proof (induction n arbitrary: w rule: digits10.induct)
  case (1 n)
  show ?case
  proof (cases "n < 10")
    case True
    with 1 show ?thesis by (simp add: digits10.simps [of n])
  next
    case False
    with 1 obtain v where v: "w = Suc v" "0 < v" by (cases w; cases "w = 1") auto
    with 1 False have "length (digits10 (n div 10)) \<le> v"
      by (simp add: div_less_iff_less_mult mult.commute)
    with False v show ?thesis by (simp add: digits10.simps [of n])
  qed
qed

lemma length_padded: "0 \<le> n \<Longrightarrow> n < 10 ^ w \<Longrightarrow> 0 < w \<Longrightarrow> length (padded w n) = w"
  using length_digits10 [of "nat n" w] by (simp add: padded_def nat_less_iff)

lemma parse_zeros: "parse_digits 0 (replicate k CHR ''0'' @ ds) = parse_digits 0 ds"
  by (induction k) (simp_all add: is_digit_def)

lemma parse_padded: "0 \<le> n \<Longrightarrow> parse_digits 0 (padded w n) = Some (nat n)"
  by (simp add: padded_def parse_zeros)

text \<open>
  Reading the text back: the fixed-width fields, and the whole second they denote.
\<close>

definition field :: "nat \<Rightarrow> nat \<Rightarrow> string \<Rightarrow> int" where
  "field i w s = (case parse_digits 0 (take w (drop i s)) of None \<Rightarrow> 0 | Some n \<Rightarrow> int n)"

definition readDateTime :: "string \<Rightarrow> int" where
  "readDateTime s = dayCount (field 0 4 s, field 5 2 s, field 8 2 s) * 86400 +
     field 11 2 s * 3600 + field 14 2 s * 60 + field 17 2 s"

lemma field_at:
  assumes "s = pre @ padded w n @ suf" "length pre = i" "0 \<le> n" "n < 10 ^ w" "0 < w"
  shows "field i w s = n"
  using assms by (simp add: field_def length_padded parse_padded)

lemma civil_year:
  assumes "civil d = (y, m, dd)" "0 \<le> d" "d < 3652059"
  shows "1 \<le> y" "y \<le> 9999"
proof -
  obtain yd where yd: "yearDay d = (y, yd)"
    using assms by (auto simp: civil_def split: prod.splits)
  obtain a b c e where cyc: "0 \<le> b" "b \<le> 3" "0 \<le> c" "c \<le> 24" "0 \<le> e" "e \<le> 3"
    and y: "y = 400 * a + 100 * b + 4 * c + e + 1"
    and d: "d = 146097 * a + 36524 * b + 1461 * c + 365 * e + yd"
    and r: "0 \<le> yd" "yd \<le> 365"
    by (rule yearDay_cycles [of d], unfold yd fst_conv snd_conv, rule that; assumption?)
  have "0 \<le> a" "a \<le> 24" using d assms cyc r by linarith+
  then show "1 \<le> y" "y \<le> 9999" using y d assms cyc r by linarith+
qed

lemma read_formatDateTime:
  assumes "0 \<le> t" and "t < 315537897600 * 1000000000"
  shows "readDateTime (formatDateTime t) = t div 1000000000"
proof -
  define s where "s = t div 1000000000"
  define sod where "sod = s mod 86400"
  obtain y m d where c: "civil (s div 86400) = (y, m, d)" by (cases "civil (s div 86400)")
  have "0 \<le> s" "s < 315537897600" using assms by (simp_all add: s_def)
  then have day: "0 \<le> s div 86400" "s div 86400 < 3652059" by simp_all
  note rng = civil_spec [OF c] civil_year [OF c day]
  have sod: "0 \<le> sod" "sod < 86400" by (simp_all add: sod_def)
  define hh mm ss where "hh = sod div 3600" and "mm = sod div 60 mod 60" and "ss = sod mod 60"
  have hms: "0 \<le> hh" "hh < 10 ^ 2" "0 \<le> mm" "mm < 10 ^ 2" "0 \<le> ss" "ss < 10 ^ 2"
    using sod by (simp_all add: hh_def mm_def ss_def pos_imp_zdiv_nonneg_iff order_less_trans
        [OF pos_mod_bound])
  define f where "f = formatDateTime t"
  have f: "f = padded 4 y @ ''-'' @ padded 2 m @ ''-'' @ padded 2 d @ ''T'' @ padded 2 hh @ '':'' @
      padded 2 mm @ '':'' @ padded 2 ss"
    using c by (simp add: f_def formatDateTime_def Let_def hh_def mm_def ss_def sod_def s_def)
  have len: "length (padded 4 y) = 4" "length (padded 2 m) = 2" "length (padded 2 d) = 2"
    "length (padded 2 hh) = 2" "length (padded 2 mm) = 2" "length (padded 2 ss) = 2"
    using rng hms by (simp_all add: length_padded)
  let ?p4 = "padded 4 y @ ''-''"
  let ?p7 = "?p4 @ padded 2 m @ ''-''"
  let ?p10 = "?p7 @ padded 2 d @ ''T''"
  let ?p13 = "?p10 @ padded 2 hh @ '':''"
  let ?p16 = "?p13 @ padded 2 mm @ '':''"
  have "field 0 4 f = y"
    by (rule field_at [of _ "[]"]) (use rng in \<open>simp_all add: f\<close>)
  moreover have "field 5 2 f = m"
    by (rule field_at [of _ ?p4]) (use rng in \<open>simp_all add: f len\<close>)
  moreover have "field 8 2 f = d"
    by (rule field_at [of _ ?p7]) (use rng in \<open>simp_all add: f len\<close>)
  moreover have "field 11 2 f = hh"
    by (rule field_at [of _ ?p10]) (use hms in \<open>simp_all add: f len\<close>)
  moreover have "field 14 2 f = mm"
    by (rule field_at [of _ ?p13]) (use hms in \<open>simp_all add: f len\<close>)
  moreover have "field 17 2 f = ss"
    by (rule field_at [of _ ?p16 _ _ "[]"]) (use hms in \<open>simp_all add: f len\<close>)
  ultimately have fields: "field 0 4 f = y" "field 5 2 f = m" "field 8 2 f = d"
    "field 11 2 f = hh" "field 14 2 f = mm" "field 17 2 f = ss" .
  then have "readDateTime f = (s div 86400) * 86400 + hh * 3600 + mm * 60 + ss"
    using rng(1) by (simp add: readDateTime_def)
  also have "hh * 3600 + mm * 60 + ss = sod"
    using div_mult_mod_eq [of sod 60] div_mult_mod_eq [of "sod div 60" 60]
    unfolding hh_def mm_def ss_def div_mult2_eq' [of sod 60 60, simplified] by linarith
  then have "(s div 86400) * 86400 + hh * 3600 + mm * 60 + ss = s"
    using div_mult_mod_eq [of s 86400] unfolding sod_def by linarith
  finally show ?thesis by (simp only: f_def s_def)
qed

end
