(* ===== verification/Go_Json.thy ===== *)
theory Go_Json
  imports Go_Strconv
begin

text \<open>
  The text \<open>encoding/json\<close> writes for a string: bytes below 0x80 are copied or escaped (HTML
  characters included), valid UTF-8 sequences are copied, the line separators U+2028 and U+2029
  are escaped and every invalid byte becomes the replacement character. \<open>readString\<close> is a JSON
  string reader; the round trip shows that a valid UTF-8 string is read back unchanged, whatever
  follows it. The characters of a string are its bytes.
\<close>

abbreviation byte :: "char \<Rightarrow> nat" where
  "byte c \<equiv> of_char c"

definition quote :: char where "quote = CHR 0x22"
definition backslash :: char where "backslash = CHR 0x5C"

section \<open>Writing\<close>

text \<open>The size of the UTF-8 sequence a text starts with, \<open>None\<close> when it is invalid.\<close>

definition continues :: "nat \<Rightarrow> nat \<Rightarrow> nat list \<Rightarrow> nat \<Rightarrow> bool" where
  "continues lo hi bs n \<longleftrightarrow> n < length bs \<and> 1 < length bs \<and> lo \<le> bs ! 1 \<and> bs ! 1 \<le> hi \<and>
     (\<forall>i \<in> set [2..<Suc n]. 0x80 \<le> bs ! i \<and> bs ! i \<le> 0xBF)"

definition runeSize :: "nat list \<Rightarrow> nat option" where
  "runeSize bs = (case bs of [] \<Rightarrow> None | b # _ \<Rightarrow>
     if 0xC2 \<le> b \<and> b \<le> 0xDF \<and> continues 0x80 0xBF bs 1 then Some 2
     else if 0xE0 \<le> b \<and> b \<le> 0xEF \<and>
       continues (if b = 0xE0 then 0xA0 else 0x80) (if b = 0xED then 0x9F else 0xBF) bs 2 then Some 3
     else if 0xF0 \<le> b \<and> b \<le> 0xF4 \<and>
       continues (if b = 0xF0 then 0x90 else 0x80) (if b = 0xF4 then 0x8F else 0xBF) bs 3 then Some 4
     else None)"

definition htmlSafe :: "char \<Rightarrow> bool" where
  "htmlSafe c \<longleftrightarrow> 0x20 \<le> byte c \<and> c \<noteq> quote \<and> c \<noteq> backslash \<and>
     c \<noteq> CHR ''<'' \<and> c \<noteq> CHR ''>'' \<and> c \<noteq> CHR ''&''"

definition escByte :: "char \<Rightarrow> string" where
  "escByte c = (if htmlSafe c then [c]
     else if c = backslash \<or> c = quote then [backslash, c]
     else if byte c = 8 then [backslash, CHR ''b'']
     else if byte c = 12 then [backslash, CHR ''f'']
     else if byte c = 10 then [backslash, CHR ''n'']
     else if byte c = 13 then [backslash, CHR ''r'']
     else if byte c = 9 then [backslash, CHR ''t'']
     else [backslash, CHR ''u'', CHR ''0'', CHR ''0'', hexdigit (byte c div 16), hexdigit (byte c mod 16)])"

definition escRune :: "string \<Rightarrow> string" where
  "escRune r = (if map byte r = [0xE2, 0x80, 0xA8] then backslash # ''u2028''
     else if map byte r = [0xE2, 0x80, 0xA9] then backslash # ''u2029'' else r)"

function encBody :: "string \<Rightarrow> string" where
  "encBody [] = []"
| "encBody (c # cs) =
     (if byte c < 0x80 then escByte c @ encBody cs
      else case runeSize (map byte (c # cs)) of
          None \<Rightarrow> backslash # ''ufffd'' @ encBody cs
        | Some n \<Rightarrow> escRune (take n (c # cs)) @ encBody (drop (n - 1) cs))"
  by pat_completeness auto
termination by (relation "measure length") auto

declare encBody.simps(2) [simp del]

definition encString :: "string \<Rightarrow> string" where
  "encString s = quote # encBody s @ [quote]"

text \<open>Valid UTF-8, rune by rune.\<close>

function validUTF8 :: "string \<Rightarrow> bool" where
  "validUTF8 [] = True"
| "validUTF8 (c # cs) =
     (if byte c < 0x80 then validUTF8 cs
      else case runeSize (map byte (c # cs)) of
          None \<Rightarrow> False
        | Some n \<Rightarrow> validUTF8 (drop (n - 1) cs))"
  by pat_completeness auto
termination by (relation "measure length") auto

declare validUTF8.simps(2) [simp del]

section \<open>Reading\<close>

definition hexval :: "char \<Rightarrow> nat option" where
  "hexval c = (if 48 \<le> byte c \<and> byte c \<le> 57 then Some (byte c - 48)
     else if 97 \<le> byte c \<and> byte c \<le> 102 then Some (byte c - 87) else None)"

definition codePoint :: "char \<Rightarrow> char \<Rightarrow> char \<Rightarrow> char \<Rightarrow> nat option" where
  "codePoint a b c d = (case (hexval a, hexval b, hexval c, hexval d) of
     (Some w, Some x, Some y, Some z) \<Rightarrow> Some (((w * 16 + x) * 16 + y) * 16 + z) | _ \<Rightarrow> None)"

text \<open>The UTF-8 bytes of a code point below 0x10000.\<close>

definition utf8 :: "nat \<Rightarrow> string" where
  "utf8 n = (if n < 0x80 then [char_of n]
     else if n < 0x800 then [char_of (0xC0 + n div 64), char_of (0x80 + n mod 64)]
     else [char_of (0xE0 + n div 4096), char_of (0x80 + n div 64 mod 64), char_of (0x80 + n mod 64)])"

definition unescape :: "char \<Rightarrow> char" where
  "unescape e = (if e = CHR ''b'' then char_of (8 :: nat) else if e = CHR ''f'' then char_of (12 :: nat)
     else if e = CHR ''n'' then char_of (10 :: nat) else if e = CHR ''r'' then char_of (13 :: nat)
     else if e = CHR ''t'' then char_of (9 :: nat) else e)"

definition prepend :: "string \<Rightarrow> (string \<times> string) option \<Rightarrow> (string \<times> string) option" where
  "prepend xs r = map_option (\<lambda>(s, rest). (xs @ s, rest)) r"

fun readBody :: "string \<Rightarrow> (string \<times> string) option" where
  "readBody [] = None"
| "readBody (c # cs) =
     (if c = quote then Some ([], cs)
      else if c \<noteq> backslash then prepend [c] (readBody cs)
      else case cs of
          [] \<Rightarrow> None
        | e # cs1 \<Rightarrow> if e \<noteq> CHR ''u'' then prepend [unescape e] (readBody cs1)
            else (case cs1 of h1 # h2 # h3 # h4 # cs2 \<Rightarrow>
                  (case codePoint h1 h2 h3 h4 of None \<Rightarrow> None
                   | Some n \<Rightarrow> prepend (utf8 n) (readBody cs2))
                | _ \<Rightarrow> None))"

definition readString :: "string \<Rightarrow> (string \<times> string) option" where
  "readString s = (case s of c # cs \<Rightarrow> if c = quote then readBody cs else None | [] \<Rightarrow> None)"

section \<open>Round trip\<close>

lemma hexval_hexdigit: "d < 16 \<Longrightarrow> hexval (hexdigit d) = Some d"
  by (simp add: hexval_def hexdigit_def take_bit_nat_eq_self)

lemma prepend_prepend [simp]: "prepend xs (prepend ys r) = prepend (xs @ ys) r"
  by (cases r) (auto simp: prepend_def)

lemma prepend_Some [simp]: "prepend xs (Some (s, rest)) = Some (xs @ s, rest)"
  by (simp add: prepend_def)

lemma readBody_plain: "\<forall>c \<in> set xs. c \<noteq> quote \<and> c \<noteq> backslash \<Longrightarrow>
  readBody (xs @ r) = prepend xs (readBody r)"
proof (induction xs)
  case Nil
  then show ?case by (cases "readBody r") (auto simp: prepend_def)
qed simp

lemma backslash_quote [simp]: "backslash \<noteq> quote" "quote \<noteq> backslash"
  by (simp_all add: quote_def backslash_def)

lemma readBody_escape:
  "e \<noteq> CHR ''u'' \<Longrightarrow> readBody (backslash # e # r) = prepend [unescape e] (readBody r)"
  by (simp add: quote_def backslash_def)

lemma readBody_unicode:
  "codePoint a b c d = Some n \<Longrightarrow>
   readBody (backslash # CHR ''u'' # a # b # c # d # r) = prepend (utf8 n) (readBody r)"
  by (simp add: quote_def backslash_def)

lemma readBody_escByte:
  assumes "byte c < 0x80"
  shows "readBody (escByte c @ r) = prepend [c] (readBody r)"
proof -
  have self: "char_of (byte c) = c" by (rule char_of_char)
  have hex: "codePoint (CHR ''0'') (CHR ''0'') (hexdigit (byte c div 16)) (hexdigit (byte c mod 16)) =
      Some (byte c)"
    using assms hexval_hexdigit [of "byte c div 16"] hexval_hexdigit [of "byte c mod 16"]
    by (simp add: codePoint_def less_mult_imp_div_less) (simp add: hexval_def)
  consider "htmlSafe c" | "\<not> htmlSafe c" "c = backslash \<or> c = quote"
    | "\<not> htmlSafe c" "c \<noteq> backslash" "c \<noteq> quote" "byte c \<in> {8, 9, 10, 12, 13}"
    | "\<not> htmlSafe c" "c \<noteq> backslash" "c \<noteq> quote" "byte c \<notin> {8, 9, 10, 12, 13}"
    by blast
  then show ?thesis
  proof cases
    case 1
    then show ?thesis
      using readBody_plain [of "[c]" r] by (simp add: escByte_def htmlSafe_def)
  next
    case 2
    then have "c \<noteq> CHR ''u''" "unescape c = c"
      by (auto simp: unescape_def quote_def backslash_def)
    then show ?thesis using 2 readBody_escape [of c r] by (simp add: escByte_def)
  next
    case 3
    have "readBody (escByte c @ r) = prepend [c] (readBody r)"
      if "k \<in> {8, 9, 10, 12, 13}" "byte c = k" for k
    proof -
      have "c = char_of k" using self that(2) by metis
      moreover have "readBody (escByte c @ r) = prepend [char_of k] (readBody r)"
        using that 3(1-3) by (auto simp: escByte_def readBody_escape unescape_def simp del: readBody.simps)
      ultimately show ?thesis by simp
    qed
    then show ?thesis using 3(4) by blast
  next
    case 4
    then have "escByte c = [backslash, CHR ''u'', CHR ''0'', CHR ''0'', hexdigit (byte c div 16),
        hexdigit (byte c mod 16)]" by (simp add: escByte_def)
    then have "readBody (escByte c @ r) = prepend (utf8 (byte c)) (readBody r)"
      using readBody_unicode [OF hex, of r] by simp
    then show ?thesis using assms by (simp add: utf8_def)
  qed
qed

lemma three_sizes:
  assumes "(if P then Some 2 else if Q then Some 3 else if R then Some (4 :: nat) else None) = Some n"
  obtains "P" "n = 2" | "Q" "n = 3" | "R" "n = 4"
  using assms by (auto split: if_splits)

lemma runeSize_SomeD:
  assumes "runeSize bs = Some n"
  shows "n \<in> {2, 3, 4} \<and> n \<le> length bs \<and> (\<forall>i < n. 0x80 \<le> bs ! i)"
proof (cases bs)
  case (Cons b bs')
  have cont: "n \<le> length bs \<and> (\<forall>i < n. 0x80 \<le> bs ! i)"
    if "continues lo hi bs (n - 1)" "0x80 \<le> lo" "0x80 \<le> b" "2 \<le> n" for lo hi n
  proof (intro conjI allI impI)
    show "n \<le> length bs" using that(1,4) unfolding continues_def by linarith
    fix i assume i: "i < n"
    consider "i = 0" | "i = 1" | "2 \<le> i" by linarith
    then show "0x80 \<le> bs ! i"
    proof cases
      case 3
      with i that(1) show ?thesis by (simp add: continues_def)
    qed (use that Cons in \<open>simp_all add: continues_def\<close>)
  qed
  have "n \<in> {2, 3, 4} \<and> 0x80 \<le> b \<and> (\<exists>lo hi. 0x80 \<le> lo \<and> continues lo hi bs (n - 1))"
  proof -
    have lo: "0x80 \<le> (if x then 0xA0 else 0x80 :: nat)" "0x80 \<le> (if x then 0x90 else 0x80 :: nat)" for x
      by simp_all
    show ?thesis
    proof (rule three_sizes [OF assms [unfolded runeSize_def Cons list.case, folded Cons]])
    qed (use lo in \<open>auto simp del: if_split\<close>)
  qed
  then obtain lo hi where "n \<in> {2, 3, 4}" "0x80 \<le> b" "0x80 \<le> lo" "continues lo hi bs (n - 1)"
    by blast
  with cont [of lo hi n] show ?thesis by force
qed (use assms in \<open>simp add: runeSize_def\<close>)

lemma readBody_escRune:
  assumes "\<forall>c \<in> set u. 0x80 \<le> byte c"
  shows "readBody (escRune u @ r) = prepend u (readBody r)"
proof -
  have plain: "readBody (u @ r) = prepend u (readBody r)"
    by (rule readBody_plain) (use assms in \<open>auto simp: quote_def backslash_def\<close>)
  have inj: "u = map char_of (map byte u)" by (simp add: comp_def)
  have digits: "hexval (CHR ''2'') = Some 2" "hexval (CHR ''0'') = Some 0" by (simp_all add: hexval_def)
  have sep: "readBody (backslash # CHR ''u'' # CHR ''2'' # CHR ''0'' # CHR ''2'' # h # r) =
      prepend (map char_of [0xE2, 0x80, 0xA0 + d :: nat]) (readBody r)"
    if "h = hexdigit d" "d \<in> {8, 9}" for h d
  proof -
    have "codePoint (CHR ''2'') (CHR ''0'') (CHR ''2'') h = Some (0x2020 + d)"
      using that hexval_hexdigit [of d] digits by (auto simp: codePoint_def)
    then show ?thesis
      using that by (auto simp: readBody_unicode utf8_def simp del: readBody.simps)
  qed
  show ?thesis
  proof (cases "map byte u = [0xE2, 0x80, 0xA8] \<or> map byte u = [0xE2, 0x80, 0xA9]")
    case True
    then show ?thesis
    proof
      assume u: "map byte u = [0xE2, 0x80, 0xA8]"
      have "readBody (escRune u @ r) = prepend (map char_of (map byte u)) (readBody r)"
        unfolding u using sep [of "CHR ''8''" 8]
        by (simp add: escRune_def u hexdigit_values del: readBody.simps)
      then show ?thesis by (simp only: inj [symmetric])
    next
      assume u: "map byte u = [0xE2, 0x80, 0xA9]"
      have "readBody (escRune u @ r) = prepend (map char_of (map byte u)) (readBody r)"
        unfolding u using sep [of "CHR ''9''" 9]
        by (simp add: escRune_def u hexdigit_values del: readBody.simps)
      then show ?thesis by (simp only: inj [symmetric])
    qed
  next
    case False
    then show ?thesis using plain by (simp add: escRune_def)
  qed
qed

text \<open>A valid UTF-8 string is read back from its JSON text, whatever follows the closing quote.\<close>

lemma readBody_encBody: "validUTF8 s \<Longrightarrow> readBody (encBody s @ quote # r) = Some (s, r)"
proof (induction s rule: encBody.induct)
  case (2 c cs)
  show ?case
  proof (cases "byte c < 0x80")
    case True
    with 2 show ?thesis
      by (simp add: encBody.simps(2) validUTF8.simps(2) readBody_escByte del: readBody.simps)
  next
    case False
    with "2.prems" obtain n where n: "runeSize (map byte (c # cs)) = Some n"
      and v: "validUTF8 (drop (n - 1) cs)"
      by (auto simp: validUTF8.simps(2) split: option.splits)
    from runeSize_SomeD [OF n] have sz: "n \<in> {2, 3, 4}" "n \<le> length (c # cs)"
      and hi': "\<forall>i < n. 0x80 \<le> map byte (c # cs) ! i" by simp_all
    have hi: "\<forall>i < n. 0x80 \<le> byte ((c # cs) ! i)"
    proof (intro allI impI)
      fix i assume "i < n"
      with hi' sz(2) nth_map [of i "c # cs" byte] show "0x80 \<le> byte ((c # cs) ! i)" by force
    qed
    have "\<forall>x \<in> set (take n (c # cs)). 0x80 \<le> byte x"
      using hi by (auto simp: in_set_conv_nth)
    then have "readBody (encBody (c # cs) @ quote # r) =
        prepend (take n (c # cs)) (readBody (encBody (drop (n - 1) cs) @ quote # r))"
      using False n by (simp add: encBody.simps(2) readBody_escRune del: readBody.simps)
    also have "\<dots> = Some (take n (c # cs) @ drop (n - 1) cs, r)"
      using "2.IH"(3) [OF False n v] by simp
    also have "take n (c # cs) @ drop (n - 1) cs = c # cs"
      using sz(1) by (cases n) auto
    finally show ?thesis .
  qed
qed simp

lemma readString_encString: "validUTF8 s \<Longrightarrow> readString (encString s @ r) = Some (s, r)"
  using readBody_encBody [of s r] by (simp add: readString_def encString_def)

lemma encString_inject: "validUTF8 s \<Longrightarrow> validUTF8 t \<Longrightarrow> encString s = encString t \<longleftrightarrow> s = t"
  by (metis readString_encString option.inject prod.inject)

end
