(* ===== verification/Retry.thy ===== *)
theory Retry
  imports Message Backoff Idgen Go_Time Go_Json
begin

text \<open>
  The Scheduled Retry helpers of the consumer: the retry count carried in the \<open>retry_count\<close>
  attribute (\<open>retrycount.go\<close>), the message attributes of a re-published or dead-lettered message,
  the retry scheduler (\<open>retry_scheduler.go\<close>) and the DLQ publisher (\<open>dlq_publisher.go\<close>).

  The locale \<open>attribute_builder\<close> is what both publishers need of the attributes they build; the two
  builders interpret it. A client call appends its event to the trace and answers from it; the
  generator, the clock and the clients are arguments.
\<close>

definition retryCountAttribute :: string where "retryCountAttribute = ''retry_count''"
definition maxMessageAttributes :: int where "maxMessageAttributes = 10"
definition numberDataType :: string where "numberDataType = ''Number''"
definition stringDataType :: string where "stringDataType = ''String''"
definition messageGroupIDKey :: string where "messageGroupIDKey = ''MessageGroupId''"

section \<open>The retry count\<close>

definition parseRetryCount :: "message \<Rightarrow> go_int \<times> trace" where
  "parseRetryCount msg = (let raw = UserMessageAttribute msg retryCountAttribute in
     if raw = [] then (0, [])
     else let malformed = (0, [Log LevelError ''malformed retry_count attribute; defaulting to 0''
              [(''receipt_handle'', LStr (Identifier msg)), (''retry_count'', LStr raw)]])
       in case atoi raw of None \<Rightarrow> malformed
          | Some value \<Rightarrow> if value <s 0 then malformed else (value, []))"

lemma parseRetryCount_nonneg: "0 \<le> sint (fst (parseRetryCount msg))"
  by (simp add: parseRetryCount_def Let_def go_sint split: option.split)

lemma parseRetryCount_quiet: "commits (snd (parseRetryCount msg)) = []"
  "metrics_of (snd (parseRetryCount msg)) = []" "schedules (snd (parseRetryCount msg)) = []"
  "sends (snd (parseRetryCount msg)) = []"
  by (simp_all add: parseRetryCount_def Let_def split: option.split)

text \<open>
  The retry count is read back exactly: a message whose \<open>retry_count\<close> attribute holds the
  decimal text of a non-negative number yields that number and logs nothing; whatever the attribute
  holds, the count read is not negative, an absent or empty attribute counts as zero silently, and
  only a text that is not a non-negative 64-bit number is logged, and counted as zero.
\<close>

theorem retry_count_is_read_back:
  "0 \<le> sint (fst (parseRetryCount msg)) \<and>
   (UserMessageAttribute msg retryCountAttribute = itoa n \<and> 0 \<le> sint n \<longrightarrow>
      parseRetryCount msg = (n, [])) \<and>
   (UserMessageAttribute msg retryCountAttribute = [] \<longrightarrow> parseRetryCount msg = (0, [])) \<and>
   (snd (parseRetryCount msg) \<noteq> [] \<longleftrightarrow> UserMessageAttribute msg retryCountAttribute \<noteq> [] \<and>
      (\<forall>v. atoi (UserMessageAttribute msg retryCountAttribute) = Some v \<longrightarrow> sint v < 0)) \<and>
   (snd (parseRetryCount msg) \<noteq> [] \<longrightarrow> fst (parseRetryCount msg) = 0)"
  by (simp add: parseRetryCount_def Let_def go_sint split: option.split)

lemma retry_count_is_read_back_witness:
  "parseRetryCount (example_message\<lparr>original := (original example_message)
     \<lparr>smMessageAttributes := [(''retry_count'', Some (itoa 7))]\<rparr>\<rparr>) = (7, [])"
  using retry_count_is_read_back [of "example_message\<lparr>original := (original example_message)
     \<lparr>smMessageAttributes := [(''retry_count'', Some (itoa 7))]\<rparr>\<rparr>" 7]
  by (simp add: UserMessageAttribute_def retryCountAttribute_def)

section \<open>Attributes\<close>

definition number :: "go_int \<Rightarrow> attr_value" where
  "number n = \<lparr>dataType = numberDataType, stringValue = itoa n\<rparr>"

definition textual :: "string \<Rightarrow> attr_value" where
  "textual v = \<lparr>dataType = stringDataType, stringValue = v\<rparr>"

text \<open>The loop over the user attributes, with \<open>remaining\<close> slots left.\<close>

fun retryLoop :: "string gomap \<Rightarrow> int \<Rightarrow> attr_value gomap \<Rightarrow> attr_value gomap" where
  "retryLoop [] remaining attrs = attrs"
| "retryLoop ((key, v) # rest) remaining attrs =
     (if key = retryCountAttribute then retryLoop rest remaining attrs
      else if remaining \<le> 0 then attrs
      else retryLoop rest (remaining - 1) (store key (textual v) attrs))"

definition buildRetryAttributes :: "string gomap \<Rightarrow> go_int \<Rightarrow> attr_value gomap" where
  "buildRetryAttributes userAttrs next' =
     store retryCountAttribute (number next') (retryLoop userAttrs (maxMessageAttributes - 1) [])"

fun dlqLoop :: "string gomap \<Rightarrow> string list \<Rightarrow> attr_value gomap \<Rightarrow> attr_value gomap" where
  "dlqLoop userAttrs [] attrs = attrs"
| "dlqLoop userAttrs (k # ks) attrs =
     (if maxMessageAttributes \<le> int (length attrs) then attrs
      else dlqLoop userAttrs ks (store k (textual (at_key userAttrs k)) attrs))"

definition buildDLQAttributes :: "string gomap \<Rightarrow> go_int \<Rightarrow> attr_value gomap" where
  "buildDLQAttributes userAttrs next' =
     (let attrs = [(retryCountAttribute, number next')];
          keys = filter (\<lambda>k. k \<noteq> retryCountAttribute) (map fst userAttrs)
      in dlqLoop userAttrs (sort keys) attrs)"

text \<open>The user attributes a message with the built attributes is received with.\<close>

definition redelivered :: "attr_value gomap \<Rightarrow> string gomap" where
  "redelivered attrs = map (\<lambda>(k, a). (k, stringValue a)) attrs"

definition others :: "string gomap \<Rightarrow> string list" where
  "others m = filter (\<lambda>k. k \<noteq> retryCountAttribute) (map fst m)"

lemma lookup_redelivered: "lookup (redelivered m) k = map_option stringValue (lookup m k)"
  by (induction m) (auto simp: redelivered_def)

lemma keys_redelivered: "map fst (redelivered m) = map fst m"
  by (induction m) (auto simp: redelivered_def)

locale attribute_builder =
  fixes build :: "string gomap \<Rightarrow> go_int \<Rightarrow> attr_value gomap"
  assumes build_wf: "wf_map m \<Longrightarrow> wf_map (build m n)"
    and build_count: "wf_map m \<Longrightarrow> lookup (build m n) retryCountAttribute = Some (number n)"
    and build_cap: "wf_map m \<Longrightarrow> length (build m n) \<le> 10"
    and build_from: "wf_map m \<Longrightarrow> k \<noteq> retryCountAttribute \<Longrightarrow>
      lookup (build m n) k = None \<or> lookup (build m n) k = map_option textual (lookup m k)"
    and build_all: "wf_map m \<Longrightarrow> length (others m) \<le> 9 \<Longrightarrow> k \<noteq> retryCountAttribute \<Longrightarrow>
      lookup (build m n) k = map_option textual (lookup m k)"
begin

lemma others_build: "wf_map m \<Longrightarrow> length (others (redelivered (build m n))) \<le> 9"
proof -
  assume wf: "wf_map m"
  have "retryCountAttribute \<in> set (map fst (build m n))"
    using build_count [OF wf, of n] by (metis domI dom_map_of_conv_image_fst image_set)
  then have "length (others (redelivered (build m n))) < length (map fst (build m n))"
    unfolding others_def keys_redelivered by (intro length_filter_less) auto
  then show ?thesis using build_cap [OF wf, of n] by simp
qed

text \<open>
  Once a message has gone through a build, building again from what it is received with changes
  nothing but the count: no further attribute is ever lost.
\<close>

lemma rebuild:
  assumes "wf_map m"
  shows "lookup (build (redelivered (build m n)) n') =
    (lookup (build m n))(retryCountAttribute \<mapsto> number n')"
proof
  fix k
  have wf: "wf_map (redelivered (build m n))"
    using build_wf [OF assms] by (simp add: wf_map_def keys_redelivered)
  show "lookup (build (redelivered (build m n)) n') k =
    ((lookup (build m n))(retryCountAttribute \<mapsto> number n')) k"
  proof (cases "k = retryCountAttribute")
    case True
    then show ?thesis using build_count [OF wf] by simp
  next
    case False
    with build_all [OF wf others_build [OF assms]]
    have "lookup (build (redelivered (build m n)) n') k =
      map_option textual (map_option stringValue (lookup (build m n) k))"
      by (simp add: lookup_redelivered)
    also have "\<dots> = lookup (build m n) k"
      using build_from [OF assms False, of n]
      by (cases "lookup m k") (auto simp: textual_def)
    finally show ?thesis using False by simp
  qed
qed

end

section \<open>The two builders\<close>

abbreviation storeAll :: "string gomap \<Rightarrow> attr_value gomap \<Rightarrow> attr_value gomap" where
  "storeAll kvs attrs \<equiv> fold (\<lambda>(k, v) m. store k (textual v) m) kvs attrs"

lemma length_storeAll: "length (storeAll kvs attrs) \<le> length attrs + length kvs"
proof (induction kvs arbitrary: attrs)
  case (Cons p kvs)
  obtain k v where p: "p = (k, v)" by force
  have "length (store k (textual v) attrs) \<le> Suc (length attrs)" by (simp add: length_store)
  with Cons.IH [of "store k (textual v) attrs"] show ?case by (simp add: p)
qed simp

lemma retryLoop_take:
  "retryLoop m r attrs =
   storeAll (take (nat r) (filter (\<lambda>p. fst p \<noteq> retryCountAttribute) m)) attrs"
proof (induction m r attrs rule: retryLoop.induct)
  case (2 key v rest r attrs)
  then show ?case by (cases "nat r") (auto simp: nat_diff_distrib)
qed simp

lemma lookup_filter_key:
  "k \<noteq> x \<Longrightarrow> lookup (filter (\<lambda>p. fst p \<noteq> x) m) k = lookup m k"
  by (induction m) auto

lemma lookup_take: "wf_map m \<Longrightarrow> lookup (take n m) k = None \<or> lookup (take n m) k = lookup m k"
proof -
  assume "wf_map m"
  then have "wf_map (take n m)" by (simp add: wf_map_def take_map [symmetric])
  then show ?thesis
    using \<open>wf_map m\<close> by (cases "lookup (take n m) k")
      (auto simp: wf_map_def dest!: map_of_SomeD in_set_takeD)
qed

lemma wf_filter: "wf_map m \<Longrightarrow> wf_map (filter P m)"
  by (simp add: wf_map_def distinct_map_filter)

lemma wf_take: "wf_map m \<Longrightarrow> wf_map (take n m)"
  by (simp add: wf_map_def take_map [symmetric])

lemma lookup_storeAll:
  "wf_map kvs \<Longrightarrow> lookup (storeAll kvs attrs) k =
     (case lookup kvs k of Some v \<Rightarrow> Some (textual v) | None \<Rightarrow> lookup attrs k)"
  by (rule lookup_fold_store)

lemma length_others: "length (others m) = length (filter (\<lambda>p. fst p \<noteq> retryCountAttribute) m)"
  by (induction m) (auto simp: others_def)

interpretation rb: attribute_builder buildRetryAttributes
proof
  fix m :: "string gomap" and n k
  assume wf: "wf_map m"
  define kept where "kept = take 9 (filter (\<lambda>p. fst p \<noteq> retryCountAttribute) m)"
  have build: "buildRetryAttributes m n = store retryCountAttribute (number n) (storeAll kept [])" for n
    by (simp add: buildRetryAttributes_def retryLoop_take kept_def maxMessageAttributes_def)
  have wfk: "wf_map kept" using wf by (simp add: kept_def wf_take wf_filter)
  show "wf_map (buildRetryAttributes m n)"
    by (simp add: build wf_store wf_fold_store)
  show "lookup (buildRetryAttributes m n) retryCountAttribute = Some (number n)"
    by (simp add: build)
  show "length (buildRetryAttributes m n) \<le> 10"
    using length_storeAll [of kept "[]"] by (simp add: build length_store kept_def)
  have look: "lookup (buildRetryAttributes m n) k = map_option textual (lookup kept k)"
    if "k \<noteq> retryCountAttribute" for n
    using that by (simp add: build lookup_storeAll wfk split: option.split)
  show "lookup (buildRetryAttributes m n) k = None \<or>
      lookup (buildRetryAttributes m n) k = map_option textual (lookup m k)"
    if "k \<noteq> retryCountAttribute"
    using look [OF that] lookup_take [OF wf_filter [OF wf], of 9 "\<lambda>p. fst p \<noteq> retryCountAttribute" k]
    by (auto simp: kept_def lookup_filter_key that)
  show "lookup (buildRetryAttributes m n) k = map_option textual (lookup m k)"
    if "length (others m) \<le> 9" "k \<noteq> retryCountAttribute"
    using look [OF that(2)] that by (simp add: kept_def length_others lookup_filter_key)
qed

lemma dlqLoop_take:
  assumes "distinct ks" and "\<forall>k \<in> set ks. k \<notin> fst ` set attrs"
  shows "dlqLoop u ks attrs = storeAll (map (\<lambda>k. (k, at_key u k)) (take (10 - length attrs) ks)) attrs"
  using assms
proof (induction u ks attrs rule: dlqLoop.induct)
  case (2 u k ks attrs)
  show ?case
  proof (cases "maxMessageAttributes \<le> int (length attrs)")
    case True
    then show ?thesis by (simp add: maxMessageAttributes_def)
  next
    case False
    then obtain r where r: "10 - length attrs = Suc r" "10 - length (store k (textual (at_key u k)) attrs) = r"
      using "2.prems" by (cases "10 - length attrs") (auto simp: maxMessageAttributes_def length_store)
    have "\<forall>k' \<in> set ks. k' \<notin> fst ` set (store k (textual (at_key u k)) attrs)"
      using "2.prems" unfolding keys_store by auto
    with "2.IH" [OF False] "2.prems"(1) False r show ?thesis by simp
  qed
qed simp

definition dlqKeys :: "string gomap \<Rightarrow> string list" where
  "dlqKeys m = take 9 (sort (others m))"

lemma buildDLQAttributes_storeAll:
  assumes "wf_map m"
  shows "buildDLQAttributes m n =
    storeAll (map (\<lambda>k. (k, at_key m k)) (dlqKeys m)) [(retryCountAttribute, number n)]"
proof -
  have d: "distinct (sort (others m))"
    using assms by (simp add: others_def wf_map_def)
  have "\<forall>k \<in> set (sort (others m)). k \<notin> fst ` set [(retryCountAttribute, number n)]"
    by (auto simp: others_def)
  from dlqLoop_take [OF d this] show ?thesis
    by (simp add: buildDLQAttributes_def Let_def dlqKeys_def flip: others_def)
qed

lemma lookup_keyed: "lookup (map (\<lambda>k. (k, f k)) ks) k = (if k \<in> set ks then Some (f k) else None)"
  by (induction ks) auto

lemma lookup_DLQ:
  assumes "wf_map m"
  shows "lookup (buildDLQAttributes m n) k =
    (if k = retryCountAttribute then Some (number n)
     else if k \<in> set (dlqKeys m) then map_option textual (lookup m k) else None)"
proof -
  have sub: "set (dlqKeys m) \<subseteq> set (others m)"
    using set_take_subset [of 9 "sort (others m)"] by (simp add: dlqKeys_def)
  have "wf_map (map (\<lambda>k. (k, at_key m k)) (dlqKeys m))"
    using assms by (simp add: wf_map_def dlqKeys_def others_def comp_def)
  moreover have "Some (at_key m k) = lookup m k" if "k \<in> set (dlqKeys m)"
  proof -
    from that sub have "k \<in> fst ` set m" by (auto simp: others_def)
    then have "lookup m k \<noteq> None" by (simp add: map_of_eq_None_iff)
    then show ?thesis by (auto simp: at_key_def)
  qed
  ultimately show ?thesis
    using sub by (auto simp: buildDLQAttributes_storeAll [OF assms] lookup_storeAll lookup_keyed
        others_def map_option_case split: option.split)
qed

interpretation db: attribute_builder buildDLQAttributes
proof
  fix m :: "string gomap" and n k
  assume wf: "wf_map m"
  note build = buildDLQAttributes_storeAll [OF wf] and look = lookup_DLQ [OF wf]
  show "wf_map (buildDLQAttributes m n)"
    unfolding build by (rule wf_fold_store) (simp add: wf_map_def)
  show "lookup (buildDLQAttributes m n) retryCountAttribute = Some (number n)"
    by (simp add: look)
  show "length (buildDLQAttributes m n) \<le> 10"
    using length_storeAll [of "map (\<lambda>k. (k, at_key m k)) (dlqKeys m)" "[(retryCountAttribute, number n)]"]
    by (simp add: build dlqKeys_def)
  show "lookup (buildDLQAttributes m n) k = None \<or>
      lookup (buildDLQAttributes m n) k = map_option textual (lookup m k)"
    if "k \<noteq> retryCountAttribute"
    using that by (simp add: look)
  show "lookup (buildDLQAttributes m n) k = map_option textual (lookup m k)"
    if "length (others m) \<le> 9" "k \<noteq> retryCountAttribute"
  proof -
    have "set (dlqKeys m) = set (others m)" using that by (simp add: dlqKeys_def)
    moreover have "k \<notin> set (others m) \<Longrightarrow> lookup m k = None"
      using that(2) by (auto simp: others_def map_of_eq_None_iff)
    ultimately show ?thesis using that(2) by (auto simp: look)
  qed
qed

text \<open>
  C17: The attributes of a re-published and of a dead-lettered message: the retry count is always
  there and is the new one, there are never more than ten, every other one is an attribute of the
  original with its value, none is lost when the original has at most nine others, and once a
  message has gone through either builder no later round loses anything.
\<close>

theorem retry_attributes_kept:
  assumes "build \<in> {buildRetryAttributes, buildDLQAttributes}" and "wf_map m"
  shows "lookup (build m n) retryCountAttribute = Some (number n) \<and> length (build m n) \<le> 10 \<and>
    (\<forall>k. k \<noteq> retryCountAttribute \<longrightarrow>
       lookup (build m n) k = None \<or> lookup (build m n) k = map_option textual (lookup m k)) \<and>
    (length (others m) \<le> 9 \<longrightarrow>
       lookup (build m n) = (map_option textual \<circ> lookup m)(retryCountAttribute \<mapsto> number n)) \<and>
    lookup (build (redelivered (build m n)) n') = (lookup (build m n))(retryCountAttribute \<mapsto> number n')"
proof -
  have ab: "attribute_builder build"
    using assms(1) rb.attribute_builder_axioms db.attribute_builder_axioms by blast
  show ?thesis
    using attribute_builder.build_count [OF ab assms(2), of n]
      attribute_builder.build_cap [OF ab assms(2), of n]
      attribute_builder.build_from [OF ab assms(2), of _ n]
      attribute_builder.build_all [OF ab assms(2), of _ n]
      attribute_builder.rebuild [OF ab assms(2), of n n']
    by (simp add: fun_eq_iff)
qed

lemma retry_attributes_kept_witness:
  "lookup (buildRetryAttributes [(''a'', ''x''), (''retry_count'', ''2'')] 3) retryCountAttribute =
     Some (number 3) \<and>
   lookup (buildDLQAttributes [(''a'', ''x''), (''retry_count'', ''2'')] 3) ''a'' = Some (textual ''x'')"
proof -
  have "wf_map [(''a'', ''x''), (''retry_count'', ''2'')]" by (simp add: wf_map_def)
  note kept = retry_attributes_kept [OF _ this]
  show ?thesis
    using kept [of buildRetryAttributes 3] kept [of buildDLQAttributes 3]
    by (simp add: others_def retryCountAttribute_def)
qed

text \<open>
  Dead-letter attributes are deterministic: they do not depend on the iteration order of the
  user attributes, and when there are more than nine others the ones kept are the first nine in key
  order.
\<close>

theorem dlq_attributes_deterministic:
  assumes "wf_map m" and "mset m = mset m'"
  shows "buildDLQAttributes m n = buildDLQAttributes m' n \<and>
    {k. k \<noteq> retryCountAttribute \<and> lookup (buildDLQAttributes m n) k \<noteq> None} =
      set (take 9 (sort (filter (\<lambda>k. k \<noteq> retryCountAttribute) (map fst m))))"
proof -
  have "mset (map fst m) = mset (map fst m')" using assms(2) by (rule keys_perm)
  then have "mset (others m) = mset (others m')" unfolding others_def mset_filter by (simp only:)
  then have "sort (others m) = sort (others m')" by (rule sort_perm)
  then have keys: "dlqKeys m = dlqKeys m'" by (simp only: dlqKeys_def)
  have wf': "wf_map m'" using assms wf_map_perm by blast
  have "buildDLQAttributes m n = buildDLQAttributes m' n"
    unfolding buildDLQAttributes_storeAll [OF assms(1)] buildDLQAttributes_storeAll [OF wf'] keys
      at_key_perm [OF assms] ..
  moreover have sub: "set (dlqKeys m) \<subseteq> set (others m)"
    using set_take_subset [of 9 "sort (others m)"] by (simp add: dlqKeys_def)
  have "{k. k \<noteq> retryCountAttribute \<and> lookup (buildDLQAttributes m n) k \<noteq> None} = set (dlqKeys m)"
  proof -
    have "k \<in> set (dlqKeys m) \<Longrightarrow> k \<noteq> retryCountAttribute \<and> lookup m k \<noteq> None" for k
      using sub by (auto simp: others_def map_of_eq_None_iff)
    then show ?thesis by (auto simp: lookup_DLQ [OF assms(1)])
  qed
  ultimately show ?thesis by (simp add: dlqKeys_def others_def)
qed

lemma dlq_attributes_deterministic_witness:
  "buildDLQAttributes [(''b'', ''1''), (''a'', ''2'')] 4 = buildDLQAttributes [(''a'', ''2''), (''b'', ''1'')] 4"
  by (rule dlq_attributes_deterministic [THEN conjunct1]) (simp_all add: wf_map_def)

section \<open>The re-publish request\<close>

record sqs_request =
  rqMessageAttributes :: "attr_value gomap"
  rqQueueURL :: string
  rqMessageBody :: string
  rqMessageGroupID :: string
  rqMessageDeduplicationID :: string

text \<open>\<open>json.Marshal\<close> of the request: struct fields in order, map keys sorted.\<close>

definition jkey :: "string \<Rightarrow> string" where
  "jkey k = quote # k @ [quote, CHR '':'']"

definition encAttr :: "attr_value \<Rightarrow> string" where
  "encAttr a = CHR ''{'' # jkey ''DataType'' @ encString (dataType a) @ CHR '','' #
     jkey ''StringValue'' @ encString (stringValue a) @ [CHR ''}'']"

fun encPairs :: "attr_value gomap \<Rightarrow> string" where
  "encPairs [] = [CHR ''}'']"
| "encPairs [(k, a)] = encString k @ CHR '':'' # encAttr a @ [CHR ''}'']"
| "encPairs ((k, a) # p # ps) = encString k @ CHR '':'' # encAttr a @ CHR '','' # encPairs (p # ps)"

definition marshalRequest :: "sqs_request \<Rightarrow> err + string" where
  "marshalRequest r = Inr (CHR ''{'' #
     (if rqMessageAttributes r = [] then []
      else jkey ''MessageAttributes'' @ CHR ''{'' # encPairs (sort_key fst (rqMessageAttributes r)) @ '','') @
     jkey ''QueueUrl'' @ encString (rqQueueURL r) @ CHR '','' #
     jkey ''MessageBody'' @ encString (rqMessageBody r) @ CHR '','' #
     jkey ''MessageGroupId'' @ encString (rqMessageGroupID r) @ CHR '','' #
     jkey ''MessageDeduplicationId'' @ encString (rqMessageDeduplicationID r) @ [CHR ''}''])"

text \<open>A reader of such a request: what EventBridge Scheduler passes to SendMessage.\<close>

definition lit :: "string \<Rightarrow> string \<Rightarrow> string option" where
  "lit p s = (if take (length p) s = p then Some (drop (length p) s) else None)"

definition readMember :: "string \<Rightarrow> string \<Rightarrow> (string \<times> string) option" where
  "readMember k s = Option.bind (lit (jkey k) s) readString"

definition readAttr :: "string \<Rightarrow> (attr_value \<times> string) option" where
  "readAttr s = Option.bind (lit ''{'' s) (\<lambda>s. Option.bind (readMember ''DataType'' s) (\<lambda>(d, s).
     Option.bind (lit '','' s) (\<lambda>s. Option.bind (readMember ''StringValue'' s) (\<lambda>(v, s).
     Option.bind (lit ''}'' s) (\<lambda>s. Some (\<lparr>dataType = d, stringValue = v\<rparr>, s))))))"

primrec readPairs :: "nat \<Rightarrow> string \<Rightarrow> (attr_value gomap \<times> string) option" where
  "readPairs 0 s = None"
| "readPairs (Suc fuel) s = Option.bind (readString s) (\<lambda>(k, s).
     Option.bind (lit '':'' s) (\<lambda>s. Option.bind (readAttr s) (\<lambda>(a, s).
     case s of [] \<Rightarrow> None
     | c # s \<Rightarrow> if c = CHR '','' then map_option (\<lambda>(ps, s). ((k, a) # ps, s)) (readPairs fuel s)
               else if c = CHR ''}'' then Some ([(k, a)], s) else None)))"

definition readRequest :: "string \<Rightarrow> sqs_request option" where
  "readRequest s = Option.bind (lit (CHR ''{'' # jkey ''MessageAttributes'' @ ''{'') s) (\<lambda>s.
     Option.bind (readPairs (length s) s) (\<lambda>(attrs, s).
     Option.bind (lit '','' s) (\<lambda>s. Option.bind (readMember ''QueueUrl'' s) (\<lambda>(u, s).
     Option.bind (lit '','' s) (\<lambda>s. Option.bind (readMember ''MessageBody'' s) (\<lambda>(b, s).
     Option.bind (lit '','' s) (\<lambda>s. Option.bind (readMember ''MessageGroupId'' s) (\<lambda>(g, s).
     Option.bind (lit '','' s) (\<lambda>s. Option.bind (readMember ''MessageDeduplicationId'' s) (\<lambda>(d, s).
     if s = ''}'' then Some \<lparr>rqMessageAttributes = attrs, rqQueueURL = u, rqMessageBody = b,
       rqMessageGroupID = g, rqMessageDeduplicationID = d\<rparr> else None))))))))))"

lemma lit_append [simp]: "lit p (p @ s) = Some s"
  by (simp add: lit_def)

lemma lit_Cons [simp]: "lit [c] (c # s) = Some s"
  by (simp add: lit_def)

lemma readMember_enc [simp]:
  "validUTF8 v \<Longrightarrow> readMember k (jkey k @ encString v @ s) = Some (v, s)"
  by (simp add: readMember_def readString_encString)

definition valid_attr :: "attr_value \<Rightarrow> bool" where
  "valid_attr a \<longleftrightarrow> validUTF8 (dataType a) \<and> validUTF8 (stringValue a)"

lemma readAttr_enc [simp]: "valid_attr a \<Longrightarrow> readAttr (encAttr a @ s) = Some (a, s)"
  by (simp add: valid_attr_def readAttr_def encAttr_def)

lemma readPairs_enc:
  "ps \<noteq> [] \<Longrightarrow> \<forall>(k, a) \<in> set ps. validUTF8 k \<and> valid_attr a \<Longrightarrow> length ps \<le> fuel \<Longrightarrow>
   readPairs fuel (encPairs ps @ s) = Some (ps, s)"
proof (induction ps arbitrary: fuel rule: encPairs.induct)
  case (2 k a)
  then show ?case by (cases fuel) (simp_all add: readString_encString)
next
  case (3 k a p ps)
  then show ?case by (cases fuel) (simp_all add: readString_encString)
qed simp

lemma length_encPairs: "length ps \<le> length (encPairs ps)"
  by (induction ps rule: encPairs.induct) simp_all

definition valid_request :: "sqs_request \<Rightarrow> bool" where
  "valid_request r \<longleftrightarrow> rqMessageAttributes r \<noteq> [] \<and>
     (\<forall>(k, a) \<in> set (rqMessageAttributes r). validUTF8 k \<and> valid_attr a) \<and>
     validUTF8 (rqQueueURL r) \<and> validUTF8 (rqMessageBody r) \<and> validUTF8 (rqMessageGroupID r) \<and>
     validUTF8 (rqMessageDeduplicationID r)"

lemma readRequest_marshal:
  assumes "valid_request r"
  shows "\<exists>input. marshalRequest r = Inr input \<and>
    readRequest input = Some (r\<lparr>rqMessageAttributes := sort_key fst (rqMessageAttributes r)\<rparr>)"
proof -
  define ps where "ps = sort_key fst (rqMessageAttributes r)"
  have "length ps = length (rqMessageAttributes r)" and set: "set ps = set (rqMessageAttributes r)"
    by (simp_all add: ps_def)
  then have ne: "ps \<noteq> []" using assms by (auto simp: valid_request_def)
  have valid: "\<forall>(k, a) \<in> set ps. validUTF8 k \<and> valid_attr a"
    using assms unfolding set valid_request_def by blast
  define rest where "rest = CHR '','' # jkey ''QueueUrl'' @ encString (rqQueueURL r) @ CHR '','' #
     jkey ''MessageBody'' @ encString (rqMessageBody r) @ CHR '','' #
     jkey ''MessageGroupId'' @ encString (rqMessageGroupID r) @ CHR '','' #
     jkey ''MessageDeduplicationId'' @ encString (rqMessageDeduplicationID r) @ [CHR ''}'']"
  have input: "marshalRequest r = Inr ((CHR ''{'' # jkey ''MessageAttributes'' @ ''{'') @ encPairs ps @ rest)"
    using assms by (simp add: marshalRequest_def valid_request_def ps_def rest_def)
  have pairs: "readPairs (length (encPairs ps @ rest)) (encPairs ps @ rest) = Some (ps, rest)"
    by (rule readPairs_enc [OF ne valid]) (simp add: length_encPairs le_trans [OF length_encPairs])
  have "readRequest ((CHR ''{'' # jkey ''MessageAttributes'' @ ''{'') @ encPairs ps @ rest) =
      Some (r\<lparr>rqMessageAttributes := ps\<rparr>)"
    unfolding readRequest_def lit_append Option.bind.simps pairs prod.case
    using assms by (simp add: rest_def valid_request_def)
  then show ?thesis using input by (simp add: ps_def)
qed

section \<open>The retry scheduler\<close>

definition universalSQSSendMessageARN :: string where
  "universalSQSSendMessageARN = ''arn:aws:scheduler:::aws-sdk:sqs:sendMessage''"

record retryScheduler =
  rsClient :: scheduler_client
  rsIdgen :: generator
  rsNow :: "trace \<Rightarrow> int"
  rsTargetQueueARN :: string
  rsExecutionRoleARN :: string
  rsTargetQueueURL :: string

definition newRetryScheduler ::
  "scheduler_client \<Rightarrow> string \<Rightarrow> string \<Rightarrow> string \<Rightarrow> generator \<Rightarrow> (trace \<Rightarrow> int) \<Rightarrow> retryScheduler" where
  "newRetryScheduler client arn role url gen now = \<lparr>rsClient = client, rsIdgen = gen, rsNow = now,
     rsTargetQueueARN = arn, rsExecutionRoleARN = role, rsTargetQueueURL = url\<rparr>"

definition retryRequest :: "retryScheduler \<Rightarrow> message \<Rightarrow> go_int \<Rightarrow> string \<Rightarrow> sqs_request" where
  "retryRequest rs msg next' dedupID =
     \<lparr>rqMessageAttributes = buildRetryAttributes (UserMessageAttributes msg) next',
      rqQueueURL = rsTargetQueueURL rs, rqMessageBody = Body msg,
      rqMessageGroupID = SystemAttributeByKey msg messageGroupIDKey,
      rqMessageDeduplicationID = dedupID\<rparr>"

definition retrySchedule :: "retryScheduler \<Rightarrow> string \<Rightarrow> string \<Rightarrow> int \<Rightarrow> schedule_input" where
  "retrySchedule rs dedupID input fireAt =
     \<lparr>csName = dedupID, csScheduleExpression = ''at('' @ formatDateTime fireAt @ '')'',
      csActionAfterCompletion = ''DELETE'', csFlexibleMode = ''OFF'',
      csTargetArn = universalSQSSendMessageARN, csTargetRoleArn = rsExecutionRoleARN rs,
      csTargetInput = input\<rparr>"

definition schedule :: "retryScheduler \<Rightarrow> trace \<Rightarrow> message \<Rightarrow> go_int \<Rightarrow> duration \<Rightarrow> err option \<times> trace" where
  "schedule rs t msg next' backoff = (case rsIdgen rs t [] of
     Inl e \<Rightarrow> (Some (wrapS ErrRetryScheduleCreate e), t)
   | Inr dedupID \<Rightarrow>
     (case marshalRequest (retryRequest rs msg next' dedupID) of
       Inl e \<Rightarrow> (Some (wrapS ErrRetryScheduleCreate e), t)
     | Inr input \<Rightarrow>
       (let fireAt = scheduleAt (rsNow rs t) backoff;
            t = t @ [CallSchedule (retrySchedule rs dedupID input fireAt)]
        in case createSchedule (rsClient rs) t of
             Some e \<Rightarrow> (Some (wrapS ErrRetryScheduleCreate e), t)
           | None \<Rightarrow> (None, t))))"

section \<open>The DLQ publisher\<close>

record dlqPublisher =
  dpClient :: "sqs_message sqs_client"
  dpDedup :: generator
  dpQueueURL :: string

definition newDLQPublisher :: "sqs_message sqs_client \<Rightarrow> string \<Rightarrow> generator \<Rightarrow> dlqPublisher" where
  [simp]: "newDLQPublisher cl queueURL dedup = \<lparr>dpClient = cl, dpDedup = dedup, dpQueueURL = queueURL\<rparr>"

definition dlqInput :: "dlqPublisher \<Rightarrow> trace \<Rightarrow> message \<Rightarrow> go_int \<Rightarrow> err + send_input" where
  "dlqInput p t msg next' =
     (let input = \<lparr>siQueueUrl = dpQueueURL p, siMessageBody = Body msg,
            siMessageAttributes = buildDLQAttributes (UserMessageAttributes msg) next',
            siMessageGroupId = None, siMessageDeduplicationId = None\<rparr>;
          groupID = SystemAttributeByKey msg messageGroupIDKey
      in if groupID = [] then Inr input
         else case dpDedup p t (UserMessageAttributes msg) of
             Inl e \<Rightarrow> Inl (wrapS ErrDLQPublish e)
           | Inr dedupID \<Rightarrow> Inr (input\<lparr>siMessageGroupId := Some groupID,
               siMessageDeduplicationId := Some dedupID\<rparr>))"

definition publish :: "dlqPublisher \<Rightarrow> trace \<Rightarrow> message \<Rightarrow> go_int \<Rightarrow> err option \<times> trace" where
  "publish p t msg next' = (case dlqInput p t msg next' of
       Inl e \<Rightarrow> (Some e, t)
     | Inr input \<Rightarrow> (let t = t @ [CallSend input] in
         case sendMessage (dpClient p) t of
           Some e \<Rightarrow> (Some (wrapS ErrDLQPublish e), t)
         | None \<Rightarrow> (None, t)))"

section \<open>What is published\<close>

lemma validUTF8_ascii: "\<forall>c \<in> set s. byte c < 0x80 \<Longrightarrow> validUTF8 s"
  by (induction s) (simp_all add: validUTF8.simps(2))

lemma itoa_ascii: "\<forall>c \<in> set (itoa n). byte c < 0x80"
proof
  fix c assume c: "c \<in> set (itoa n)"
  have "is_digit d \<Longrightarrow> byte d < 0x80" for d by (simp add: is_digit_def)
  then show "byte c < 0x80"
    using c digits10_digits by (auto simp: itoa_def Let_def split: if_splits)
qed

lemma valid_itoa [simp]: "validUTF8 (itoa n)"
  by (rule validUTF8_ascii [OF itoa_ascii])

lemma valid_retry_attributes:
  assumes wf: "wf_map m" and valid: "\<forall>(k, v) \<in> set m. validUTF8 k \<and> validUTF8 v"
  shows "\<forall>(k, a) \<in> set (buildRetryAttributes m n). validUTF8 k \<and> valid_attr a"
proof (intro ballI, clarify)
  fix k a
  assume "(k, a) \<in> set (buildRetryAttributes m n)"
  then have look: "lookup (buildRetryAttributes m n) k = Some a"
    using rb.build_wf [OF wf] by (simp add: wf_map_def)
  have lits: "validUTF8 retryCountAttribute" "validUTF8 numberDataType" "validUTF8 stringDataType"
    by (simp_all add: validUTF8_ascii retryCountAttribute_def numberDataType_def stringDataType_def)
  show "validUTF8 k \<and> valid_attr a"
  proof (cases "k = retryCountAttribute")
    case True
    then show ?thesis
      using look rb.build_count [OF wf, of n] lits
      by (auto simp: valid_attr_def number_def)
  next
    case False
    with look rb.build_from [OF wf False, of n] obtain v where "lookup m k = Some v" "a = textual v"
      by (cases "lookup m k") auto
    then show ?thesis using valid lits by (auto simp: valid_attr_def textual_def dest: map_of_SomeD)
  qed
qed

definition valid_message :: "message \<Rightarrow> bool" where
  "valid_message msg \<longleftrightarrow> validUTF8 (Body msg) \<and> validUTF8 (SystemAttributeByKey msg messageGroupIDKey) \<and>
     (\<forall>(k, v) \<in> set (UserMessageAttributes msg). validUTF8 k \<and> validUTF8 v)"

text \<open>The schedule a successful call has created, and the valid request in its input.\<close>

lemma schedule_creates:
  assumes "valid_message msg" and "validUTF8 (rsTargetQueueURL rs)"
    and "\<forall>s. rsIdgen rs t [] = Inr s \<longrightarrow> validUTF8 s"
    and "schedule rs t msg n backoff = (None, t')"
  obtains dedupID input where "rsIdgen rs t [] = Inr dedupID"
    "valid_request (retryRequest rs msg n dedupID)" "marshalRequest (retryRequest rs msg n dedupID) = Inr input"
    "t' = t @ [CallSchedule (retrySchedule rs dedupID input (scheduleAt (rsNow rs t) backoff))]"
proof -
  let ?attrs = "buildRetryAttributes (UserMessageAttributes msg) n"
  obtain dedupID where id: "rsIdgen rs t [] = Inr dedupID"
    using assms(4) by (auto simp: schedule_def split: sum.splits)
  define r where "r = retryRequest rs msg n dedupID"
  have "lookup ?attrs retryCountAttribute \<noteq> None" using rb.build_count [of "UserMessageAttributes msg" n] by simp
  then have "?attrs \<noteq> []" by auto
  moreover have "\<forall>(k, a) \<in> set ?attrs. validUTF8 k \<and> valid_attr a"
    using assms(1) by (intro valid_retry_attributes) (simp_all add: valid_message_def)
  ultimately have valid: "valid_request r"
    using assms(1,2) assms(3) id
    by (simp add: valid_request_def r_def retryRequest_def valid_message_def)
  obtain input where input: "marshalRequest r = Inr input"
    using readRequest_marshal [OF valid] by blast
  have "t' = t @ [CallSchedule (retrySchedule rs dedupID input (scheduleAt (rsNow rs t) backoff))]"
    using assms(4) input id by (simp add: schedule_def r_def Let_def split: option.split_asm)
  with id valid input show thesis unfolding r_def by (rule that)
qed

text \<open>
  C16: A schedule that is created re-publishes the message: exactly one CreateSchedule call is made;
  its input, read as JSON, is a SendMessage request to the target queue with the original body, the
  original group id, the generated deduplication id (which also names the schedule) and the retry
  attributes; and its \<open>at()\<close> expression reads as the whole second of now plus the delay. The
  strings of the message, as SQS requires, the queue URL and the generated id are valid UTF-8.
\<close>

theorem scheduled_retry_is_the_message:
  assumes "valid_message msg" and "validUTF8 (rsTargetQueueURL rs)"
    and "\<And>t m s. rsIdgen rs t m = Inr s \<Longrightarrow> validUTF8 s"
    and "0 \<le> scheduleAt (rsNow rs t) backoff" "scheduleAt (rsNow rs t) backoff < 315537897600 * 1000000000"
    and "schedule rs t msg n backoff = (None, t')"
  shows "\<exists>i req time. t' = t @ [CallSchedule i] \<and> readRequest (csTargetInput i) = Some req \<and>
    rqQueueURL req = rsTargetQueueURL rs \<and> rqMessageBody req = Body msg \<and>
    rqMessageGroupID req = SystemAttributeByKey msg messageGroupIDKey \<and>
    rsIdgen rs t [] = Inr (rqMessageDeduplicationID req) \<and> csName i = rqMessageDeduplicationID req \<and>
    lookup (rqMessageAttributes req) = lookup (buildRetryAttributes (UserMessageAttributes msg) n) \<and>
    csScheduleExpression i = ''at('' @ time @ '')'' \<and>
    readDateTime time = scheduleAt (rsNow rs t) backoff div 1000000000"
proof -
  let ?attrs = "buildRetryAttributes (UserMessageAttributes msg) n"
  obtain dedupID input where c: "rsIdgen rs t [] = Inr dedupID"
    "valid_request (retryRequest rs msg n dedupID)" "marshalRequest (retryRequest rs msg n dedupID) = Inr input"
    "t' = t @ [CallSchedule (retrySchedule rs dedupID input (scheduleAt (rsNow rs t) backoff))]"
    using schedule_creates [OF assms(1,2) _ assms(6)] assms(3) by blast
  have input: "readRequest input = Some (retryRequest rs msg n dedupID\<lparr>rqMessageAttributes := sort_key fst ?attrs\<rparr>)"
    using readRequest_marshal [OF c(2)] c(3) by (simp add: retryRequest_def)
  have "lookup (sort_key fst ?attrs) = lookup ?attrs"
    by (rule lookup_perm [OF rb.build_wf, symmetric]) simp_all
  with c input read_formatDateTime [OF assms(4,5)] show ?thesis
    by (intro exI conjI) (auto simp: retryRequest_def retrySchedule_def)
qed

text \<open>
  The outcome of both calls: an error always matches the sentinel of the operation, at most one call
  is made, and there is no error exactly when the call was made and accepted.
\<close>

lemma schedule_cases:
  obtains e where "schedule rs t msg n b = (Some e, t)" "errIs e ErrRetryScheduleCreate"
  | i e where "schedule rs t msg n b = (Some e, t @ [CallSchedule i])" "errIs e ErrRetryScheduleCreate"
      "createSchedule (rsClient rs) (t @ [CallSchedule i]) \<noteq> None"
  | i where "schedule rs t msg n b = (None, t @ [CallSchedule i])"
      "createSchedule (rsClient rs) (t @ [CallSchedule i]) = None"
proof (cases "rsIdgen rs t []")
  case (Inl e)
  then show thesis by (intro that(1) [of "wrapS ErrRetryScheduleCreate e"]) (simp_all add: schedule_def)
next
  case (Inr dedupID)
  obtain input where input: "marshalRequest (retryRequest rs msg n dedupID) = Inr input"
    by (simp add: marshalRequest_def)
  define i where "i = retrySchedule rs dedupID input (scheduleAt (rsNow rs t) b)"
  have s: "schedule rs t msg n b = (case createSchedule (rsClient rs) (t @ [CallSchedule i]) of
      Some e \<Rightarrow> (Some (wrapS ErrRetryScheduleCreate e), t @ [CallSchedule i])
    | None \<Rightarrow> (None, t @ [CallSchedule i]))"
    unfolding schedule_def Inr sum.case input Let_def i_def ..
  show thesis
  proof (cases "createSchedule (rsClient rs) (t @ [CallSchedule i])")
    case None
    then show thesis by (intro that(3) [of i]) (simp_all add: s)
  next
    case (Some e)
    then show thesis by (intro that(2) [of "wrapS ErrRetryScheduleCreate e" i]) (simp_all add: s)
  qed
qed

lemma publish_cases:
  obtains e where "publish p t msg n = (Some e, t)" "errIs e ErrDLQPublish"
  | i e where "publish p t msg n = (Some e, t @ [CallSend i])" "errIs e ErrDLQPublish"
      "sendMessage (dpClient p) (t @ [CallSend i]) \<noteq> None"
  | i where "publish p t msg n = (None, t @ [CallSend i])"
      "sendMessage (dpClient p) (t @ [CallSend i]) = None"
proof (cases "dlqInput p t msg n")
  case (Inl e)
  then have "errIs e ErrDLQPublish"
    by (auto simp: dlqInput_def Let_def split: if_splits sum.splits)
  with Inl show thesis by (intro that(1) [of e]) (simp_all add: publish_def)
next
  case (Inr i)
  then have s: "publish p t msg n = (case sendMessage (dpClient p) (t @ [CallSend i]) of
      Some e \<Rightarrow> (Some (wrapS ErrDLQPublish e), t @ [CallSend i]) | None \<Rightarrow> (None, t @ [CallSend i]))"
    by (simp add: publish_def Let_def)
  show thesis
  proof (cases "sendMessage (dpClient p) (t @ [CallSend i])")
    case None
    then show thesis by (intro that(3) [of i]) (simp_all add: s)
  next
    case (Some e)
    then show thesis by (intro that(2) [of "wrapS ErrDLQPublish e" i]) (simp_all add: s)
  qed
qed

text \<open>
  A dead-letter publish that succeeds has sent exactly one message: the original body and the
  dead-letter attributes to the configured queue, for a FIFO message with its group id and the
  generated deduplication id and otherwise with neither. Any failure of either publisher matches
  its sentinel error, and makes at most the one call.
\<close>

theorem publishers_outcome:
  "(publish p t msg n = (None, t') \<longrightarrow>
     (\<exists>i. t' = t @ [CallSend i] \<and> siQueueUrl i = dpQueueURL p \<and> siMessageBody i = Body msg \<and>
        siMessageAttributes i = buildDLQAttributes (UserMessageAttributes msg) n \<and>
        (if SystemAttributeByKey msg messageGroupIDKey = []
         then siMessageGroupId i = None \<and> siMessageDeduplicationId i = None
         else siMessageGroupId i = Some (SystemAttributeByKey msg messageGroupIDKey) \<and>
           (\<exists>d. dpDedup p t (UserMessageAttributes msg) = Inr d \<and> siMessageDeduplicationId i = Some d)))) \<and>
   (publish p t msg n = (Some e, t') \<longrightarrow>
     errIs e ErrDLQPublish \<and> (t' = t \<or> (\<exists>i. t' = t @ [CallSend i]))) \<and>
   (schedule rs t msg n b = (Some e, t') \<longrightarrow>
     errIs e ErrRetryScheduleCreate \<and> (t' = t \<or> (\<exists>i. t' = t @ [CallSchedule i])))"
proof (intro conjI impI)
  assume "publish p t msg n = (None, t')"
  then obtain i where i: "dlqInput p t msg n = Inr i" "t' = t @ [CallSend i]"
    by (auto simp: publish_def Let_def split: sum.splits option.splits)
  have "siQueueUrl i = dpQueueURL p \<and> siMessageBody i = Body msg \<and>
        siMessageAttributes i = buildDLQAttributes (UserMessageAttributes msg) n \<and>
        (if SystemAttributeByKey msg messageGroupIDKey = []
         then siMessageGroupId i = None \<and> siMessageDeduplicationId i = None
         else siMessageGroupId i = Some (SystemAttributeByKey msg messageGroupIDKey) \<and>
           (\<exists>d. dpDedup p t (UserMessageAttributes msg) = Inr d \<and> siMessageDeduplicationId i = Some d))"
    using i(1) by (auto simp: dlqInput_def Let_def split: if_splits sum.splits)
  with i(2) show "\<exists>i. t' = t @ [CallSend i] \<and> siQueueUrl i = dpQueueURL p \<and> siMessageBody i = Body msg \<and>
        siMessageAttributes i = buildDLQAttributes (UserMessageAttributes msg) n \<and>
        (if SystemAttributeByKey msg messageGroupIDKey = []
         then siMessageGroupId i = None \<and> siMessageDeduplicationId i = None
         else siMessageGroupId i = Some (SystemAttributeByKey msg messageGroupIDKey) \<and>
           (\<exists>d. dpDedup p t (UserMessageAttributes msg) = Inr d \<and> siMessageDeduplicationId i = Some d))"
    by blast
next
  assume "publish p t msg n = (Some e, t')"
  then have "errIs e ErrDLQPublish \<and> (t' = t \<or> (\<exists>i. t' = t @ [CallSend i]))"
    by (cases rule: publish_cases [of p t msg n]) auto
  then show "errIs e ErrDLQPublish" "t' = t \<or> (\<exists>i. t' = t @ [CallSend i])" by simp_all
next
  assume "schedule rs t msg n b = (Some e, t')"
  then have "errIs e ErrRetryScheduleCreate \<and> (t' = t \<or> (\<exists>i. t' = t @ [CallSchedule i]))"
    by (cases rule: schedule_cases [of rs t msg n b]) auto
  then show "errIs e ErrRetryScheduleCreate" "t' = t \<or> (\<exists>i. t' = t @ [CallSchedule i])"
    by simp_all
qed

section \<open>Witnesses\<close>

definition exampleScheduler :: retryScheduler where
  "exampleScheduler = newRetryScheduler \<lparr>createSchedule = (\<lambda>t. None)\<rparr> ''arn:q'' ''arn:role'' ''https://q''
     (\<lambda>t m. Inr ''id-1'') (\<lambda>t. 0)"

definition examplePublisher :: dlqPublisher where
  "examplePublisher = \<lparr>dpClient = quietClient, dpDedup = (\<lambda>t m. Inr ''id-2''), dpQueueURL = ''https://dlq''\<rparr>"

lemma example_message_values:
  "Body example_message = ''hi''" "SystemAttributeByKey example_message messageGroupIDKey = ''g1''"
  "UserMessageAttributes example_message = [(''retry_count'', ''2'')]"
  by (simp_all add: example_message_def newMessage_def Body_def SystemAttributeByKey_def
      messageGroupIDKey_def UserMessageAttributes_def)

lemma publishers_outcome_witness:
  "\<exists>i. snd (publish examplePublisher [] example_message 3) = [CallSend i] \<and> siMessageBody i = ''hi'' \<and>
     siMessageGroupId i = Some ''g1''"
proof -
  have ok: "fst (publish examplePublisher [] example_message 3) = None"
    by (simp add: publish_def dlqInput_def Let_def examplePublisher_def quietClient_def
        example_message_values)
  define t' where "t' = snd (publish examplePublisher [] example_message 3)"
  have "publish examplePublisher [] example_message 3 = (None, t')"
    using ok by (simp add: t'_def prod_eq_iff)
  from publishers_outcome [THEN conjunct1, THEN mp, OF this]
  have "\<exists>i. t' = [CallSend i] \<and> siMessageBody i = ''hi'' \<and> siMessageGroupId i = Some ''g1''"
    by (auto simp: example_message_values)
  then show ?thesis by (simp add: t'_def)
qed

lemma scheduled_retry_is_the_message_witness:
  "\<exists>i req. snd (schedule exampleScheduler [] example_message 3 5000000000) = [CallSchedule i] \<and>
     readRequest (csTargetInput i) = Some req \<and> rqMessageBody req = ''hi''"
proof -
  have ok: "fst (schedule exampleScheduler [] example_message 3 5000000000) = None"
    by (simp add: schedule_def Let_def exampleScheduler_def newRetryScheduler_def marshalRequest_def)
  define t' where "t' = snd (schedule exampleScheduler [] example_message 3 5000000000)"
  have run: "schedule exampleScheduler [] example_message 3 5000000000 = (None, t')"
    using ok by (simp add: t'_def prod_eq_iff)
  have msg: "valid_message example_message"
    by (simp add: valid_message_def example_message_values validUTF8_ascii)
  have url: "validUTF8 (rsTargetQueueURL exampleScheduler)"
    by (simp add: exampleScheduler_def newRetryScheduler_def validUTF8_ascii)
  have ids: "validUTF8 s" if "rsIdgen exampleScheduler t m = Inr s" for t m s
    using that by (auto simp: exampleScheduler_def newRetryScheduler_def validUTF8_ascii)
  have time: "scheduleAt (rsNow exampleScheduler []) 5000000000 = 5000000000"
    by (simp add: scheduleAt_def exampleScheduler_def newRetryScheduler_def Let_def)
  show ?thesis
    using scheduled_retry_is_the_message [OF msg url ids _ _ run, unfolded time]
    by (fastforce simp: example_message_values t'_def)
qed

end
