(* ===== verification/Visibility.thy ===== *)
theory Visibility
  imports Message
begin

text \<open>
  The visibility goroutine of one in-flight message (\<open>src/consumer/visibility.go\<close>).

  \<^item> \<open>interval\<close> and \<open>changeVisibility\<close> are the code's, on 32-bit seconds.
  \<^item> \<open>visLoop\<close> is the \<open>for\<close> loop of \<open>run\<close>, driven by the list of signals its \<open>select\<close> receives, in
    order; its result is whether the loop returned, with the trace. The scheduled-aware select has
    no backoff case, so a backoff signal leaves it waiting.
  \<^item> \<open>vis_step\<close> is the goroutine together with its environment (the handler's \<open>Backoff\<close> and
    \<open>Dispatch\<close>, the ticker, the cancellation of the context) as interleaved steps.

  \<open>int32(delay.Seconds())\<close> goes through a float64. It truncates exactly below 2^22 seconds; \<open>conv\<close>
  stands for the conversion from there on, where rounding and, beyond 32 bits, the machine decide.
\<close>

definition visibilityRenewalMargin :: go_int32 where "visibilityRenewalMargin = 10"
definition maxVisibilityTimeout :: go_int32 where "maxVisibilityTimeout = 12 * 60 * 60"
definition minVisibilityBound :: go_int32 where "minVisibilityBound = 0"

lemmas visibility_consts = visibilityRenewalMargin_def maxVisibilityTimeout_def minVisibilityBound_def

record visibilityManager =
  vmClient :: "sqs_message sqs_client"
  vmQueueURL :: string
  vmSleepInterval :: duration
  vmExtensionLimit :: go_int
  vmVisibilityTimeout :: go_int32
  vmScheduled :: bool

definition newVisibilityManager ::
  "sqs_message sqs_client \<Rightarrow> string \<Rightarrow> go_int32 \<Rightarrow> go_int \<Rightarrow> visibilityManager" where
  "newVisibilityManager client url timeout limit =
     \<lparr>vmClient = client, vmQueueURL = url, vmSleepInterval = 0, vmExtensionLimit = limit,
      vmVisibilityTimeout = timeout, vmScheduled = False\<rparr>"

definition newScheduledVisibilityManager ::
  "sqs_message sqs_client \<Rightarrow> string \<Rightarrow> go_int32 \<Rightarrow> go_int \<Rightarrow> visibilityManager" where
  "newScheduledVisibilityManager client url timeout limit =
     (newVisibilityManager client url timeout limit)\<lparr>vmScheduled := True\<rparr>"

definition interval :: "visibilityManager \<Rightarrow> duration" where
  "interval v = (if 0 <s vmSleepInterval v then vmSleepInterval v
     else let seconds = vmVisibilityTimeout v - visibilityRenewalMargin;
              seconds = (if seconds <s 1 then 1 else seconds)
          in word_of_int (sint seconds) * second)"

definition clampTimeout :: "go_int32 \<Rightarrow> go_int32" where
  "clampTimeout timeout =
     (let timeout = (if timeout <s minVisibilityBound then minVisibilityBound else timeout)
      in if maxVisibilityTimeout <s timeout then maxVisibilityTimeout else timeout)"

definition changeVisibility :: "visibilityManager \<Rightarrow> string \<Rightarrow> go_int32 \<Rightarrow> trace \<Rightarrow> trace" where
  "changeVisibility v handle timeout t =
     (let timeout = clampTimeout timeout;
          t = t @ [CallChangeVisibility (vmQueueURL v) handle timeout]
      in case changeMessageVisibility (vmClient v) t of
           None \<Rightarrow> t
         | Some e \<Rightarrow> t @ [Log LevelError ''failed to change message visibility''
             [(''queue_url'', LStr (vmQueueURL v)), (''receipt_handle'', LStr handle),
              (''visibility_timeout'', LInt (sint timeout)), (''error'', LErr e)]])"

definition backoffSeconds :: "(duration \<Rightarrow> go_int32) \<Rightarrow> duration \<Rightarrow> go_int32" where
  "backoffSeconds conv delay = (let s = sint delay sdiv 1000000000 in
     if \<bar>s\<bar> < 2 ^ 22 then word_of_int s else conv delay)"

datatype signal = CtxDone | BackoffSignal duration | DispatchSignal | Tick

fun visLoop :: "(duration \<Rightarrow> go_int32) \<Rightarrow> visibilityManager \<Rightarrow> string \<Rightarrow> signal list \<Rightarrow>
    go_int \<Rightarrow> go_int32 \<Rightarrow> trace \<Rightarrow> bool \<times> trace" where
  "visLoop conv v handle sigs cnt extension t =
     (if vmExtensionLimit v <s cnt then (True, t)
      else case sigs of
          [] \<Rightarrow> (False, t)
        | CtxDone # _ \<Rightarrow> (True, t)
        | DispatchSignal # _ \<Rightarrow> (True, t)
        | BackoffSignal delay # rest \<Rightarrow>
            if vmScheduled v then visLoop conv v handle rest cnt extension t
            else (True, changeVisibility v handle (backoffSeconds conv delay) t)
        | Tick # rest \<Rightarrow>
            (let extension = (if 0 <s cnt then extension + vmVisibilityTimeout v else extension)
             in visLoop conv v handle rest (cnt + 1) extension
                  (changeVisibility v handle extension t)))"

declare visLoop.simps [simp del]

definition visRun :: "(duration \<Rightarrow> go_int32) \<Rightarrow> visibilityManager \<Rightarrow> string \<Rightarrow> signal list \<Rightarrow>
    trace \<Rightarrow> bool \<times> trace" where
  "visRun conv v handle sigs t = visLoop conv v handle sigs 0 (vmVisibilityTimeout v) t"

section \<open>The calls made\<close>

fun visibilityCalls :: "trace \<Rightarrow> go_int32 list" where
  "visibilityCalls [] = []"
| "visibilityCalls (CallChangeVisibility q h n # es) = n # visibilityCalls es"
| "visibilityCalls (e # es) = visibilityCalls es"

lemma visibilityCalls_append [simp]:
  "visibilityCalls (es @ fs) = visibilityCalls es @ visibilityCalls fs"
  by (induction es rule: visibilityCalls.induct) auto

lemma calls_changeVisibility [simp]:
  "visibilityCalls (changeVisibility v h n t) = visibilityCalls t @ [clampTimeout n]"
  by (simp add: changeVisibility_def Let_def split: option.split)

lemma sint_clampTimeout:
  "sint (clampTimeout n) = max 0 (min 43200 (sint n))"
  by (simp add: clampTimeout_def Let_def visibility_consts go_sint max_def min_def)

text \<open>How many of the signals are ticks.\<close>

definition ticks :: "signal list \<Rightarrow> nat" where
  "ticks sigs = length (filter (\<lambda>s. s = Tick) sigs)"

lemma visLoop_calls:
  assumes "0 \<le> sint cnt" and "sint (vmExtensionLimit v) < 2 ^ 63 - 1"
    and "visLoop conv v h sigs cnt extension t = (r, t')"
  shows "\<exists>cs. visibilityCalls t' = visibilityCalls t @ cs \<and>
    int (length cs) \<le> max 0 (sint (vmExtensionLimit v) - sint cnt + 1) \<and>
    (\<forall>n \<in> set cs. 0 \<le> sint n \<and> sint n \<le> 43200)"
  using assms(1,3)
proof (induction sigs arbitrary: cnt extension t)
  case Nil
  then show ?case by (auto simp: visLoop.simps split: if_splits)
next
  case (Cons s sigs)
  have one: "0 \<le> sint (clampTimeout n) \<and> sint (clampTimeout n) \<le> 43200" for n
    by (simp add: sint_clampTimeout)
  show ?case
  proof (cases "vmExtensionLimit v <s cnt")
    case True
    with Cons.prems show ?thesis by (auto simp: visLoop.simps)
  next
    case False
    show ?thesis
    proof (cases s)
      case (BackoffSignal delay)
      show ?thesis
      proof (cases "vmScheduled v")
        case True
        with Cons False BackoffSignal show ?thesis by (auto simp: visLoop.simps [of _ _ _ "_ # _"])
      next
        case sched: False
        with Cons.prems False BackoffSignal have "t' = changeVisibility v h (backoffSeconds conv delay) t"
          by (simp add: visLoop.simps)
        then show ?thesis using one False by (simp add: go_sint)
      qed
    next
      case Tick
      define e where "e = (if 0 <s cnt then extension + vmVisibilityTimeout v else extension)"
      have "sint cnt < 2 ^ 63 - 1" using False assms(2) by (simp add: go_sint)
      then have c: "sint (cnt + 1) = sint cnt + 1"
        using Cons.prems(1) by (subst sint64_add) simp_all
      have "visLoop conv v h sigs (cnt + 1) e (changeVisibility v h e t) = (r, t')"
        using Cons.prems(2) False Tick by (simp add: visLoop.simps [of _ _ _ "_ # _"] flip: e_def)
      moreover have "0 \<le> sint (cnt + 1)" using Cons.prems(1) c by simp
      ultimately obtain cs where
        "visibilityCalls t' = visibilityCalls (changeVisibility v h e t) @ cs"
        "int (length cs) \<le> max 0 (sint (vmExtensionLimit v) - sint (cnt + 1) + 1)"
        "\<forall>n \<in> set cs. 0 \<le> sint n \<and> sint n \<le> 43200"
        using Cons.IH by blast
      moreover have "sint cnt \<le> sint (vmExtensionLimit v)" using False by (simp add: go_sint)
      ultimately show ?thesis
        using one c by (intro exI [of _ "clampTimeout e # cs"]) (simp add: max_def split: if_splits)
    qed (use Cons.prems False in \<open>auto simp: visLoop.simps\<close>)
  qed
qed

text \<open>When the loop returns.\<close>

definition stops :: "visibilityManager \<Rightarrow> signal \<Rightarrow> bool" where
  "stops v s \<longleftrightarrow> (case s of CtxDone \<Rightarrow> True | DispatchSignal \<Rightarrow> True
     | BackoffSignal d \<Rightarrow> \<not> vmScheduled v | Tick \<Rightarrow> False)"

lemma stops_simps [simp]: "stops v CtxDone" "stops v DispatchSignal" "\<not> stops v Tick"
  "stops v (BackoffSignal d) \<longleftrightarrow> \<not> vmScheduled v"
  by (simp_all add: stops_def)

lemma ticks_simps [simp]: "ticks [] = 0" "ticks (s # sigs) = (if s = Tick then 1 else 0) + ticks sigs"
  by (simp_all add: ticks_def)

lemma visLoop_returns:
  assumes "0 \<le> sint cnt" and "sint (vmExtensionLimit v) < 2 ^ 63 - 1"
  shows "fst (visLoop conv v h sigs cnt extension t) \<longleftrightarrow>
    (\<exists>s \<in> set sigs. stops v s) \<or> sint (vmExtensionLimit v) < sint cnt + int (ticks sigs)"
  using assms(1)
proof (induction sigs arbitrary: cnt extension t)
  case Nil
  then show ?case by (simp add: visLoop.simps go_sint)
next
  case (Cons s sigs)
  show ?case
  proof (cases "vmExtensionLimit v <s cnt")
    case True
    then show ?thesis by (simp add: visLoop.simps go_sint)
  next
    case False
    then have "sint cnt < 2 ^ 63 - 1" using assms(2) by (simp add: go_sint)
    then have c: "sint (cnt + 1) = sint cnt + 1"
      using Cons.prems by (subst sint64_add) simp_all
    show ?thesis
    proof (cases s)
      case Tick
      have "0 \<le> sint (cnt + 1)" using Cons.prems c by simp
      from Cons.IH [OF this] show ?thesis
        using False Tick c by (simp add: visLoop.simps [of _ _ _ "_ # _"] Let_def algebra_simps)
    next
      case (BackoffSignal d)
      then show ?thesis
        using False Cons.IH [OF Cons.prems]
        by (simp add: visLoop.simps [of _ _ _ "_ # _"])
    qed (use False in \<open>simp_all add: visLoop.simps [of _ _ _ "_ # _"]\<close>)
  qed
qed

lemma interval_positive: "0 < sint (interval v)"
proof (cases "0 <s vmSleepInterval v")
  case True
  then show ?thesis by (simp add: interval_def go_sint)
next
  case False
  define sec where "sec = (let s = vmVisibilityTimeout v - visibilityRenewalMargin in if s <s 1 then 1 else s)"
  have sec: "1 \<le> sint sec" "sint sec < 2 ^ 31"
    using sint32_range [of sec] by (simp_all add: sec_def Let_def go_sint)
  have w: "sint (word_of_int (sint sec) :: duration) = sint sec" using sec by (intro sint64_of_int) simp_all
  have sd: "sint second = 1000000000" by (simp add: second_def)
  have "sint (word_of_int (sint sec) * second) = sint sec * 1000000000"
    by (subst sint64_mult; simp only: w sd; use sec in simp)
  then show ?thesis using False sec by (simp add: interval_def Let_def sec_def)
qed

text \<open>
  C18: The visibility goroutine always terminates and never exceeds its budget. With a limit of n it
  makes at most n + 1 ChangeMessageVisibility calls, each with a timeout in [0, 43200]; it returns
  exactly when it has received the end of the context, the dispatch signal or, outside the
  scheduled mode, a backoff, or when it has ticked more than n times; and its ticker never panics,
  since the interval is positive for every visibility timeout.
\<close>

theorem visibility_calls_bounded:
  assumes "0 \<le> sint (vmExtensionLimit v)" and "sint (vmExtensionLimit v) < 2 ^ 63 - 1"
    and "visRun conv v h sigs t = (returned, t')"
  shows "(\<exists>cs. visibilityCalls t' = visibilityCalls t @ cs \<and>
      int (length cs) \<le> sint (vmExtensionLimit v) + 1 \<and> (\<forall>n \<in> set cs. 0 \<le> sint n \<and> sint n \<le> 43200)) \<and>
    (returned \<longleftrightarrow> (\<exists>s \<in> set sigs. stops v s) \<or> sint (vmExtensionLimit v) < int (ticks sigs)) \<and>
    0 < sint (interval v)"
proof -
  have run: "visLoop conv v h sigs 0 (vmVisibilityTimeout v) t = (returned, t')"
    using assms(3) by (simp add: visRun_def)
  have "max 0 (sint (vmExtensionLimit v) - sint (0 :: go_int) + 1) = sint (vmExtensionLimit v) + 1"
    using assms(1) by simp
  with visLoop_calls [OF _ assms(2) run] visLoop_returns [OF _ assms(2), of 0 conv h sigs "vmVisibilityTimeout v" t]
    run interval_positive [of v] show ?thesis by simp
qed

section \<open>The values\<close>

definition exampleManager :: visibilityManager where
  "exampleManager = newVisibilityManager quietClient ''q'' 30 2"

lemma visibility_calls_bounded_witness:
  "\<exists>cs. visibilityCalls (snd (visRun (\<lambda>d. 0) exampleManager ''h'' [Tick, Tick, BackoffSignal 5000000000] [])) = cs \<and>
     length cs \<le> 3 \<and> fst (visRun (\<lambda>d. 0) exampleManager ''h'' [Tick, Tick, BackoffSignal 5000000000] [])"
proof -
  obtain r t' where run: "visRun (\<lambda>d. 0) exampleManager ''h'' [Tick, Tick, BackoffSignal 5000000000] [] = (r, t')"
    by force
  have limit: "sint (vmExtensionLimit exampleManager) = 2" and s: "\<not> vmScheduled exampleManager"
    by (simp_all add: exampleManager_def newVisibilityManager_def)
  show ?thesis
    using visibility_calls_bounded [OF _ _ run] by (simp add: limit s run)
qed

text \<open>
  What a list of signals makes the loop ask for: it hears the signals up to the first that ends it; of the ticks
  among them it renews on the first \<open>n + 1\<close>, for a limit of \<open>n\<close>; and a backoff that ends it is heard only while
  the limit is not exceeded.
\<close>

definition heard :: "visibilityManager \<Rightarrow> signal list \<Rightarrow> nat" where
  "heard v sigs = ticks (takeWhile (\<lambda>s. \<not> stops v s) sigs)"

definition renewals :: "visibilityManager \<Rightarrow> signal list \<Rightarrow> nat" where
  "renewals v sigs = min (heard v sigs) (nat (sint (vmExtensionLimit v) + 1))"

definition renewal :: "visibilityManager \<Rightarrow> nat \<Rightarrow> go_int32" where
  "renewal v i = clampTimeout (of_nat (Suc i) * vmVisibilityTimeout v)"

definition backoffCall :: "(duration \<Rightarrow> go_int32) \<Rightarrow> visibilityManager \<Rightarrow> nat \<Rightarrow> signal list \<Rightarrow> go_int32 list" where
  "backoffCall conv v k sigs = (if int (k + heard v sigs) \<le> sint (vmExtensionLimit v) then
     (case dropWhile (\<lambda>s. \<not> stops v s) sigs of
        BackoffSignal delay # _ \<Rightarrow> [clampTimeout (backoffSeconds conv delay)] | _ \<Rightarrow> [])
     else [])"

lemma heard_simps [simp]: "heard v [] = 0"
  "heard v (s # sigs) = (if stops v s then 0 else (if s = Tick then 1 else 0) + heard v sigs)"
  by (simp_all add: heard_def)

lemma backoffCall_Cons:
  "\<not> stops v s \<Longrightarrow> backoffCall conv v k (s # sigs) = backoffCall conv v (if s = Tick then Suc k else k) sigs"
  by (simp add: backoffCall_def)

lemma visLoop_values:
  assumes "sint (vmExtensionLimit v) < 2 ^ 63 - 1"
    and "visLoop conv v h sigs cnt extension t = (r, t')"
    and "sint cnt = int k" and "extension = of_nat (max 1 k) * vmVisibilityTimeout v"
  shows "visibilityCalls t' = visibilityCalls t @
    map (renewal v) [k..<min (k + heard v sigs) (nat (sint (vmExtensionLimit v) + 1))] @ backoffCall conv v k sigs"
  using assms(2-4)
proof (induction sigs arbitrary: cnt extension t k)
  case Nil
  then show ?case by (auto simp: visLoop.simps backoffCall_def split: if_splits)
next
  case (Cons s sigs)
  show ?case
  proof (cases "vmExtensionLimit v <s cnt")
    case True
    then have "sint (vmExtensionLimit v) < int k" using Cons.prems(2) by (simp add: go_sint)
    then have "nat (sint (vmExtensionLimit v) + 1) \<le> k" "backoffCall conv v k (s # sigs) = []"
      by (simp_all add: backoffCall_def)
    then have "min (k + heard v (s # sigs)) (nat (sint (vmExtensionLimit v) + 1)) \<le> k" "backoffCall conv v k (s # sigs) = []"
      by (simp_all only: min.coboundedI2)
    moreover have "t' = t" using Cons.prems(1) True by (simp add: visLoop.simps)
    ultimately show ?thesis by simp
  next
    case False
    then have le: "int k \<le> sint (vmExtensionLimit v)" using Cons.prems(2) by (simp add: go_sint)
    show ?thesis
    proof (cases s)
      case Tick
      define e where "e = (if 0 <s cnt then extension + vmVisibilityTimeout v else extension)"
      have c: "sint (cnt + 1) = int (Suc k)"
        using Cons.prems(2) le assms(1) by (subst sint64_add) simp_all
      have e: "e = of_nat (Suc k) * vmVisibilityTimeout v"
        using Cons.prems(2,3) by (cases k) (simp_all add: e_def go_sint algebra_simps)
      have run: "visLoop conv v h sigs (cnt + 1) e (changeVisibility v h e t) = (r, t')"
        using Cons.prems(1) False Tick by (simp add: visLoop.simps [of _ _ _ "_ # _"] flip: e_def)
      have "e = of_nat (max 1 (Suc k)) * vmVisibilityTimeout v" by (simp add: e)
      from Cons.IH [OF run c this] have "visibilityCalls t' = visibilityCalls t @ renewal v k #
          map (renewal v) [Suc k..<min (Suc k + heard v sigs) (nat (sint (vmExtensionLimit v) + 1))] @
          backoffCall conv v (Suc k) sigs" by (simp add: renewal_def e)
      moreover have "[k..<min (Suc k + heard v sigs) (nat (sint (vmExtensionLimit v) + 1))] =
          k # [Suc k..<min (Suc k + heard v sigs) (nat (sint (vmExtensionLimit v) + 1))]"
        using le by (intro upt_conv_Cons) (simp add: min_def nat_less_iff zless_nat_eq_int_zless)
      ultimately show ?thesis using Tick by (simp add: backoffCall_Cons)
    next
      case (BackoffSignal delay)
      show ?thesis
      proof (cases "vmScheduled v")
        case True
        then have "visLoop conv v h sigs cnt extension t = (r, t')"
          using Cons.prems(1) False BackoffSignal by (simp add: visLoop.simps [of _ _ _ "_ # _"])
        from Cons.IH [OF this Cons.prems(2,3)] True BackoffSignal show ?thesis by (simp add: backoffCall_Cons)
      next
        case plain: False
        with Cons.prems(1) False BackoffSignal have "t' = changeVisibility v h (backoffSeconds conv delay) t"
          by (simp add: visLoop.simps)
        with plain BackoffSignal le show ?thesis by (simp add: backoffCall_def)
      qed
    qed (use Cons.prems(1) False in \<open>simp_all add: visLoop.simps backoffCall_def\<close>)
  qed
qed

lemma scheduled_ignores_backoff:
  assumes "vmScheduled v"
  shows "visLoop conv v h (xs @ BackoffSignal d # sigs) cnt extension t =
    visLoop conv v h (xs @ sigs) cnt extension t"
proof (induction xs arbitrary: cnt extension t)
  case Nil
  show ?case
  proof (cases "vmExtensionLimit v <s cnt")
    case True
    then show ?thesis by (simp add: visLoop.simps)
  next
    case False
    then show ?thesis using assms by (simp add: visLoop.simps [of _ _ _ "_ # _"])
  qed
next
  case (Cons x xs)
  then show ?case
    by (cases x) (simp_all add: visLoop.simps [of _ _ _ "_ # _"] Let_def)
qed

lemma sint_renewal:
  assumes "0 \<le> sint (vmVisibilityTimeout v)"
    and "sint (vmVisibilityTimeout v) * (sint (vmExtensionLimit v) + 1) < 2 ^ 31" and "i < renewals v sigs"
  shows "sint (renewal v i) = min 43200 (sint (vmVisibilityTimeout v) * int (i + 1))"
proof -
  let ?vt = "sint (vmVisibilityTimeout v)"
  have "int (Suc i) \<le> sint (vmExtensionLimit v) + 1" using assms(3) unfolding renewals_def by linarith
  then have "?vt * int (Suc i) \<le> ?vt * (sint (vmExtensionLimit v) + 1)" using assms(1) by (intro mult_left_mono)
  then have r: "0 \<le> ?vt * int (Suc i)" "?vt * int (Suc i) < 2 ^ 31" using assms(1,2) by simp_all
  have "of_nat (Suc i) * vmVisibilityTimeout v = word_of_int (?vt * int (Suc i))" by (simp add: mult.commute)
  moreover have "sint (word_of_int x :: go_int32) = x" if "0 \<le> x" "x < 2 ^ 31" for x
    using that by (simp add: sint_sbintrunc' signed_take_bit_int_eq_self)
  ultimately have "sint (of_nat (Suc i) * vmVisibilityTimeout v) = ?vt * int (Suc i)" using r by metis
  with r(1) show ?thesis unfolding renewal_def sint_clampTimeout by (simp add: max_def min_def)
qed

lemma sint_backoffSeconds:
  assumes "\<bar>sint delay sdiv 1000000000\<bar> < 2 ^ 22"
  shows "sint (backoffSeconds conv delay) = sint delay sdiv 1000000000"
proof -
  have "\<bar>sint delay sdiv 1000000000\<bar> < 2 ^ 31" using assms by simp
  then have "- (2 ^ 31) \<le> sint delay sdiv 1000000000" "sint delay sdiv 1000000000 < 2 ^ 31"
    unfolding abs_less_iff by simp_all
  then show ?thesis
    using assms by (simp add: backoffSeconds_def Let_def sint_sbintrunc' signed_take_bit_id)
qed

text \<open>
  C24: Every list of signals determines every call of the goroutine, in either mode. With a limit of n it renews on
  the ticks it hears before the signal that ends it, and on at most n + 1 of them; the k-th renewal asks for k times the
  route's visibility timeout, in 32-bit seconds, clamped to between 0 and 43200, which is the smaller of that product and
  43200 while the product stays in range. Outside the scheduled mode a backoff heard within the budget adds one call, with
  the requested whole seconds clamped to the same range, and ends the goroutine; in the scheduled mode a backoff
  changes nothing, wherever it arrives: the run is the run without it.
\<close>

theorem visibility_values:
  assumes "sint (vmExtensionLimit v) < 2 ^ 63 - 1" and "visRun conv v h sigs t = (returned, t')"
  shows "visibilityCalls t' =
      visibilityCalls t @ map (renewal v) [0..<renewals v sigs] @ backoffCall conv v 0 sigs \<and>
    (0 \<le> sint (vmVisibilityTimeout v) \<and>
      sint (vmVisibilityTimeout v) * (sint (vmExtensionLimit v) + 1) < 2 ^ 31 \<longrightarrow>
      (\<forall>i < renewals v sigs. sint (renewal v i) = min 43200 (sint (vmVisibilityTimeout v) * int (i + 1)))) \<and>
    (\<bar>sint delay sdiv 1000000000\<bar> < 2 ^ 22 \<longrightarrow>
      sint (clampTimeout (backoffSeconds conv delay)) = max 0 (min 43200 (sint delay sdiv 1000000000))) \<and>
    (vmScheduled v \<longrightarrow>
      visRun conv v h (xs @ BackoffSignal delay # ys) t = visRun conv v h (xs @ ys) t)"
proof -
  have "visLoop conv v h sigs 0 (vmVisibilityTimeout v) t = (returned, t')"
    using assms(2) by (simp add: visRun_def)
  from visLoop_values [OF assms(1) this, of 0] sint_renewal [where sigs = sigs] show ?thesis
    by (simp add: visRun_def scheduled_ignores_backoff sint_clampTimeout sint_backoffSeconds renewals_def)
qed

lemma visibility_values_witness:
  "map sint (visibilityCalls (snd (visRun (\<lambda>d. 0) exampleManager ''h'' [Tick, Tick, BackoffSignal 5000000000] []))) =
      [30, 60, 5] \<and>
   map sint (visibilityCalls (snd (visRun (\<lambda>d. 0) (exampleManager\<lparr>vmScheduled := True\<rparr>) ''h''
      [Tick, BackoffSignal 5000000000, Tick, Tick, Tick] []))) = [30, 60, 90]"
proof -
  let ?v = exampleManager and ?w = "exampleManager\<lparr>vmScheduled := True\<rparr>"
  let ?x = "[Tick, Tick, BackoffSignal 5000000000]" and ?y = "[Tick, BackoffSignal 5000000000, Tick, Tick, Tick]"
  have v: "sint (vmVisibilityTimeout ?v) = 30" "sint (vmExtensionLimit ?v) = 2" "\<not> vmScheduled ?v"
    by (simp_all add: exampleManager_def newVisibilityManager_def)
  have d: "sint (5000000000 :: duration) sdiv 1000000000 = 5" by simp
  obtain r t where x: "visRun (\<lambda>d. 0) ?v ''h'' ?x [] = (r, t)" by force
  obtain r' t' where y: "visRun (\<lambda>d. 0) ?w ''h'' ?y [] = (r', t')" by force
  note vx = visibility_values [OF _ x, where delay = 5000000000] and vy = visibility_values [OF _ y, where delay = 5000000000]
  have "renewals ?v ?x = 2" "renewals ?w ?y = 3" by (simp_all add: renewals_def v)
  moreover have "[0..<2] = [0, Suc 0]" "[0..<3] = [0, Suc 0, Suc (Suc 0)]" by (simp_all add: upt_rec)
  moreover have "backoffCall (\<lambda>d. 0) ?v 0 ?x = [clampTimeout (backoffSeconds (\<lambda>d. 0) 5000000000)]"
    "backoffCall (\<lambda>d. 0) ?w 0 ?y = []" by (simp_all add: backoffCall_def v)
  ultimately show ?thesis using vx vy by (simp add: x y v d All_less_Suc)
qed

text \<open>Outside that range the extension wraps: the renewal asks for zero seconds, giving the message back.\<close>

lemma visibility_extension_overflow:
  "map sint (visibilityCalls (snd (visRun conv (newVisibilityManager quietClient ''q'' 2000000000 2) ''h''
     [Tick, Tick] []))) = [43200, 0]"
  by (simp add: visRun_def visLoop.simps newVisibilityManager_def sint_clampTimeout go_sint)

section \<open>The goroutine and its environment\<close>

text \<open>
  One message in flight: the message, a \<open>Backoff\<close> call waiting for room in the channel, whether the
  context is cancelled, the loop's variables, the signals received so far and the number of
  \<open>Backoff\<close> calls that have returned.
\<close>

record flight =
  fMsg :: message
  fWaiting :: "duration option"
  fCancelled :: bool
  fCount :: go_int
  fExtension :: go_int32
  fReturned :: bool
  fSignals :: "signal list"
  fBackoffs :: nat
  fTrace :: trace

definition launch :: "visibilityManager \<Rightarrow> message \<Rightarrow> trace \<Rightarrow> flight" where
  "launch v m t = \<lparr>fMsg = m, fWaiting = None, fCancelled = False, fCount = 0,
     fExtension = vmVisibilityTimeout v, fReturned = False, fSignals = [], fBackoffs = 0, fTrace = t\<rparr>"

inductive vis_step :: "(duration \<Rightarrow> go_int32) \<Rightarrow> visibilityManager \<Rightarrow> flight \<Rightarrow> flight \<Rightarrow> bool"
  for conv v where
  backoff_sent: "fWaiting w = None \<Longrightarrow> Backoff d (fMsg w) = (m, False) \<Longrightarrow>
    vis_step conv v w (w\<lparr>fMsg := m, fBackoffs := Suc (fBackoffs w)\<rparr>)"
| backoff_waits: "fWaiting w = None \<Longrightarrow> Backoff d (fMsg w) = (m, True) \<Longrightarrow>
    vis_step conv v w (w\<lparr>fMsg := m, fWaiting := Some d\<rparr>)"
| backoff_unblocked: "fWaiting w = Some d \<Longrightarrow> send d (backoffChannel (fMsg w)) = Sent c \<Longrightarrow>
    vis_step conv v w (w\<lparr>fMsg := (fMsg w)\<lparr>backoffChannel := c\<rparr>, fWaiting := None,
      fBackoffs := Suc (fBackoffs w)\<rparr>)"
| dispatch_called: "vis_step conv v w (w\<lparr>fMsg := Dispatch (fMsg w)\<rparr>)"
| cancel: "vis_step conv v w (w\<lparr>fCancelled := True\<rparr>)"
| limit_reached: "\<not> fReturned w \<Longrightarrow> vmExtensionLimit v <s fCount w \<Longrightarrow>
    vis_step conv v w (w\<lparr>fReturned := True\<rparr>)"
| got_done: "\<not> fReturned w \<Longrightarrow> \<not> vmExtensionLimit v <s fCount w \<Longrightarrow> fCancelled w \<Longrightarrow>
    vis_step conv v w (w\<lparr>fReturned := True, fSignals := fSignals w @ [CtxDone]\<rparr>)"
| got_dispatch: "\<not> fReturned w \<Longrightarrow> \<not> vmExtensionLimit v <s fCount w \<Longrightarrow> dispatched (fMsg w) \<Longrightarrow>
    vis_step conv v w (w\<lparr>fReturned := True, fSignals := fSignals w @ [DispatchSignal]\<rparr>)"
| got_backoff: "\<not> fReturned w \<Longrightarrow> \<not> vmExtensionLimit v <s fCount w \<Longrightarrow> \<not> vmScheduled v \<Longrightarrow>
    recv (backoffChannel (fMsg w)) = Received d c \<Longrightarrow>
    vis_step conv v w (w\<lparr>fMsg := (fMsg w)\<lparr>backoffChannel := c\<rparr>, fReturned := True,
      fSignals := fSignals w @ [BackoffSignal d],
      fTrace := changeVisibility v (Identifier (fMsg w)) (backoffSeconds conv d) (fTrace w)\<rparr>)"
| got_tick: "\<not> fReturned w \<Longrightarrow> \<not> vmExtensionLimit v <s fCount w \<Longrightarrow>
    e = (if 0 <s fCount w then fExtension w + vmVisibilityTimeout v else fExtension w) \<Longrightarrow>
    vis_step conv v w (w\<lparr>fCount := fCount w + 1, fExtension := e, fSignals := fSignals w @ [Tick],
      fTrace := changeVisibility v (Identifier (fMsg w)) e (fTrace w)\<rparr>)"

definition flights :: "(duration \<Rightarrow> go_int32) \<Rightarrow> visibilityManager \<Rightarrow> message \<Rightarrow> trace \<Rightarrow> flight \<Rightarrow> bool" where
  "flights conv v m t w \<longleftrightarrow> (vis_step conv v)\<^sup>*\<^sup>* (launch v m t) w"

lemma Identifier_signals [simp]:
  "Identifier (m\<lparr>backoffChannel := c\<rparr>) = Identifier m" "Identifier (Dispatch m) = Identifier m"
  "backoffChannel (Dispatch m) = backoffChannel m"
  by (simp_all add: Identifier_def Dispatch_def)

lemma Backoff_sent:
  "Backoff d m = (m', False) \<Longrightarrow> \<exists>c. send d (backoffChannel m) = Sent c \<and> backoffChannel m' = c \<and>
     Identifier m' = Identifier m"
  by (auto simp: Backoff_def Let_def Identifier_def split: sent.splits)

lemma Backoff_blocked:
  "Backoff d m = (m', True) \<Longrightarrow> backoffChannel m' = backoffChannel m \<and> Identifier m' = Identifier m"
  by (auto simp: Backoff_def Let_def Identifier_def split: sent.splits)

definition received :: "flight \<Rightarrow> nat" where
  "received w = length (filter (\<lambda>s. s \<noteq> CtxDone \<and> s \<noteq> DispatchSignal \<and> s \<noteq> Tick) (fSignals w))"

definition flight_inv :: "(duration \<Rightarrow> go_int32) \<Rightarrow> visibilityManager \<Rightarrow> message \<Rightarrow> trace \<Rightarrow> flight \<Rightarrow> bool" where
  "flight_inv conv v m t w \<longleftrightarrow> chan_ok (backoffChannel (fMsg w)) \<and> cap (backoffChannel (fMsg w)) = 1 \<and>
     Identifier (fMsg w) = Identifier m \<and>
     fBackoffs w = length (buf (backoffChannel (fMsg w))) + received w \<and>
     received w \<le> (if vmScheduled v \<or> \<not> fReturned w then 0 else 1) \<and>
     (\<forall>sigs. visRun conv v (Identifier m) (fSignals w @ sigs) t =
        (if fReturned w then (True, fTrace w)
         else visLoop conv v (Identifier m) sigs (fCount w) (fExtension w) (fTrace w)))"

lemma flight_inv_launch:
  assumes "backoffChannel m = make_chan 1"
  shows "flight_inv conv v m t (launch v m t)"
  using assms by (simp add: flight_inv_def launch_def received_def visRun_def) (simp add: make_chan_def)

lemma flight_send:
  assumes "flight_inv conv v m t w" and "send d (backoffChannel (fMsg w)) = Sent c"
    and "backoffChannel m' = c" and "Identifier m' = Identifier (fMsg w)"
  shows "flight_inv conv v m t (w\<lparr>fMsg := m', fWaiting := x, fBackoffs := Suc (fBackoffs w)\<rparr>)"
proof -
  have ok: "chan_ok (backoffChannel (fMsg w))" using assms(1) by (simp add: flight_inv_def)
  have "cap c = cap (backoffChannel (fMsg w))" using assms(2) by (auto simp: send_def split: if_splits)
  with ch.send_Sent [OF ok assms(2)] assms show ?thesis
    by (simp add: flight_inv_def received_def)
qed

lemma flight_inv_step:
  assumes "vis_step conv v w w'" and "flight_inv conv v m t w"
  shows "flight_inv conv v m t w'"
  using assms
proof (induction rule: vis_step.induct)
  case (backoff_sent w d m')
  from Backoff_sent [OF backoff_sent(2)] obtain c where
    "send d (backoffChannel (fMsg w)) = Sent c" "backoffChannel m' = c" "Identifier m' = Identifier (fMsg w)"
    by blast
  from flight_send [OF backoff_sent(3) this, of "fWaiting w"] show ?case by simp
next
  case (backoff_waits w d m')
  from Backoff_blocked [OF backoff_waits(2)] backoff_waits(3) show ?case
    by (simp add: flight_inv_def received_def)
next
  case (backoff_unblocked w d c)
  from flight_send [OF backoff_unblocked(3,2), of "(fMsg w)\<lparr>backoffChannel := c\<rparr>" None]
  show ?case by simp
next
  case (dispatch_called w)
  then show ?case by (simp add: flight_inv_def received_def)
next
  case (cancel w)
  then show ?case by (simp add: flight_inv_def received_def)
next
  case (limit_reached w)
  then show ?case by (simp add: flight_inv_def received_def visLoop.simps)
next
  case (got_done w)
  then show ?case by (simp add: flight_inv_def received_def visLoop.simps)
next
  case (got_dispatch w)
  then show ?case by (simp add: flight_inv_def received_def visLoop.simps)
next
  case (got_backoff w d c)
  have ok: "chan_ok (backoffChannel (fMsg w))" using got_backoff(5) by (simp add: flight_inv_def)
  have "cap c = cap (backoffChannel (fMsg w))"
    using got_backoff(4) by (auto simp: recv_def split: list.splits if_splits)
  with ch.recv_Received [OF ok got_backoff(4)] got_backoff show ?case
    by (simp add: flight_inv_def received_def visLoop.simps)
next
  case (got_tick w e)
  then show ?case
    by (simp add: flight_inv_def received_def visLoop.simps [of _ _ _ "Tick # _"] Let_def)
qed

lemma flight_inv_reachable:
  assumes "backoffChannel m = make_chan 1" and "flights conv v m t w"
  shows "flight_inv conv v m t w"
  using assms(2) unfolding flights_def
proof (induction rule: rtranclp_induct)
  case base
  show ?case using assms(1) by (rule flight_inv_launch)
next
  case (step w w')
  then show ?case using flight_inv_step by blast
qed

text \<open>
  C23: However the handler's calls, the ticker and the cancellation interleave with the goroutine,
  what it does is the loop of \<open>run\<close> over the signals it received, in order; and over the whole life
  of the message at most one Backoff call returns in the scheduled mode and at most two otherwise:
  the channel holds one and the goroutine consumes at most one before it returns. A further Backoff
  blocks its caller.
\<close>

theorem backoff_calls_that_return:
  assumes "backoffChannel m = make_chan 1" and "flights conv v m t w"
  shows "visRun conv v (Identifier m) (fSignals w) t =
      (fReturned w \<or> sint (vmExtensionLimit v) < sint (fCount w), fTrace w) \<and>
    fBackoffs w \<le> (if vmScheduled v then 1 else 2) \<and>
    (fBackoffs w = (if vmScheduled v then 1 else 2) \<longrightarrow> (\<forall>d. snd (Backoff d (fMsg w))))"
proof -
  have inv: "flight_inv conv v m t w" using assms by (rule flight_inv_reachable)
  then have "visRun conv v (Identifier m) (fSignals w @ []) t = (if fReturned w then (True, fTrace w)
     else visLoop conv v (Identifier m) [] (fCount w) (fExtension w) (fTrace w))"
    unfolding flight_inv_def by blast
  moreover have buf: "length (buf (backoffChannel (fMsg w))) \<le> 1"
    and sent: "fBackoffs w = length (buf (backoffChannel (fMsg w))) + received w"
    and rec: "received w \<le> (if vmScheduled v then 0 else 1)"
    and one: "cap (backoffChannel (fMsg w)) = 1"
    using inv by (auto simp: flight_inv_def chan_ok_def split: if_splits)
  moreover have "snd (Backoff d (fMsg w))" if "length (buf (backoffChannel (fMsg w))) = 1" for d
    using that one by (simp add: Backoff_def Let_def send_def)
  ultimately show ?thesis
    by (auto simp: visLoop.simps go_sint split: if_splits)
qed

lemma backoff_calls_that_return_witness:
  "\<exists>w. flights (\<lambda>d. 0) exampleManager example_message [] w \<and> fBackoffs w = 1 \<and> fBackoffs w \<le> 2"
proof -
  have ch: "backoffChannel example_message = make_chan 1"
    by (simp add: example_message_def newMessage_def)
  obtain m where m: "Backoff 7 example_message = (m, False)"
    by (simp add: Backoff_def Let_def ch send_def make_chan_def)
  let ?start = "launch exampleManager example_message []"
  let ?after = "?start\<lparr>fMsg := m, fBackoffs := Suc (fBackoffs ?start)\<rparr>"
  have "vis_step (\<lambda>d. 0) exampleManager ?start ?after"
    by (rule vis_step.backoff_sent [where d = 7]) (simp_all add: launch_def m)
  then have r: "flights (\<lambda>d. 0) exampleManager example_message [] ?after"
    by (simp add: flights_def r_into_rtranclp)
  have "\<not> vmScheduled exampleManager" by (simp add: exampleManager_def newVisibilityManager_def)
  with backoff_calls_that_return [OF ch r] have "fBackoffs ?after \<le> 2" by simp
  moreover have "fBackoffs ?after = 1" by (simp add: launch_def)
  ultimately show ?thesis using r by blast
qed

text \<open>
  A goroutine that has returned makes no call any more, so a \<open>Backoff\<close> after the extension limit has been used up
  returns, is never read, and leaves the visibility of the message as it was.
\<close>

lemma late_backoff_is_lost:
  assumes "(vis_step conv v)\<^sup>*\<^sup>* w w'" and "fReturned w"
  shows "fTrace w' = fTrace w \<and> fReturned w'"
  using assms(1)
proof (induction rule: rtranclp_induct)
  case base
  show ?case using assms(2) by simp
next
  case (step w1 w2)
  from step(2,3) show ?case by induction auto
qed

lemma late_backoff_example:
  "\<exists>w. flights (\<lambda>d. 0) (exampleManager\<lparr>vmExtensionLimit := 0\<rparr>) example_message [] w \<and>
     fReturned w \<and> fBackoffs w = 1 \<and> visibilityCalls (fTrace w) = [30]"
proof -
  let ?v = "exampleManager\<lparr>vmExtensionLimit := 0\<rparr>"
  define w1 where "w1 = (launch ?v example_message [])\<lparr>fCount := 0 + 1, fExtension := 30, fSignals := [] @ [Tick],
    fTrace := changeVisibility ?v (Identifier example_message) 30 []\<rparr>"
  define w0 where "w0 = launch ?v example_message []"
  have v: "vmExtensionLimit ?v = 0" "vmVisibilityTimeout ?v = 30"
    by (simp_all add: exampleManager_def newVisibilityManager_def)
  have w0: "fCount w0 = 0" "fExtension w0 = 30" "fSignals w0 = []" "fTrace w0 = []" "fMsg w0 = example_message" "\<not> fReturned w0"
    using v(2) by (simp_all add: w0_def launch_def)
  have "vis_step (\<lambda>d. 0) ?v w0 (w0\<lparr>fCount := fCount w0 + 1, fExtension := 30, fSignals := fSignals w0 @ [Tick],
      fTrace := changeVisibility ?v (Identifier (fMsg w0)) 30 (fTrace w0)\<rparr>)"
    by (rule vis_step.got_tick) (simp_all only: w0 v, simp_all)
  then have "vis_step (\<lambda>d. 0) ?v w0 w1" unfolding w0(1,3,4,5) by (simp add: w1_def w0_def)
  moreover have "vis_step (\<lambda>d. 0) ?v w1 (w1\<lparr>fReturned := True\<rparr>)"
    by (rule vis_step.limit_reached) (simp_all add: launch_def w1_def go_sint)
  moreover obtain m where m: "Backoff 7 example_message = (m, False)"
    by (simp add: Backoff_def Let_def example_message_def newMessage_def send_def make_chan_def)
  let ?w = "w1\<lparr>fReturned := True, fMsg := m, fBackoffs := 1\<rparr>"
  have "vis_step (\<lambda>d. 0) ?v (w1\<lparr>fReturned := True\<rparr>) ?w"
    using vis_step.backoff_sent [of "w1\<lparr>fReturned := True\<rparr>" 7 m "\<lambda>d. 0" ?v] by (simp add: launch_def w1_def m)
  ultimately have "flights (\<lambda>d. 0) ?v example_message [] ?w"
    unfolding flights_def w0_def by (meson r_into_rtranclp rtranclp.rtrancl_into_rtrancl)
  moreover have "visibilityCalls (fTrace ?w) = [30]"
    by (simp add: w1_def clampTimeout_def Let_def visibility_consts go_sint)
  ultimately show ?thesis by (intro exI [of _ ?w] conjI) (simp_all add: w1_def)
qed

end
