(* ===== verification/Dispatcher.thy ===== *)
theory Dispatcher
  imports Retry Visibility Router Barrier
begin

text \<open>
  The dispatcher of a route (\<open>src/consumer/dispatch.go\<close>, \<open>metrics.go\<close>): routing a message to a
  worker and processing it. \<open>process\<close> is one call of the code's \<open>process\<close> on the state it works on:
  the message, the barriers of the batches (a store, since a batch shares one by pointer) and the
  trace. The visibility goroutine it starts is the event \<open>SpawnVisibility\<close>; theory \<open>Visibility\<close>
  models what it does. Theory \<open>Worker_Pool\<close> interleaves the workers.

  A handler is user code in another package: of the message it can change only what \<open>Backoff\<close> and
  \<open>Dispatch\<close> change (\<open>absorb\<close>). A handler or an \<open>OnDLQ\<close> callback that panics takes the worker down
  with it, since the dispatcher does not recover. Here a handler is a total function, so one that never returns, or
  blocks in a second \<open>Backoff\<close>, is not a handler of this theory: a call of \<open>process\<close> that ends is what it describes.
  Theory \<open>Goroutines\<close> has the handlers that do not return.
\<close>

section \<open>Metrics\<close>

definition emitMetric :: "recorder option \<Rightarrow> string \<Rightarrow> string \<Rightarrow> trace \<Rightarrow> trace" where
  "emitMetric inc meth routeName t = (case inc of
     None \<Rightarrow> t
   | Some r \<Rightarrow> (let t = t @ [Metric meth routeName] in
       case r t of
         None \<Rightarrow> t
       | Some p \<Rightarrow> t @ [Log LevelError ''metric hook panicked; recovered and continuing''
           [(''route_name'', LStr routeName), (''panic'', LStr p)]]))"

section \<open>The dispatcher\<close>

definition groupKeySeparator :: string where "groupKeySeparator = [CHR 0x00]"
definition approximateReceiveCountKey :: string where
  "approximateReceiveCountKey = ''ApproximateReceiveCount''"

record dispatcher =
  dClient :: "sqs_message sqs_client"
  dHandler :: Middleware.handler
  dVisibility :: visibilityManager
  dDlq :: "dlq_config option"
  dMetrics :: "recorder option"
  dRetryScheduler :: "retryScheduler option"
  dDlqPublisher :: "dlqPublisher option"
  dBatcher :: bool
  dScheduledRetry :: "sched_config option"
  dQueueURL :: string
  dQueueName :: string
  dRandIntN :: "go_int \<Rightarrow> go_int outcome"
  dCustomGroupFields :: "string list"
  dMode :: mode
  dRetryModel :: retry_model
  dWorkerPoolSize :: go_int
  dBufferSize :: go_int

text \<open>
  \<open>rd\<close> is the system random source behind \<open>idgen.NewRandom\<close>, \<open>now\<close> the clock and \<open>rnd\<close>
  \<open>rand.IntN\<close>. \<open>metrics\<close> and \<open>batcher\<close> are set later, by the consumer.
\<close>

definition newDispatcher :: "sqs_message sqs_client \<Rightarrow> route \<Rightarrow> string \<Rightarrow> visibilityManager \<Rightarrow>
    scheduler_client option \<Rightarrow> (trace \<Rightarrow> err + 8 word list) \<Rightarrow> (trace \<Rightarrow> int) \<Rightarrow>
    (go_int \<Rightarrow> go_int outcome) \<Rightarrow> middleware list \<Rightarrow> dispatcher" where
  "newDispatcher client r url vm schedulerClient rd now rnd globals =
     (let hd = Chain (globals @ middlewares r) (route.handler r);
          workers = (if workerPoolSize r <s 1 then 1 else workerPoolSize r);
          buffer = (word_of_int (sint (maxMessages r)) :: go_int);
          buffer = (if buffer <s 1 then 1 else buffer);
          d = \<lparr>dClient = client, dHandler = hd, dVisibility = vm, dDlq = dlqConfig r, dMetrics = None,
            dRetryScheduler = None, dDlqPublisher = None, dBatcher = False, dScheduledRetry = None,
            dQueueURL = url, dQueueName = queueName r, dRandIntN = rnd,
            dCustomGroupFields = customGroupFields r, dMode = runMode r, dRetryModel = retryModel r,
            dWorkerPoolSize = workers, dBufferSize = buffer\<rparr>
      in case (scheduledRetry r, schedulerClient) of
           (Some cfg, Some sc) \<Rightarrow>
             if retryModel r = ScheduledRetryModel
             then d\<lparr>dScheduledRetry := Some cfg,
               dRetryScheduler := Some (newRetryScheduler sc (TargetQueueARN cfg) (ExecutionRoleARN cfg)
                 url (NewRandom rd) now),
               dDlqPublisher := Some (newDLQPublisher client (DLQQueueURL cfg) (NewRandom rd))\<rparr>
             else d
         | _ \<Rightarrow> d)"

section \<open>Routing\<close>

definition msgGroupKey :: "dispatcher \<Rightarrow> message \<Rightarrow> string" where
  "msgGroupKey d msg = join groupKeySeparator (SystemAttributeByKey msg messageGroupIDKey #
     map (\<lambda>f. let v = UserMessageAttribute msg f in if v = [] then Attribute msg f else v)
       (dCustomGroupFields d))"

text \<open>\<open>h.Sum32() % uint32(d.workerPoolSize)\<close>: a pool size whose low 32 bits are zero panics.\<close>

definition groupIndex :: "dispatcher \<Rightarrow> string \<Rightarrow> go_int outcome" where
  "groupIndex d key = (let n = (ucast (dWorkerPoolSize d) :: 32 word) in
     if n = 0 then Panic ''runtime error: integer divide by zero''
     else Return (ucast (fnv32a key mod n)))"

definition workerIndex :: "dispatcher \<Rightarrow> message \<Rightarrow> go_int outcome \<times> message" where
  "workerIndex d msg = (if dMode d = PerGroupID
     then (let key = msgGroupKey d msg in (groupIndex d key, msg\<lparr>groupKey := key\<rparr>))
     else (dRandIntN d (dWorkerPoolSize d), msg))"

definition orderedGroups :: "dispatcher \<Rightarrow> bool" where
  "orderedGroups d \<longleftrightarrow> dMode d = PerGroupID \<and> dRetryModel d = VisibilityRetryModel"

definition newBatchBarrier :: "dispatcher \<Rightarrow> groupBarrier" where
  "newBatchBarrier d = (if \<not> orderedGroups d then None else newGroupBarrier)"

section \<open>Processing one message\<close>

record pstate =
  pMsg :: message
  pBarriers :: "nat \<Rightarrow> groupBarrier"
  pTrace :: trace

definition say :: "event \<Rightarrow> pstate \<Rightarrow> pstate" where
  "say e st = st\<lparr>pTrace := pTrace st @ [e]\<rparr>"

definition barrierOf :: "pstate \<Rightarrow> groupBarrier" where
  "barrierOf st = (case barrier (pMsg st) of None \<Rightarrow> None | Some a \<Rightarrow> pBarriers st a)"

definition failGroup :: "dispatcher \<Rightarrow> pstate \<Rightarrow> pstate" where
  "failGroup d st = (if orderedGroups d then
     (case barrier (pMsg st) of
        None \<Rightarrow> st
      | Some a \<Rightarrow> st\<lparr>pBarriers := (pBarriers st)(a := fail (pBarriers st a) (groupKey (pMsg st)))\<rparr>)
     else st)"

definition msgFields :: "dispatcher \<Rightarrow> message \<Rightarrow> (string \<times> log_arg) list" where
  "msgFields d msg = [(''queue_url'', LStr (dQueueURL d)), (''receipt_handle'', LStr (Identifier msg)),
     (''group_id'', LStr (SystemAttributeByKey msg messageGroupIDKey))]"

definition holdForOrder :: "dispatcher \<Rightarrow> pstate \<Rightarrow> pstate" where
  "holdForOrder d st = say (Log LevelWarn
     ''holding message to preserve FIFO group order; earlier message in group failed''
     (msgFields d (pMsg st))) st"

definition deleteMessage :: "dispatcher \<Rightarrow> pstate \<Rightarrow> pstate" where
  "deleteMessage d st = (let handle = Identifier (pMsg st) in
     if dBatcher d then say (EnqueueDelete handle) st
     else (let st = say (CallDelete (dQueueURL d) handle) st in
       case Clients.deleteMessage (dClient d) (pTrace st) of
         None \<Rightarrow> st
       | Some e \<Rightarrow> say (Log LevelError ''failed to delete message''
           [(''queue_url'', LStr (dQueueURL d)), (''receipt_handle'', LStr handle), (''error'', LErr e)]) st))"

definition metric :: "dispatcher \<Rightarrow> string \<Rightarrow> pstate \<Rightarrow> pstate" where
  "metric d meth st = st\<lparr>pTrace := emitMetric (dMetrics d) meth (dQueueName d) (pTrace st)\<rparr>"

definition receiveCount :: "message \<Rightarrow> go_int" where
  "receiveCount msg = (case atoi (SystemAttributeByKey msg approximateReceiveCountKey) of
     None \<Rightarrow> 0 | Some n \<Rightarrow> n)"

definition observeDLQ :: "dispatcher \<Rightarrow> pstate \<Rightarrow> bool outcome \<times> pstate" where
  "observeDLQ d st = (case dDlq d of
     None \<Rightarrow> (Return False, st)
   | Some dlq \<Rightarrow>
     (let n = receiveCount (pMsg st) in
      if n <s MaxReceiveCount dlq then (Return False, st)
      else
        (let st = say (Log LevelError ''message exhausted; left in source queue for AWS SQS redrive''
               [(''queue_name'', LStr (dQueueName d)), (''message_id'', LStr (Identifier (pMsg st))),
                (''receive_count'', LInt (sint n))]) st;
             st = metric d ''IncDLQ'' st
         in case OnDLQ dlq of
              None \<Rightarrow> (Return True, st)
            | Some fn \<Rightarrow>
                (let st = say (CallOnDLQ (Identifier (pMsg st))) st in
                 case fn (pTrace st) of
                   None \<Rightarrow> (Return True, st)
                 | Some p \<Rightarrow> (Panic p, st)))))"

definition retained :: "dispatcher \<Rightarrow> string \<Rightarrow> go_int \<Rightarrow> err \<Rightarrow> pstate \<Rightarrow> pstate" where
  "retained d text next' e st = say (Log LevelError text
     (msgFields d (pMsg st) @ [(''retry_count'', LInt (sint next')), (''error'', LErr e)])) st"

definition processScheduled :: "dispatcher \<Rightarrow> err option \<Rightarrow> pstate \<Rightarrow> unit outcome \<times> pstate" where
  "processScheduled d err st =
     (let st = st\<lparr>pMsg := Dispatch (pMsg st)\<rparr>; msg = pMsg st in
      if err \<noteq> None \<or> BackedOff msg then
        (case parseRetryCount msg of (current, logs) \<Rightarrow>
          (let st = st\<lparr>pTrace := pTrace st @ logs\<rparr>; next' = current + 1 in
           case dScheduledRetry d of
             None \<Rightarrow> (Panic nilDeref, st)
           | Some cfg \<Rightarrow>
             if next' \<le>s MaxRetryCount cfg then
               (case dRetryScheduler d of
                  None \<Rightarrow> (Panic nilDeref, st)
                | Some rs \<Rightarrow>
                  (case schedule rs (pTrace st) msg next'
                      (computeBackoff next' (BaseBackoff cfg) (MaxBackoff cfg)) of
                    (Some e, t) \<Rightarrow> (Return (), retained d
                      ''failed to create retry schedule; retaining message'' next' e (st\<lparr>pTrace := t\<rparr>))
                  | (None, t) \<Rightarrow> (Return (), metric d ''IncRetry'' (deleteMessage d (st\<lparr>pTrace := t\<rparr>)))))
             else
               (case dDlqPublisher d of
                  None \<Rightarrow> (Panic nilDeref, st)
                | Some p \<Rightarrow>
                  (case publish p (pTrace st) msg next' of
                    (Some e, t) \<Rightarrow> (Return (), retained d
                      ''failed to publish message to DLQ; retaining message'' next' e (st\<lparr>pTrace := t\<rparr>))
                  | (None, t) \<Rightarrow> (Return (), metric d ''IncDeadLetter'' (deleteMessage d (st\<lparr>pTrace := t\<rparr>)))))))
      else (Return (), metric d ''IncSuccess'' (deleteMessage d st)))"

text \<open>The handler's effect on the message and its call.\<close>

definition absorb :: "message \<Rightarrow> message option \<Rightarrow> message" where
  "absorb msg cur' = (case cur' of None \<Rightarrow> msg
     | Some m \<Rightarrow> msg\<lparr>backoffChannel := backoffChannel m, dispatched := dispatched m, backedOff := backedOff m\<rparr>)"

definition invoke :: "dispatcher \<Rightarrow> ctx \<Rightarrow> pstate \<Rightarrow> hresult \<times> pstate" where
  "invoke d c st = (case dHandler d c \<lparr>cur = Some (pMsg st), htrace = pTrace st\<rparr> of
     (r, s) \<Rightarrow> (r, st\<lparr>pMsg := absorb (pMsg st) (cur s), pTrace := htrace s\<rparr>))"

definition process :: "dispatcher \<Rightarrow> ctx \<Rightarrow> pstate \<Rightarrow> unit outcome \<times> pstate" where
  "process d c st =
     (if orderedGroups d \<and> failed (barrierOf st) (groupKey (pMsg st)) then (Return (), holdForOrder d st)
      else
        (case invoke d c (say (SpawnVisibility (Identifier (pMsg st))) st) of
          (HPanic p, st) \<Rightarrow> (Panic p, st)
        | (HRet err, st) \<Rightarrow>
          if dRetryModel d = ScheduledRetryModel then processScheduled d err st
          else if BackedOff (pMsg st) then (Return (), failGroup d st)
          else
            (let st = st\<lparr>pMsg := Dispatch (pMsg st)\<rparr> in
             case err of
               None \<Rightarrow> (Return (), deleteMessage d st)
             | Some e \<Rightarrow>
               (let st = failGroup d st in
                case observeDLQ d st of
                  (Panic p, st) \<Rightarrow> (Panic p, st)
                | (Return True, st) \<Rightarrow> (Return (), st)
                | (Return False, st) \<Rightarrow> (Return (), say (Log LevelError ''handler returned an error''
                    (msgFields d (pMsg st) @ [(''body'', LStr (Body (pMsg st))), (''error'', LErr e)])) st)))))"

section \<open>Outcomes\<close>

text \<open>
  The events that decide the fate of a message: commits, dead-letter sends, schedules and the
  OnDLQ callback. A handler is \<open>polite\<close> when it appends to the trace none of these: it has no
  access to the dispatcher's clients. The built-in middlewares keep that.
\<close>

fun isOutcome :: "event \<Rightarrow> bool" where
  "isOutcome (CallDelete q h) = True"
| "isOutcome (EnqueueDelete h) = True"
| "isOutcome (CallSend i) = True"
| "isOutcome (CallSchedule i) = True"
| "isOutcome (CallOnDLQ h) = True"
| "isOutcome _ = False"

definition outcomes :: "trace \<Rightarrow> trace" where
  "outcomes t = filter isOutcome t"

lemma outcomes_append [simp]: "outcomes (s @ t) = outcomes s @ outcomes t"
  by (simp add: outcomes_def)

lemma outcomes_simps [simp]: "outcomes [] = []"
  "outcomes (e # t) = (if isOutcome e then e # outcomes t else outcomes t)"
  by (simp_all add: outcomes_def)

lemma commits_outcomes: "commits (outcomes t) = commits t"
  by (induction t rule: commits.induct) simp_all

definition polite :: "Middleware.handler \<Rightarrow> bool" where
  "polite h \<longleftrightarrow> (\<forall>c s. outcomes (htrace (snd (h c s))) = outcomes (htrace s))"

definition commitEvent :: "dispatcher \<Rightarrow> message \<Rightarrow> event" where
  "commitEvent d msg = (if dBatcher d then EnqueueDelete (Identifier msg)
     else CallDelete (dQueueURL d) (Identifier msg))"

lemma isOutcome_commit [simp]: "isOutcome (commitEvent d msg)"
  by (simp add: commitEvent_def)

lemma commits_commitEvent [simp]: "commits [commitEvent d msg] = [Identifier msg]"
  by (simp add: commitEvent_def)

lemma say_simps [simp]: "pMsg (say e st) = pMsg st" "pBarriers (say e st) = pBarriers st"
  "pTrace (say e st) = pTrace st @ [e]" "barrierOf (say e st) = barrierOf st"
  by (simp_all add: say_def barrierOf_def split: option.split)

lemma outcomes_emitMetric [simp]: "outcomes (emitMetric inc m r t) = outcomes t"
  by (simp add: emitMetric_def Let_def split: option.split)

lemma metric_simps [simp]: "pMsg (metric d m st) = pMsg st" "pBarriers (metric d m st) = pBarriers st"
  "outcomes (pTrace (metric d m st)) = outcomes (pTrace st)" "barrierOf (metric d m st) = barrierOf st"
  by (simp_all add: metric_def barrierOf_def split: option.split)

lemma failGroup_simps [simp]: "pMsg (failGroup d st) = pMsg st" "pTrace (failGroup d st) = pTrace st"
  by (simp_all add: failGroup_def split: option.split)

lemma deleteMessage_simps [simp]: "pMsg (deleteMessage d st) = pMsg st"
  "pBarriers (deleteMessage d st) = pBarriers st"
  "outcomes (pTrace (deleteMessage d st)) = outcomes (pTrace st) @ [commitEvent d (pMsg st)]"
  by (simp_all add: deleteMessage_def Let_def commitEvent_def split: option.split)

lemma Identifier_absorb [simp]: "Identifier (absorb m c) = Identifier m"
  "Identifier (Dispatch m) = Identifier m" "barrier (Dispatch m) = barrier m"
  "groupKey (Dispatch m) = groupKey m" "backedOff (Dispatch m) = backedOff m"
  "barrier (absorb m c) = barrier m" "groupKey (absorb m c) = groupKey m"
  "original (absorb m c) = original m" "original (Dispatch m) = original m"
  by (simp_all add: absorb_def Identifier_def Dispatch_def split: option.split)

lemma original_accessors:
  "original m = original m' \<Longrightarrow> UserMessageAttributes m = UserMessageAttributes m'"
  "original m = original m' \<Longrightarrow> UserMessageAttribute m k = UserMessageAttribute m' k"
  "original m = original m' \<Longrightarrow> SystemAttributeByKey m k = SystemAttributeByKey m' k"
  "original m = original m' \<Longrightarrow> Body m = Body m'"
  "original m = original m' \<Longrightarrow> Identifier m = Identifier m'"
  by (simp_all add: UserMessageAttributes_def UserMessageAttribute_def SystemAttributeByKey_def
      Body_def Identifier_def)

lemma original_parseRetryCount:
  assumes "original m = original m'"
  shows "parseRetryCount m = parseRetryCount m'"
  unfolding parseRetryCount_def original_accessors(2,5) [OF assms] ..

lemma invoke_simps:
  assumes "invoke d c st = (r, st')"
  shows "original (pMsg st') = original (pMsg st)" "Identifier (pMsg st') = Identifier (pMsg st)"
    "barrier (pMsg st') = barrier (pMsg st)" "groupKey (pMsg st') = groupKey (pMsg st)"
    "pBarriers st' = pBarriers st"
  using assms by (auto simp: invoke_def split: prod.splits)

lemma invoke_polite:
  assumes "invoke d c st = (r, st')" and "polite (dHandler d)"
  shows "outcomes (pTrace st') = outcomes (pTrace st)"
proof -
  define s where "s = \<lparr>cur = Some (pMsg st), htrace = pTrace st\<rparr>"
  have "pTrace st' = htrace (snd (dHandler d c s))"
    using assms(1) by (auto simp: invoke_def s_def split: prod.splits)
  moreover have "outcomes (htrace (snd (dHandler d c s))) = outcomes (htrace s)"
    using assms(2) unfolding polite_def by blast
  ultimately show ?thesis by (simp add: s_def)
qed

text \<open>The message's receive count has reached the limit of the route's DLQ option.\<close>

definition exhausted :: "dispatcher \<Rightarrow> message \<Rightarrow> bool" where
  "exhausted d msg \<longleftrightarrow> (case dDlq d of None \<Rightarrow> False
     | Some dlq \<Rightarrow> sint (MaxReceiveCount dlq) \<le> sint (receiveCount msg))"

definition callsOnDLQ :: "dispatcher \<Rightarrow> message \<Rightarrow> bool" where
  "callsOnDLQ d msg \<longleftrightarrow> exhausted d msg \<and> (case dDlq d of None \<Rightarrow> False | Some dlq \<Rightarrow> OnDLQ dlq \<noteq> None)"

lemma observeDLQ_spec:
  assumes "observeDLQ d st = (r, st')"
  shows "outcomes (pTrace st') = outcomes (pTrace st) @
      (if callsOnDLQ d (pMsg st) then [CallOnDLQ (Identifier (pMsg st))] else [])"
    "r = Return False \<longleftrightarrow> \<not> exhausted d (pMsg st)"
    "pMsg st' = pMsg st" "pBarriers st' = pBarriers st"
  using assms
  by (auto simp: observeDLQ_def exhausted_def callsOnDLQ_def Let_def go_sint
      split: option.splits if_splits)

lemma exhausted_original:
  assumes "original m = original m'"
  shows "exhausted d m = exhausted d m'" "callsOnDLQ d m = callsOnDLQ d m'"
  by (simp_all only: exhausted_def callsOnDLQ_def receiveCount_def original_accessors(3) [OF assms])

lemma commitEvent_id: "Identifier m = Identifier m' \<Longrightarrow> commitEvent d m = commitEvent d m'"
  by (simp add: commitEvent_def)

lemma failed_failGroup:
  "failed (barrierOf (failGroup d st)) k \<longleftrightarrow> failed (barrierOf st) k \<or>
     orderedGroups d \<and> barrierOf st \<noteq> None \<and> k = groupKey (pMsg st)"
  by (cases "barrier (pMsg st)") (auto simp: failGroup_def barrierOf_def bar.fd_fl)

lemma failed_barrier_cong:
  "pBarriers st' = pBarriers st \<Longrightarrow> barrier (pMsg st') = barrier (pMsg st) \<Longrightarrow>
   barrierOf st' = barrierOf st"
  by (simp add: barrierOf_def split: option.split)

section \<open>The Visibility model\<close>

definition held :: "dispatcher \<Rightarrow> pstate \<Rightarrow> bool" where
  "held d st \<longleftrightarrow> orderedGroups d \<and> failed (barrierOf st) (groupKey (pMsg st))"

text \<open>The call of the handler \<open>process\<close> makes when the message is not held.\<close>

abbreviation handled :: "dispatcher \<Rightarrow> ctx \<Rightarrow> pstate \<Rightarrow> hresult \<times> pstate" where
  "handled d c st \<equiv> invoke d c (say (SpawnVisibility (Identifier (pMsg st))) st)"

text \<open>What \<open>process\<close> does once the handler has returned.\<close>

definition settle :: "dispatcher \<Rightarrow> err option \<Rightarrow> pstate \<Rightarrow> unit outcome \<times> pstate" where
  "settle d err st =
     (if dRetryModel d = ScheduledRetryModel then processScheduled d err st
      else if BackedOff (pMsg st) then (Return (), failGroup d st)
      else
        (let st = st\<lparr>pMsg := Dispatch (pMsg st)\<rparr> in
         case err of
           None \<Rightarrow> (Return (), deleteMessage d st)
         | Some e \<Rightarrow>
           (let st = failGroup d st in
            case observeDLQ d st of
              (Panic p, st) \<Rightarrow> (Panic p, st)
            | (Return True, st) \<Rightarrow> (Return (), st)
            | (Return False, st) \<Rightarrow> (Return (), say (Log LevelError ''handler returned an error''
                (msgFields d (pMsg st) @ [(''body'', LStr (Body (pMsg st))), (''error'', LErr e)])) st))))"

lemma process_settle:
  "process d c st = (if held d st then (Return (), holdForOrder d st)
     else case handled d c st of (HPanic p, st) \<Rightarrow> (Panic p, st) | (HRet err, st) \<Rightarrow> settle d err st)"
  unfolding process_def held_def settle_def ..

lemma process_runs: "\<not> held d st \<Longrightarrow> process d c st =
    (case handled d c st of (HPanic p, st) \<Rightarrow> (Panic p, st) | (HRet err, st) \<Rightarrow> settle d err st)"
  by (simp add: process_settle)

lemmas process_handled = process_runs [unfolded settle_def]

lemma failGroup_cong:
  "pBarriers st1 = pBarriers st \<Longrightarrow> barrier (pMsg st1) = barrier (pMsg st) \<Longrightarrow>
   groupKey (pMsg st1) = groupKey (pMsg st) \<Longrightarrow> pBarriers (failGroup d st1) = pBarriers (failGroup d st)"
  by (simp add: failGroup_def split: option.split)

text \<open>Under the Visibility model: the outcomes it leaves, and when it marks the group.\<close>

lemma settle_spec:
  assumes "settle d err st = (r, st')" and "dRetryModel d \<noteq> ScheduledRetryModel"
  shows "outcomes (pTrace st') = outcomes (pTrace st) @ (if BackedOff (pMsg st) then []
      else case err of None \<Rightarrow> [commitEvent d (pMsg st)]
        | Some e \<Rightarrow> if callsOnDLQ d (pMsg st) then [CallOnDLQ (Identifier (pMsg st))] else [])"
    "pBarriers st' = (if err \<noteq> None \<or> BackedOff (pMsg st) then pBarriers (failGroup d st) else pBarriers st)"
    "barrier (pMsg st') = barrier (pMsg st)"
proof -
  let ?st = "st\<lparr>pMsg := Dispatch (pMsg st)\<rparr>"
  have cong: "pBarriers (failGroup d ?st) = pBarriers (failGroup d st)" by (rule failGroup_cong) simp_all
  have "outcomes (pTrace st') = outcomes (pTrace st) @ (if BackedOff (pMsg st) then []
      else case err of None \<Rightarrow> [commitEvent d (pMsg st)]
        | Some e \<Rightarrow> if callsOnDLQ d (pMsg st) then [CallOnDLQ (Identifier (pMsg st))] else []) \<and>
    pBarriers st' = (if err \<noteq> None \<or> BackedOff (pMsg st) then pBarriers (failGroup d st) else pBarriers st) \<and>
    barrier (pMsg st') = barrier (pMsg st)"
  proof (cases "BackedOff (pMsg st)")
    case True
    then have "st' = failGroup d st" using assms by (simp add: settle_def)
    with True show ?thesis by simp
  next
    case nb: False
    show ?thesis
    proof (cases err)
      case None
      then have "st' = deleteMessage d ?st" using assms nb by (simp add: settle_def)
      with None nb show ?thesis using commitEvent_id [of "Dispatch (pMsg st)" "pMsg st" d] by simp
    next
      case (Some e)
      obtain o1 st4 where obs: "observeDLQ d (failGroup d ?st) = (o1, st4)" by force
      have "pBarriers st' = pBarriers st4 \<and> pMsg st' = pMsg st4 \<and> outcomes (pTrace st') = outcomes (pTrace st4)"
        using assms nb Some obs by (auto simp: settle_def Let_def split: outcome.splits bool.splits)
      with observeDLQ_spec(1,3,4) [OF obs] exhausted_original(2) [of "Dispatch (pMsg st)" "pMsg st" d] show ?thesis
        using nb Some cong by simp
    qed
  qed
  then show "outcomes (pTrace st') = outcomes (pTrace st) @ (if BackedOff (pMsg st) then []
      else case err of None \<Rightarrow> [commitEvent d (pMsg st)]
        | Some e \<Rightarrow> if callsOnDLQ d (pMsg st) then [CallOnDLQ (Identifier (pMsg st))] else [])"
    "pBarriers st' = (if err \<noteq> None \<or> BackedOff (pMsg st) then pBarriers (failGroup d st) else pBarriers st)"
    "barrier (pMsg st') = barrier (pMsg st)" by blast+
qed

lemma visibility_step:
  assumes "dRetryModel d \<noteq> ScheduledRetryModel" and "polite (dHandler d)"
    and "handled d c st = (r, st1)" and "process d c st = (res, st')"
  shows "(held d st \<longrightarrow> res = Return () \<and> pMsg st' = pMsg st \<and> pBarriers st' = pBarriers st \<and>
      (\<exists>x ys. pTrace st' = pTrace st @ [Log LevelWarn x ys])) \<and>
    (\<not> held d st \<longrightarrow>
      outcomes (pTrace st') = outcomes (pTrace st) @
        (if BackedOff (pMsg st1) then []
         else case r of HPanic p \<Rightarrow> [] | HRet None \<Rightarrow> [commitEvent d (pMsg st)]
           | HRet (Some e) \<Rightarrow> if callsOnDLQ d (pMsg st) then [CallOnDLQ (Identifier (pMsg st))] else []) \<and>
      (failed (barrierOf st') (groupKey (pMsg st)) \<longleftrightarrow>
        failed (barrierOf st) (groupKey (pMsg st)) \<or>
        orderedGroups d \<and> barrierOf st \<noteq> None \<and>
          (\<exists>err. r = HRet err \<and> (err \<noteq> None \<or> BackedOff (pMsg st1)))))"
proof (intro conjI impI)
  assume h: "held d st"
  then have "process d c st = (Return (), holdForOrder d st)" by (simp add: process_settle)
  with assms(4) show "res = Return ()" "pMsg st' = pMsg st" "pBarriers st' = pBarriers st"
    "\<exists>x ys. pTrace st' = pTrace st @ [Log LevelWarn x ys]"
    by (auto simp: holdForOrder_def)
next
  assume nh: "\<not> held d st"
  note inv = invoke_simps [OF assms(3)] and pol = invoke_polite [OF assms(3,2)]
  have bar1: "barrierOf st1 = barrierOf st"
    using inv by (intro failed_barrier_cong) simp_all
  have same: "commitEvent d (pMsg st1) = commitEvent d (pMsg st)" "callsOnDLQ d (pMsg st1) = callsOnDLQ d (pMsg st)"
    "Identifier (pMsg st1) = Identifier (pMsg st)"
    using inv exhausted_original(2) [of "pMsg st1" "pMsg st" d] by (simp_all add: commitEvent_def)
  let ?out = "outcomes (pTrace st') = outcomes (pTrace st) @
        (if BackedOff (pMsg st1) then []
         else case r of HPanic p \<Rightarrow> [] | HRet None \<Rightarrow> [commitEvent d (pMsg st)]
           | HRet (Some e) \<Rightarrow> if callsOnDLQ d (pMsg st) then [CallOnDLQ (Identifier (pMsg st))] else [])"
  let ?bar = "failed (barrierOf st') (groupKey (pMsg st)) \<longleftrightarrow>
        failed (barrierOf st) (groupKey (pMsg st)) \<or>
        orderedGroups d \<and> barrierOf st \<noteq> None \<and>
          (\<exists>err. r = HRet err \<and> (err \<noteq> None \<or> BackedOff (pMsg st1)))"
  have "?out \<and> ?bar"
  proof (cases r)
    case (HPanic p)
    with assms(3,4) nh have "st' = st1" by (simp add: process_settle)
    with HPanic pol bar1 show ?thesis by simp
  next
    case (HRet err)
    with assms(3,4) nh have s: "settle d err st1 = (res, st')" by (simp add: process_settle)
    note spec = settle_spec [OF s assms(1)]
    have "barrierOf st' = (if err \<noteq> None \<or> BackedOff (pMsg st1) then barrierOf (failGroup d st1) else barrierOf st1)"
      using spec(2,3) by (auto intro: failed_barrier_cong)
    then show ?thesis
      using HRet spec(1) pol same bar1 inv by (auto simp: failed_failGroup split: option.split)
  qed
  then show ?out ?bar by blast+
qed

text \<open>
  C2: Under the Visibility model a message is committed exactly when its handler returned nil
  without asking for a backoff, once, through the configured delete path. A failure (an error or a
  backoff) commits nothing and, where groups are ordered, marks the group in the batch's barrier;
  a failed message whose receive count reached the DLQ limit is only observed. A message held back
  because its group failed is left untouched: no goroutine, no handler, no client call.
\<close>

theorem visibility_outcome:
  assumes "dRetryModel d \<noteq> ScheduledRetryModel" and "polite (dHandler d)"
    and "handled d c st = (r, st1)" and "process d c st = (res, st')"
  shows "(held d st \<longrightarrow> res = Return () \<and> pMsg st' = pMsg st \<and> pBarriers st' = pBarriers st \<and>
      (\<exists>x ys. pTrace st' = pTrace st @ [Log LevelWarn x ys])) \<and>
    (\<not> held d st \<longrightarrow>
      outcomes (pTrace st') = outcomes (pTrace st) @
        (if BackedOff (pMsg st1) then []
         else case r of HPanic p \<Rightarrow> [] | HRet None \<Rightarrow> [commitEvent d (pMsg st)]
           | HRet (Some e) \<Rightarrow> if callsOnDLQ d (pMsg st) then [CallOnDLQ (Identifier (pMsg st))] else []) \<and>
      (failed (barrierOf st') (groupKey (pMsg st)) \<longleftrightarrow>
        failed (barrierOf st) (groupKey (pMsg st)) \<or>
        orderedGroups d \<and> barrierOf st \<noteq> None \<and>
          (\<exists>err. r = HRet err \<and> (err \<noteq> None \<or> BackedOff (pMsg st1)))))"
  using assms by (rule visibility_step)

definition exampleDispatcher :: "(string \<Rightarrow> Middleware.handler \<Rightarrow> route) \<Rightarrow> err option \<Rightarrow> dispatcher" where
  "exampleDispatcher mk e = newDispatcher quietClient (mk ''q'' (\<lambda>c s. (HRet e, s))) ''https://q''
     exampleManager (Some \<lparr>createSchedule = (\<lambda>t. None)\<rparr>) (\<lambda>t. Inr (replicate 16 0)) (\<lambda>t. 0)
     (\<lambda>n. Return 0) []"

definition exampleState :: pstate where
  "exampleState = \<lparr>pMsg = example_message, pBarriers = (\<lambda>a. newGroupBarrier), pTrace = []\<rparr>"

lemma visibility_outcome_witness:
  "outcomes (pTrace (snd (process (exampleDispatcher defaultRoute None) \<lparr>spanCtx = None\<rparr> exampleState))) =
     [CallDelete ''https://q'' ''rh-1'']"
proof -
  let ?d = "exampleDispatcher defaultRoute None" and ?c = "\<lparr>spanCtx = None\<rparr>"
  have d: "dRetryModel ?d = VisibilityRetryModel" "dHandler ?d = (\<lambda>c s. (HRet None, s))"
    "\<not> dBatcher ?d" "dQueueURL ?d = ''https://q''" "dMode ?d = Parallel"
    by (simp_all add: exampleDispatcher_def newDispatcher_def defaultRoute_def Let_def)
  have pol: "polite (dHandler ?d)" by (simp add: d polite_def)
  obtain r st1 where h: "handled ?d ?c exampleState = (r, st1)" by force
  obtain res st' where p: "process ?d ?c exampleState = (res, st')" by force
  have st1: "r = HRet None" "backedOff (pMsg st1) = False"
    using h by (auto simp: invoke_def d absorb_def exampleState_def say_def example_message_def newMessage_def)
  have "\<not> held ?d exampleState" by (simp add: held_def orderedGroups_def d route_consts)
  moreover have "Identifier example_message = ''rh-1''"
    by (simp add: example_message_def newMessage_def Identifier_def)
  ultimately show ?thesis
    using visibility_outcome [OF _ pol h p] st1 p
    by (simp add: d commitEvent_def exampleState_def BackedOff_def route_consts)
qed

section \<open>The Scheduled Retry model\<close>

definition nextCount :: "message \<Rightarrow> go_int" where
  "nextCount msg = fst (parseRetryCount msg) + 1"

lemma outcomes_parseRetryCount [simp]: "outcomes (snd (parseRetryCount msg)) = []"
  by (simp add: parseRetryCount_def Let_def split: option.split)

text \<open>The trace at the call of \<open>processScheduled\<close>: a malformed count has been logged.\<close>

abbreviation askTrace :: "pstate \<Rightarrow> trace" where
  "askTrace st \<equiv> pTrace st @ snd (parseRetryCount (pMsg st))"

lemma processScheduled_success:
  assumes "processScheduled d None st = (res, st')" and "\<not> BackedOff (pMsg st)"
  shows "res = Return ()" "outcomes (pTrace st') = outcomes (pTrace st) @ [commitEvent d (pMsg st)]"
  using assms commitEvent_id [of "Dispatch (pMsg st)" "pMsg st" d]
  by (auto simp: processScheduled_def Let_def BackedOff_def)

lemma processScheduled_retry:
  assumes "processScheduled d err st = (res, st')" and "err \<noteq> None \<or> BackedOff (pMsg st)"
    and "dScheduledRetry d = Some cfg" and "dRetryScheduler d = Some rs"
    and "sint (nextCount (pMsg st)) \<le> sint (MaxRetryCount cfg)"
  shows "res = Return () \<and> (\<exists>e t'.
    schedule rs (askTrace st) (Dispatch (pMsg st)) (nextCount (pMsg st))
      (computeBackoff (nextCount (pMsg st)) (BaseBackoff cfg) (MaxBackoff cfg)) = (e, t') \<and>
    outcomes (pTrace st') = outcomes t' @ (if e = None then [commitEvent d (pMsg st)] else []))"
proof -
  let ?m = "Dispatch (pMsg st)"
  obtain current logs where pm: "parseRetryCount (pMsg st) = (current, logs)" by force
  have parse: "parseRetryCount ?m = (current, logs)"
    using original_parseRetryCount [of ?m "pMsg st"] pm by simp
  have nc: "nextCount (pMsg st) = current + 1" by (simp add: nextCount_def pm)
  obtain e t' where s: "schedule rs (pTrace st @ logs) ?m (current + 1)
      (computeBackoff (current + 1) (BaseBackoff cfg) (MaxBackoff cfg)) = (e, t')" by force
  have fail: "err \<noteq> None \<or> BackedOff ?m" using assms(2) by (simp add: BackedOff_def)
  have le: "current + 1 \<le>s MaxRetryCount cfg" using assms(5) by (simp add: go_sint nc)
  have "processScheduled d err st = (case (e, t') of
      (Some e, t') \<Rightarrow> (Return (), retained d ''failed to create retry schedule; retaining message''
         (current + 1) e (st\<lparr>pMsg := ?m, pTrace := t'\<rparr>))
    | (None, t') \<Rightarrow> (Return (), metric d ''IncRetry'' (deleteMessage d (st\<lparr>pMsg := ?m, pTrace := t'\<rparr>))))"
    using fail le by (simp add: processScheduled_def Let_def parse assms(3,4) s split: option.split)
  with assms(1) have "res = Return ()"
    "outcomes (pTrace st') = outcomes t' @ (if e = None then [commitEvent d ?m] else [])"
    by (auto simp: retained_def split: option.splits)
  moreover have "commitEvent d ?m = commitEvent d (pMsg st)" by (rule commitEvent_id) simp
  ultimately show ?thesis
    using s nc pm by (intro conjI exI [of _ e] exI [of _ t']) simp_all
qed

lemma processScheduled_dead:
  assumes "processScheduled d err st = (res, st')" and "err \<noteq> None \<or> BackedOff (pMsg st)"
    and "dScheduledRetry d = Some cfg" and "dDlqPublisher d = Some p"
    and "sint (MaxRetryCount cfg) < sint (nextCount (pMsg st))"
  shows "res = Return () \<and> (\<exists>e t'.
    publish p (askTrace st) (Dispatch (pMsg st)) (nextCount (pMsg st)) = (e, t') \<and>
    outcomes (pTrace st') = outcomes t' @ (if e = None then [commitEvent d (pMsg st)] else []))"
proof -
  let ?m = "Dispatch (pMsg st)"
  obtain current logs where pm: "parseRetryCount (pMsg st) = (current, logs)" by force
  have parse: "parseRetryCount ?m = (current, logs)"
    using original_parseRetryCount [of ?m "pMsg st"] pm by simp
  have nc: "nextCount (pMsg st) = current + 1" by (simp add: nextCount_def pm)
  obtain e t' where s: "publish p (pTrace st @ logs) ?m (current + 1) = (e, t')" by force
  have fail: "err \<noteq> None \<or> BackedOff ?m" using assms(2) by (simp add: BackedOff_def)
  have gt: "\<not> current + 1 \<le>s MaxRetryCount cfg" using assms(5) by (simp add: go_sint nc)
  have "processScheduled d err st = (case (e, t') of
      (Some e, t') \<Rightarrow> (Return (), retained d ''failed to publish message to DLQ; retaining message''
         (current + 1) e (st\<lparr>pMsg := ?m, pTrace := t'\<rparr>))
    | (None, t') \<Rightarrow> (Return (), metric d ''IncDeadLetter'' (deleteMessage d (st\<lparr>pMsg := ?m, pTrace := t'\<rparr>))))"
    using fail gt by (simp add: processScheduled_def Let_def parse assms(3,4) s split: option.split)
  with assms(1) have "res = Return ()"
    "outcomes (pTrace st') = outcomes t' @ (if e = None then [commitEvent d ?m] else [])"
    by (auto simp: retained_def split: option.splits)
  moreover have "commitEvent d ?m = commitEvent d (pMsg st)" by (rule commitEvent_id) simp
  ultimately show ?thesis
    using s nc pm by (intro conjI exI [of _ e] exI [of _ t']) simp_all
qed

text \<open>
  What a failed delivery asks for, call for call. A retry: one CreateSchedule call for the retry request of the
  message, its next count and the delay of that count, with the commit behind it when, and only when, the client
  accepted that very call. At the end of the retries: one SendMessage call to the DLQ with the message's body,
  attributes and group, and the commit on the same condition. Nothing is called when the system has no random
  bytes for the id of the call.
\<close>

definition asksRetry :: "dispatcher \<Rightarrow> retryScheduler \<Rightarrow> sched_config \<Rightarrow> trace \<Rightarrow> message \<Rightarrow> event list \<Rightarrow> bool" where
  "asksRetry d rs cfg t msg new \<longleftrightarrow> (case rsIdgen rs t [] of
     Inl e \<Rightarrow> new = []
   | Inr dedupID \<Rightarrow> \<exists>input call. marshalRequest (retryRequest rs msg (nextCount msg) dedupID) = Inr input \<and>
       call = CallSchedule (retrySchedule rs dedupID input (scheduleAt (rsNow rs t)
         (computeBackoff (nextCount msg) (BaseBackoff cfg) (MaxBackoff cfg)))) \<and>
       new = call # (if createSchedule (rsClient rs) (t @ [call]) = None then [commitEvent d msg] else []))"

definition deadLetter :: "dlqPublisher \<Rightarrow> message \<Rightarrow> send_input \<Rightarrow> bool" where
  "deadLetter p msg i \<longleftrightarrow> siQueueUrl i = dpQueueURL p \<and> siMessageBody i = Body msg \<and>
     siMessageAttributes i = buildDLQAttributes (UserMessageAttributes msg) (nextCount msg) \<and>
     siMessageGroupId i = (if SystemAttributeByKey msg messageGroupIDKey = [] then None
       else Some (SystemAttributeByKey msg messageGroupIDKey))"

definition asksDeadLetter :: "dispatcher \<Rightarrow> dlqPublisher \<Rightarrow> trace \<Rightarrow> message \<Rightarrow> event list \<Rightarrow> bool" where
  "asksDeadLetter d p t msg new \<longleftrightarrow>
     (if SystemAttributeByKey msg messageGroupIDKey \<noteq> [] \<and> (\<exists>e. dpDedup p t (UserMessageAttributes msg) = Inl e)
      then new = []
      else \<exists>i. deadLetter p msg i \<and>
        siMessageDeduplicationId i = (if SystemAttributeByKey msg messageGroupIDKey = [] then None
          else case dpDedup p t (UserMessageAttributes msg) of Inl e \<Rightarrow> None | Inr dedupID \<Rightarrow> Some dedupID) \<and>
        new = CallSend i # (if sendMessage (dpClient p) (t @ [CallSend i]) = None then [commitEvent d msg] else []))"

lemma schedule_asks:
  assumes "schedule rs t (Dispatch m) (nextCount m) (computeBackoff (nextCount m) (BaseBackoff cfg) (MaxBackoff cfg)) = (e, t')"
  shows "\<exists>new. outcomes t' @ (if e = None then [commitEvent d m] else []) = outcomes t @ new \<and> asksRetry d rs cfg t m new"
proof (cases "rsIdgen rs t []")
  case (Inl x)
  with assms show ?thesis by (auto simp: schedule_def asksRetry_def)
next
  case (Inr dedupID)
  have "retryRequest rs (Dispatch m) (nextCount m) dedupID = retryRequest rs m (nextCount m) dedupID"
    using original_accessors [of "Dispatch m" m] by (simp add: retryRequest_def)
  moreover obtain input where "marshalRequest (retryRequest rs m (nextCount m) dedupID) = Inr input"
    by (simp add: marshalRequest_def)
  ultimately show ?thesis
    using assms Inr by (auto simp: schedule_def asksRetry_def Let_def split: option.splits)
qed

lemma publish_asks:
  assumes "publish p t (Dispatch m) (nextCount m) = (e, t')"
  shows "\<exists>new. outcomes t' @ (if e = None then [commitEvent d m] else []) = outcomes t @ new \<and> asksDeadLetter d p t m new"
proof -
  have same: "SystemAttributeByKey (Dispatch m) messageGroupIDKey = SystemAttributeByKey m messageGroupIDKey"
    "UserMessageAttributes (Dispatch m) = UserMessageAttributes m" "Body (Dispatch m) = Body m"
    by (rule original_accessors; simp)+
  show ?thesis
  proof (cases "dlqInput p t (Dispatch m) (nextCount m)")
    case (Inl x)
    then have "asksDeadLetter d p t m []"
      by (auto simp: dlqInput_def asksDeadLetter_def same Let_def split: sum.splits if_splits)
    with Inl assms show ?thesis by (auto simp: publish_def)
  next
    case (Inr i)
    let ?new = "CallSend i # (if sendMessage (dpClient p) (t @ [CallSend i]) = None then [commitEvent d m] else [])"
    have "asksDeadLetter d p t m ?new"
      using Inr by (auto simp: dlqInput_def asksDeadLetter_def deadLetter_def same Let_def split: sum.splits if_splits)
    moreover have "outcomes t' @ (if e = None then [commitEvent d m] else []) = outcomes t @ ?new"
      using Inr assms by (auto simp: publish_def Let_def split: option.splits)
    ultimately show ?thesis by blast
  qed
qed

lemma asks_original:
  assumes "original m = original m'"
  shows "asksRetry d rs cfg t m = asksRetry d rs cfg t m'" "asksDeadLetter d p t m = asksDeadLetter d p t m'"
proof -
  note eqs = original_parseRetryCount [OF assms] original_accessors [OF assms]
  show "asksRetry d rs cfg t m = asksRetry d rs cfg t m'"
    by (rule ext) (simp only: asksRetry_def nextCount_def retryRequest_def commitEvent_def eqs)
  have "deadLetter p m = deadLetter p m'" by (rule ext) (simp only: deadLetter_def nextCount_def eqs)
  then show "asksDeadLetter d p t m = asksDeadLetter d p t m'"
    by (intro ext) (simp only: asksDeadLetter_def commitEvent_def eqs)
qed

text \<open>With random bytes at hand, the call is made.\<close>

lemma asks_made:
  "asksRetry d rs cfg t m new \<Longrightarrow> rsIdgen rs t [] = Inr dedupID \<Longrightarrow> \<exists>i. take 1 new = [CallSchedule i]"
  "asksDeadLetter d p t m new \<Longrightarrow> dpDedup p t (UserMessageAttributes m) = Inr dedupID \<Longrightarrow>
    \<exists>i. take 1 new = [CallSend i] \<and> deadLetter p m i"
  by (auto simp: asksRetry_def asksDeadLetter_def split: if_splits)

lemma failure_asks:
  assumes "res = Return () \<and> (\<exists>new. out new \<and>
    (if P then asksRetry d rs cfg t m new else asksDeadLetter d p t m new))"
  shows "res = Return () \<and> (\<exists>new. out new \<and>
    (if P then asksRetry d rs cfg t m new \<and>
       ((\<forall>t. \<exists>dedupID. rsIdgen rs t [] = Inr dedupID) \<longrightarrow> (\<exists>i. take 1 new = [CallSchedule i]))
     else asksDeadLetter d p t m new \<and>
       ((\<forall>t m. \<exists>dedupID. dpDedup p t m = Inr dedupID) \<longrightarrow> (\<exists>i. take 1 new = [CallSend i] \<and> deadLetter p m i))))"
  using assms asks_made(1) [of d rs cfg t m] asks_made(2) [of d p t m] by (cases P) (simp; metis)+

lemma scheduled_run:
  assumes "dRetryModel d = ScheduledRetryModel" and "handled d c st = (HRet err, st1)" and "process d c st = (res, st')"
  shows "processScheduled d err st1 = (res, st')"
proof -
  have nh: "\<not> held d st" using assms(1) by (simp add: held_def orderedGroups_def route_consts)
  show ?thesis using assms(3) unfolding process_handled [OF nh] assms(2) by (simp add: assms(1))
qed

lemma nextCount_original:
  assumes "original m = original m'"
  shows "nextCount m = nextCount m'"
  unfolding nextCount_def original_parseRetryCount [OF assms] ..

text \<open>The failure of a delivery under the Scheduled Retry model.\<close>

lemma scheduled_failure:
  assumes "dRetryModel d = ScheduledRetryModel" and "polite (dHandler d)"
    and "dScheduledRetry d = Some cfg" and "dRetryScheduler d = Some rs" and "dDlqPublisher d = Some p"
    and "handled d c st = (HRet err, st1)" and "err \<noteq> None \<or> BackedOff (pMsg st1)" and "process d c st = (res, st')"
  shows "res = Return () \<and> (\<exists>new. outcomes (pTrace st') = outcomes (pTrace st) @ new \<and>
    (if sint (nextCount (pMsg st)) \<le> sint (MaxRetryCount cfg) then asksRetry d rs cfg (askTrace st1) (pMsg st) new
     else asksDeadLetter d p (askTrace st1) (pMsg st) new))"
proof -
  have orig: "original (pMsg st1) = original (pMsg st)" using invoke_simps(1) [OF assms(6)] by simp
  note nc = nextCount_original [OF orig] and asks = asks_original [OF orig] and pol = invoke_polite [OF assms(6,2)]
  have ps: "processScheduled d err st1 = (res, st')" by (rule scheduled_run [OF assms(1,6,8)])
  show ?thesis
  proof (cases "sint (nextCount (pMsg st)) \<le> sint (MaxRetryCount cfg)")
    case True
    with processScheduled_retry [OF ps assms(7,3,4)] obtain e t' where res: "res = Return ()"
      and s: "schedule rs (askTrace st1) (Dispatch (pMsg st1)) (nextCount (pMsg st1))
          (computeBackoff (nextCount (pMsg st1)) (BaseBackoff cfg) (MaxBackoff cfg)) = (e, t')"
      and out: "outcomes (pTrace st') = outcomes t' @ (if e = None then [commitEvent d (pMsg st1)] else [])"
      by (auto simp: nc)
    from schedule_asks [OF s, of d] out pol asks(1) res True show ?thesis by auto
  next
    case False
    with processScheduled_dead [OF ps assms(7,3,5)] obtain e t' where res: "res = Return ()"
      and s: "publish p (askTrace st1) (Dispatch (pMsg st1)) (nextCount (pMsg st1)) = (e, t')"
      and out: "outcomes (pTrace st') = outcomes t' @ (if e = None then [commitEvent d (pMsg st1)] else [])"
      by (auto simp: nc)
    from publish_asks [OF s, of d] out pol asks(2) res False show ?thesis by auto
  qed
qed

lemma asks_weaken:
  "asksRetry d rs cfg t m new \<Longrightarrow> new = [] \<or> (\<exists>i. new = [CallSchedule i]) \<or>
     (\<exists>i t. new = [CallSchedule i, commitEvent d m] \<and> createSchedule (rsClient rs) (t @ [CallSchedule i]) = None)"
  "asksDeadLetter d p t m new \<Longrightarrow> new = [] \<or> (\<exists>i. new = [CallSend i]) \<or>
     (\<exists>i t. new = [CallSend i, commitEvent d m] \<and> sendMessage (dpClient p) (t @ [CallSend i]) = None)"
  by (auto simp: asksRetry_def asksDeadLetter_def split: sum.splits if_splits)

lemma scheduled_step:
  assumes "dRetryModel d = ScheduledRetryModel" and "polite (dHandler d)"
    and "dScheduledRetry d = Some cfg" and "dRetryScheduler d = Some rs" and "dDlqPublisher d = Some p"
    and "handled d c st = (r, st1)" and "process d c st = (res, st')"
  shows "\<exists>new. outcomes (pTrace st') = outcomes (pTrace st) @ new \<and>
    (case r of HPanic x \<Rightarrow> res = Panic x \<and> new = []
     | HRet err \<Rightarrow> res = Return () \<and>
       (if err = None \<and> \<not> BackedOff (pMsg st1) then new = [commitEvent d (pMsg st)]
        else if sint (nextCount (pMsg st)) \<le> sint (MaxRetryCount cfg) then
          new = [] \<or> (\<exists>i. new = [CallSchedule i]) \<or>
          (\<exists>i t. new = [CallSchedule i, commitEvent d (pMsg st)] \<and>
             createSchedule (rsClient rs) (t @ [CallSchedule i]) = None)
        else
          new = [] \<or> (\<exists>i. new = [CallSend i]) \<or>
          (\<exists>i t. new = [CallSend i, commitEvent d (pMsg st)] \<and>
             sendMessage (dpClient p) (t @ [CallSend i]) = None)))"
proof (cases r)
  case (HPanic x)
  have nh: "\<not> held d st" using assms(1) by (simp add: held_def orderedGroups_def route_consts)
  have "(res, st') = (Panic x, st1)"
    using assms(7) unfolding process_runs [OF nh] assms(6) HPanic by simp
  with HPanic invoke_polite [OF assms(6,2)] show ?thesis by simp
next
  case (HRet err)
  note h = assms(6) [unfolded HRet]
  show ?thesis
  proof (cases "err = None \<and> \<not> BackedOff (pMsg st1)")
    case True
    have "commitEvent d (pMsg st1) = commitEvent d (pMsg st)"
      using invoke_simps(2) [OF h] by (intro commitEvent_id) simp
    with True processScheduled_success [of d st1] scheduled_run [OF assms(1) h assms(7)] invoke_polite [OF h assms(2)] HRet
    show ?thesis by simp
  next
    case False
    then have "err \<noteq> None \<or> BackedOff (pMsg st1)" by simp
    from scheduled_failure [OF assms(1-5) h this assms(7)] obtain new where "res = Return ()"
      "outcomes (pTrace st') = outcomes (pTrace st) @ new"
      "if sint (nextCount (pMsg st)) \<le> sint (MaxRetryCount cfg) then asksRetry d rs cfg (askTrace st1) (pMsg st) new
       else asksDeadLetter d p (askTrace st1) (pMsg st) new" by blast
    with asks_weaken(1) [of d rs cfg "askTrace st1" "pMsg st" new] asks_weaken(2) [of d p "askTrace st1" "pMsg st" new]
      HRet False show ?thesis
      by (intro exI [of _ new]) (cases "sint (nextCount (pMsg st)) \<le> sint (MaxRetryCount cfg)"; simp; blast)
  qed
qed

text \<open>
  C1: Under the Scheduled Retry model the original message is committed only once its fate is
  safe. A handler that returns nil without a backoff commits it. After a failure (an error or a
  backoff) with the next count within the maximum, at most one schedule is requested and no DLQ
  message is sent, and the commit follows exactly when the schedule was accepted; above the maximum
  the same holds of one DLQ message and no schedule. A panicking handler decides nothing.
\<close>

theorem scheduled_outcome:
  assumes "dRetryModel d = ScheduledRetryModel" and "polite (dHandler d)"
    and "dScheduledRetry d = Some cfg" and "dRetryScheduler d = Some rs" and "dDlqPublisher d = Some p"
    and "handled d c st = (r, st1)" and "process d c st = (res, st')"
  shows "\<exists>new. outcomes (pTrace st') = outcomes (pTrace st) @ new \<and>
    (case r of HPanic x \<Rightarrow> res = Panic x \<and> new = []
     | HRet err \<Rightarrow> res = Return () \<and>
       (if err = None \<and> \<not> BackedOff (pMsg st1) then new = [commitEvent d (pMsg st)]
        else if sint (nextCount (pMsg st)) \<le> sint (MaxRetryCount cfg) then
          new = [] \<or> (\<exists>i. new = [CallSchedule i]) \<or>
          (\<exists>i t. new = [CallSchedule i, commitEvent d (pMsg st)] \<and>
             createSchedule (rsClient rs) (t @ [CallSchedule i]) = None)
        else
          new = [] \<or> (\<exists>i. new = [CallSend i]) \<or>
          (\<exists>i t. new = [CallSend i, commitEvent d (pMsg st)] \<and>
             sendMessage (dpClient p) (t @ [CallSend i]) = None)))"
  by (rule scheduled_step [OF assms])

text \<open>Collaborators of a dispatcher built for a route.\<close>

definition scheduledRoute :: "string \<Rightarrow> Middleware.handler \<Rightarrow> route" where
  "scheduledRoute q h = (defaultRoute q h)\<lparr>retryModel := ScheduledRetryModel, scheduledRetry := Some
     \<lparr>TargetQueueARN = ''arn:q'', ExecutionRoleARN = ''arn:role'', DLQQueueURL = ''https://dlq'',
      MaxRetryCount = 3, BaseBackoff = second, MaxBackoff = 60 * second\<rparr>\<rparr>"

lemma newDispatcher_simps:
  "dRetryModel (newDispatcher cl r url vm sc rd now rnd gs) = retryModel r"
  "dHandler (newDispatcher cl r url vm sc rd now rnd gs) = Chain (gs @ middlewares r) (route.handler r)"
  "dDlq (newDispatcher cl r url vm sc rd now rnd gs) = dlqConfig r"
  "dMode (newDispatcher cl r url vm sc rd now rnd gs) = runMode r"
  "dQueueURL (newDispatcher cl r url vm sc rd now rnd gs) = url"
  "dWorkerPoolSize (newDispatcher cl r url vm sc rd now rnd gs) =
     (if workerPoolSize r <s 1 then 1 else workerPoolSize r)"
  "dCustomGroupFields (newDispatcher cl r url vm sc rd now rnd gs) = customGroupFields r"
  "dRandIntN (newDispatcher cl r url vm sc rd now rnd gs) = rnd"
  "dBatcher (newDispatcher cl r url vm sc rd now rnd gs) = False"
  by (simp_all add: newDispatcher_def Let_def split: option.split)

lemma newDispatcher_collaborators:
  "dScheduledRetry (newDispatcher cl r url vm sc rd now rnd gs) =
     (if retryModel r = ScheduledRetryModel \<and> sc \<noteq> None then scheduledRetry r else None)"
  "dRetryScheduler (newDispatcher cl r url vm sc rd now rnd gs) = None \<longleftrightarrow>
     dScheduledRetry (newDispatcher cl r url vm sc rd now rnd gs) = None"
  "dDlqPublisher (newDispatcher cl r url vm sc rd now rnd gs) = None \<longleftrightarrow>
     dScheduledRetry (newDispatcher cl r url vm sc rd now rnd gs) = None"
  by (simp_all add: newDispatcher_def Let_def split: option.split)

lemma scheduled_outcome_witness:
  "\<exists>i. outcomes (pTrace (snd (process (exampleDispatcher scheduledRoute (Some (External ''boom'')))
     \<lparr>spanCtx = None\<rparr> exampleState))) \<in> {[], [CallSchedule i], [CallSchedule i, CallDelete ''https://q'' ''rh-1'']}"
proof -
  let ?d = "exampleDispatcher scheduledRoute (Some (External ''boom''))" and ?c = "\<lparr>spanCtx = None\<rparr>"
  obtain cfg rs p where co: "dScheduledRetry ?d = Some cfg" "dRetryScheduler ?d = Some rs"
    "dDlqPublisher ?d = Some p" "sint (MaxRetryCount cfg) = 3"
    by (simp add: exampleDispatcher_def newDispatcher_def scheduledRoute_def defaultRoute_def Let_def)
  have d: "dRetryModel ?d = ScheduledRetryModel" "dHandler ?d = (\<lambda>c s. (HRet (Some (External ''boom'')), s))"
    "\<not> dBatcher ?d" "dQueueURL ?d = ''https://q''"
    by (simp_all add: exampleDispatcher_def newDispatcher_simps scheduledRoute_def defaultRoute_def)
  have pol: "polite (dHandler ?d)" by (simp add: d polite_def)
  obtain r st1 where h: "handled ?d ?c exampleState = (r, st1)" by force
  obtain res st' where run: "process ?d ?c exampleState = (res, st')" by force
  have r: "r = HRet (Some (External ''boom''))" using h by (auto simp: invoke_def d)
  have "UserMessageAttribute example_message retryCountAttribute = itoa 2"
    by (simp add: example_message_def newMessage_def UserMessageAttribute_def retryCountAttribute_def
        itoa_def digits10.simps digit_def char_of_def bit_simps)
  then have "parseRetryCount example_message = (2, [])"
    by (simp add: parseRetryCount_def Let_def go_sint)
  then have "sint (nextCount (pMsg exampleState)) \<le> sint (MaxRetryCount cfg)"
    by (simp add: nextCount_def exampleState_def co(4))
  moreover have "Identifier example_message = ''rh-1''"
    by (simp add: example_message_def newMessage_def Identifier_def)
  ultimately show ?thesis
    using scheduled_outcome [OF d(1) pol co(1-3) h run] r run
    by (auto simp: d commitEvent_def exampleState_def)
qed

lemma processScheduled_returns:
  assumes "dScheduledRetry d = Some cfg" and "dRetryScheduler d = Some rs" and "dDlqPublisher d = Some p"
  shows "fst (processScheduled d err st) = Return ()"
proof -
  obtain res st' where ps: "processScheduled d err st = (res, st')" by force
  consider "err = None" "\<not> BackedOff (pMsg st)"
    | "err \<noteq> None \<or> BackedOff (pMsg st)" "sint (nextCount (pMsg st)) \<le> sint (MaxRetryCount cfg)"
    | "err \<noteq> None \<or> BackedOff (pMsg st)" "sint (MaxRetryCount cfg) < sint (nextCount (pMsg st))"
    by linarith
  then show ?thesis
  proof cases
    case 1
    with processScheduled_success [of d st res st'] ps show ?thesis by simp
  next
    case 2
    with processScheduled_retry [OF ps 2(1) assms(1,2) 2(2)] ps show ?thesis by simp
  next
    case 3
    with processScheduled_dead [OF ps 3(1) assms(1,3) 3(2)] ps show ?thesis by simp
  qed
qed

lemma observeDLQ_panics:
  "observeDLQ d st = (Panic x, st') \<Longrightarrow>
   \<exists>dlq fn t. dDlq d = Some dlq \<and> OnDLQ dlq = Some fn \<and> fn t = Some x"
  by (auto simp: observeDLQ_def Let_def split: option.splits if_splits)

lemma process_panics_from:
  assumes "process d c st = (Panic x, st')"
  shows "(\<exists>st1. handled d c st = (HPanic x, st1)) \<or>
    (\<exists>dlq fn t. dDlq d = Some dlq \<and> OnDLQ dlq = Some fn \<and> fn t = Some x) \<or>
    (dRetryModel d = ScheduledRetryModel \<and> (\<exists>err st1. fst (processScheduled d err st1) \<noteq> Return ()))"
proof -
  have nh: "\<not> held d st" using assms by (auto simp: process_def held_def)
  obtain r st1 where h: "handled d c st = (r, st1)" by force
  show ?thesis
  proof (cases r)
    case (HPanic p)
    with assms h nh show ?thesis by (simp add: process_handled)
  next
    case (HRet err)
    show ?thesis
    proof (cases "dRetryModel d = ScheduledRetryModel")
      case True
      with assms h HRet nh have "processScheduled d err st1 = (Panic x, st')"
        by (simp add: process_handled)
      with True show ?thesis by (metis fst_conv outcome.distinct(1))
    next
      case False
      with assms h HRet nh have "\<exists>st2 st3. observeDLQ d st2 = (Panic x, st3)"
        by (auto simp: process_handled Let_def split: if_splits option.splits prod.splits
            outcome.splits bool.splits)
      then show ?thesis using observeDLQ_panics by blast
    qed
  qed
qed

text \<open>
  Processing a message crashes the worker only through user code: the handler panicked, or the
  \<open>OnDLQ\<close> callback did, provided a route on the Scheduled Retry model carries its configuration and
  the consumer has a scheduler client. Without the configuration, which \<open>WithRetryModel\<close> alone
  leaves nil, the first failed message dereferences a nil pointer.
\<close>

theorem process_panics:
  assumes "d = (newDispatcher cl r url vm sc rd now rnd gs)\<lparr>dMetrics := ms, dBatcher := b\<rparr>"
  shows "((retryModel r = ScheduledRetryModel \<longrightarrow> scheduledRetry r \<noteq> None \<and> sc \<noteq> None) \<and>
      process d c st = (Panic x, st') \<longrightarrow>
      (\<exists>st1. handled d c st = (HPanic x, st1)) \<or>
      (\<exists>dlq fn t. dlqConfig r = Some dlq \<and> OnDLQ dlq = Some fn \<and> fn t = Some x)) \<and>
    (retryModel r = ScheduledRetryModel \<and> scheduledRetry r = None \<and>
      handled d c st = (HRet (Some e), st1) \<longrightarrow> (\<exists>st'. process d c st = (Panic nilDeref, st')))"
proof (intro conjI impI; elim conjE)
  let ?d = "newDispatcher cl r url vm sc rd now rnd gs"
  assume safe: "retryModel r = ScheduledRetryModel \<longrightarrow> scheduledRetry r \<noteq> None \<and> sc \<noteq> None"
    and run: "process d c st = (Panic x, st')"
  have "fst (processScheduled d err s) = Return ()" if "dRetryModel d = ScheduledRetryModel" for err s
  proof -
    have "retryModel r = ScheduledRetryModel" using that by (simp add: assms newDispatcher_simps)
    with safe obtain cfg rs p where "dScheduledRetry d = Some cfg" "dRetryScheduler d = Some rs"
      "dDlqPublisher d = Some p"
      using newDispatcher_collaborators [of cl r url vm sc rd now rnd gs] by (auto simp: assms)
    then show ?thesis by (rule processScheduled_returns)
  qed
  with process_panics_from [OF run] show
    "(\<exists>st1. handled d c st = (HPanic x, st1)) \<or>
     (\<exists>dlq fn t. dlqConfig r = Some dlq \<and> OnDLQ dlq = Some fn \<and> fn t = Some x)"
    by (auto simp: assms newDispatcher_simps)
next
  assume model: "retryModel r = ScheduledRetryModel" "scheduledRetry r = None"
    and h: "handled d c st = (HRet (Some e), st1)"
  have d: "dRetryModel d = ScheduledRetryModel" "dScheduledRetry d = None"
    using model by (simp_all add: assms newDispatcher_simps newDispatcher_collaborators)
  then have "\<not> held d st" by (simp add: held_def orderedGroups_def route_consts)
  with h d show "\<exists>st'. process d c st = (Panic nilDeref, st')"
    by (simp add: process_handled processScheduled_def Let_def case_prod_beta)
qed

lemma process_panics_witness:
  "\<exists>st'. process (exampleDispatcher (\<lambda>q h. (defaultRoute q h)\<lparr>retryModel := ScheduledRetryModel\<rparr>)
     (Some (External ''boom''))) \<lparr>spanCtx = None\<rparr> exampleState = (Panic nilDeref, st')"
proof -
  let ?r = "(defaultRoute ''q'' (\<lambda>c s. (HRet (Some (External ''boom'')), s)))\<lparr>retryModel := ScheduledRetryModel\<rparr>"
  let ?d = "newDispatcher quietClient ?r ''https://q'' exampleManager (Some \<lparr>createSchedule = (\<lambda>t. None)\<rparr>)
    (\<lambda>t. Inr (replicate 16 0)) (\<lambda>t. 0) (\<lambda>n. Return 0) []"
  have d: "exampleDispatcher (\<lambda>q h. (defaultRoute q h)\<lparr>retryModel := ScheduledRetryModel\<rparr>)
     (Some (External ''boom'')) = ?d\<lparr>dMetrics := dMetrics ?d, dBatcher := dBatcher ?d\<rparr>"
    by (simp add: exampleDispatcher_def)
  have "\<exists>st1. handled (exampleDispatcher (\<lambda>q h. (defaultRoute q h)\<lparr>retryModel := ScheduledRetryModel\<rparr>)
     (Some (External ''boom''))) \<lparr>spanCtx = None\<rparr> exampleState = (HRet (Some (External ''boom'')), st1)"
    by (simp add: exampleDispatcher_def invoke_def newDispatcher_simps defaultRoute_def)
  then show ?thesis using process_panics [OF d, THEN conjunct2] by (auto simp: defaultRoute_def)
qed

section \<open>A message that keeps failing\<close>

text \<open>
  The message SQS delivers when the scheduled SendMessage request runs: the request's body, group id
  and attributes, under a new receipt handle \<open>h\<close>; and the k-th such redelivery of a message.
\<close>

definition redelivery :: "(string \<Rightarrow> sns_envelope) \<Rightarrow> string \<Rightarrow> message \<Rightarrow> go_int \<Rightarrow> message" where
  "redelivery parse h msg n = newMessage parse
     \<lparr>smBody = Some (Body msg), smReceiptHandle = Some h,
      smAttributes = [(messageGroupIDKey, SystemAttributeByKey msg messageGroupIDKey)],
      smMessageAttributes = map (\<lambda>(k, a). (k, Some (stringValue a)))
        (buildRetryAttributes (UserMessageAttributes msg) n)\<rparr>"

primrec attempt :: "(string \<Rightarrow> sns_envelope) \<Rightarrow> (nat \<Rightarrow> string) \<Rightarrow> message \<Rightarrow> nat \<Rightarrow> message" where
  "attempt parse h msg 0 = msg"
| "attempt parse h msg (Suc k) =
     redelivery parse (h k) (attempt parse h msg k) (nextCount (attempt parse h msg k))"

lemma parse_redelivery:
  assumes "0 \<le> sint n"
  shows "parseRetryCount (redelivery parse h msg n) = (n, [])"
proof -
  have "lookup (map (\<lambda>(k, a). (k, Some (stringValue a))) m) k = map_option (Some \<circ> stringValue) (lookup m k)"
    for m :: "attr_value gomap" and k
    by (induction m) auto
  then have "UserMessageAttribute (redelivery parse h msg n) retryCountAttribute = itoa n"
    using rb.build_count [of "UserMessageAttributes msg" n]
    by (simp add: UserMessageAttribute_def redelivery_def newMessage_def number_def)
  then show ?thesis using assms by (simp add: parseRetryCount_def Let_def go_sint)
qed

lemma attempt_keeps: "Body (attempt parse h msg k) = Body msg"
  "SystemAttributeByKey (attempt parse h msg k) messageGroupIDKey = SystemAttributeByKey msg messageGroupIDKey"
  by (induction k) (simp_all add: redelivery_def newMessage_def Body_def SystemAttributeByKey_def)

lemma attempt_count:
  assumes "sint (fst (parseRetryCount msg)) + int k < 2 ^ 63 - 1"
  shows "sint (nextCount (attempt parse h msg k)) = sint (fst (parseRetryCount msg)) + int k + 1"
  using assms
proof (induction k)
  case 0
  then show ?case using parseRetryCount_nonneg [of msg] by (simp add: nextCount_def sint64_add)
next
  case (Suc k)
  then have n: "sint (nextCount (attempt parse h msg k)) = sint (fst (parseRetryCount msg)) + int k + 1"
    by simp
  then have "0 \<le> sint (nextCount (attempt parse h msg k))"
    using parseRetryCount_nonneg [of msg] by linarith
  with Suc.prems n show ?case
    by (simp add: nextCount_def [of "redelivery _ _ _ _"] parse_redelivery sint64_add)
qed

text \<open>
  C3: A message whose handler always fails reaches the DLQ after exactly as many retries as the
  route still allows. Starting from count c (c at most the maximum m, as validated), its k-th
  redelivery carries the original body and group id and the count c + k; as long as c + k < m its
  failure asks for a retry, by one CreateSchedule call and no DLQ message, and the redelivery with
  c + k = m is dead-lettered, by one SendMessage call to the DLQ with the original body and group
  and the count m + 1, and never scheduled again. Either call is made unless the random source fails for its
  id, and is followed by the commit of that delivery exactly when the client accepted it.
\<close>

theorem failing_message_reaches_dlq:
  assumes "dRetryModel d = ScheduledRetryModel" and "polite (dHandler d)"
    and "dScheduledRetry d = Some cfg" and "dRetryScheduler d = Some rs" and "dDlqPublisher d = Some p"
    and "valid_sched cfg" and "sint (fst (parseRetryCount msg)) + int k \<le> sint (MaxRetryCount cfg)"
    and "pMsg st = attempt parse h msg k"
    and "handled d c st = (HRet err, st1)" and "err \<noteq> None \<or> BackedOff (pMsg st1)"
    and "process d c st = (res, st')"
  shows "Body (pMsg st) = Body msg \<and>
    SystemAttributeByKey (pMsg st) messageGroupIDKey = SystemAttributeByKey msg messageGroupIDKey \<and>
    sint (nextCount (pMsg st)) = sint (fst (parseRetryCount msg)) + int k + 1 \<and>
    res = Return () \<and>
    (\<exists>new. outcomes (pTrace st') = outcomes (pTrace st) @ new \<and>
       (if sint (fst (parseRetryCount msg)) + int k < sint (MaxRetryCount cfg)
        then asksRetry d rs cfg (askTrace st1) (pMsg st) new \<and>
          ((\<forall>t. \<exists>dedupID. rsIdgen rs t [] = Inr dedupID) \<longrightarrow> (\<exists>i. take 1 new = [CallSchedule i]))
        else asksDeadLetter d p (askTrace st1) (pMsg st) new \<and>
          ((\<forall>t m. \<exists>dedupID. dpDedup p t m = Inr dedupID) \<longrightarrow>
             (\<exists>i. take 1 new = [CallSend i] \<and> deadLetter p (pMsg st) i))))"
proof -
  have "sint (MaxRetryCount cfg) \<le> 2147483647" using assms(6) by (simp add: valid_sched_def)
  then have n: "sint (nextCount (pMsg st)) = sint (fst (parseRetryCount msg)) + int k + 1"
    using assms(7) unfolding assms(8) by (intro attempt_count) simp
  then have "sint (nextCount (pMsg st)) \<le> sint (MaxRetryCount cfg) \<longleftrightarrow>
      sint (fst (parseRetryCount msg)) + int k < sint (MaxRetryCount cfg)" by auto
  note failure_asks [OF scheduled_failure [OF assms(1-5,9-11)], unfolded this]
  with n show ?thesis unfolding assms(8) by (simp add: attempt_keeps)
qed

text \<open>
  The count itself can wrap: a message received with the largest 64-bit count gets a negative next
  count, which is below every maximum, so it is scheduled again instead of dead-lettered.
\<close>

lemma retry_count_wraps:
  assumes "UserMessageAttribute msg retryCountAttribute = itoa 0x7FFFFFFFFFFFFFFF"
  shows "sint (nextCount msg) = - (2 ^ 63)"
  using assms by (simp add: nextCount_def parseRetryCount_def Let_def go_sint)

lemma exampleDispatcher_scheduled:
  assumes "d = exampleDispatcher scheduledRoute (Some (External ''boom''))"
  shows "\<exists>cfg rs p. dScheduledRetry d = Some cfg \<and> dRetryScheduler d = Some rs \<and> dDlqPublisher d = Some p \<and>
      valid_sched cfg \<and> sint (MaxRetryCount cfg) = 3 \<and> dpClient p = quietClient \<and> dpQueueURL p = ''https://dlq'' \<and>
      (\<forall>t m. \<exists>dedupID. dpDedup p t m = Inr dedupID)"
    "dRetryModel d = ScheduledRetryModel" "dHandler d = (\<lambda>c s. (HRet (Some (External ''boom'')), s))"
    "polite (dHandler d)"
  unfolding assms
  by (simp_all add: exampleDispatcher_def newDispatcher_def scheduledRoute_def defaultRoute_def Let_def
      valid_sched_def second_def polite_def randomGenerate_def)

lemma failing_message_reaches_dlq_witness:
  "\<exists>i. outcomes (pTrace (snd (process (exampleDispatcher scheduledRoute (Some (External ''boom'')))
     \<lparr>spanCtx = None\<rparr> (exampleState\<lparr>pMsg := attempt (\<lambda>b. zero_envelope) (\<lambda>k. ''rh'') example_message 1\<rparr>)))) =
       [CallSend i, CallDelete ''https://q'' ''rh''] \<and> siQueueUrl i = ''https://dlq'' \<and> siMessageBody i = ''hi''"
proof -
  let ?d = "exampleDispatcher scheduledRoute (Some (External ''boom''))" and ?c = "\<lparr>spanCtx = None\<rparr>"
  define m where "m = attempt (\<lambda>b. zero_envelope) (\<lambda>k. ''rh'') example_message 1"
  let ?st = "exampleState\<lparr>pMsg := m\<rparr>"
  note d = exampleDispatcher_scheduled [OF refl]
  obtain cfg rs p where co: "dScheduledRetry ?d = Some cfg" "dRetryScheduler ?d = Some rs"
    "dDlqPublisher ?d = Some p" "valid_sched cfg" "sint (MaxRetryCount cfg) = 3"
    and p: "dpClient p = quietClient" "dpQueueURL p = ''https://dlq''" "\<forall>t m. \<exists>dedupID. dpDedup p t m = Inr dedupID"
    using d(1) by blast
  obtain r st1 where h: "handled ?d ?c ?st = (r, st1)" by force
  obtain res st' where run: "process ?d ?c ?st = (res, st')" by force
  have r: "r = HRet (Some (External ''boom''))" using h by (auto simp: invoke_def d)
  have "UserMessageAttribute example_message retryCountAttribute = itoa 2"
    by (simp add: example_message_def newMessage_def UserMessageAttribute_def retryCountAttribute_def
        itoa_def digits10.simps digit_def char_of_def bit_simps)
  then have c: "sint (fst (parseRetryCount example_message)) = 2"
    by (simp add: parseRetryCount_def Let_def go_sint)
  have id: "Identifier m = ''rh''" by (simp add: m_def redelivery_def newMessage_def Identifier_def)
  have q: "commitEvent ?d m = CallDelete ''https://q'' ''rh''"
    by (simp only: commitEvent_def id) (simp add: exampleDispatcher_def newDispatcher_simps)
  have le: "sint (fst (parseRetryCount example_message)) + int 1 \<le> sint (MaxRetryCount cfg)"
    by (simp add: c co(5))
  have pm: "pMsg ?st = attempt (\<lambda>b. zero_envelope) (\<lambda>k. ''rh'') example_message 1" by (simp add: m_def)
  from failing_message_reaches_dlq [OF d(2,4) co(1-4) le pm h [unfolded r] _ run]
  obtain new where out: "outcomes (pTrace st') = new" and ask: "asksDeadLetter ?d p (askTrace st1) m new"
    and made: "\<exists>i. take 1 new = [CallSend i] \<and> deadLetter p m i" and body: "Body m = Body example_message"
    using p(3) by (auto simp: c co(5) exampleState_def)
  from ask made have "\<exists>i. new = [CallSend i, commitEvent ?d m] \<and> siQueueUrl i = ''https://dlq'' \<and> siMessageBody i = Body example_message"
    by (auto simp: asksDeadLetter_def deadLetter_def p(1,2) body quietClient_def split: if_splits)
  then show ?thesis unfolding q out [symmetric] m_def [symmetric] run by (simp add: example_message_values)
qed

section \<open>Routing a message\<close>

lemma pool_low_bits:
  "uint (ucast n :: 32 word) = uint n mod 2 ^ 32" "uint n mod 2 ^ 32 = sint n mod 2 ^ 32" for n :: go_int
proof -
  show "uint (ucast n :: 32 word) = uint n mod 2 ^ 32" by (simp add: unsigned_ucast_eq take_bit_eq_mod)
  have "uint n = sint n mod 2 ^ 64"
    using uint_sint [of n] by (simp add: take_bit_eq_mod)
  then show "uint n mod 2 ^ 32 = sint n mod 2 ^ 32"
    by (simp add: mod_mod_cancel)
qed

lemma sint_ucast_32: "sint (ucast (x :: 32 word) :: go_int) = uint x"
proof -
  have x: "0 \<le> uint x" "uint x < 2 ^ 32" using unsigned_less [of x] by simp_all
  have "(ucast x :: go_int) = word_of_int (uint x)" by simp
  then show ?thesis using sint64_of_int [of "uint x"] x by simp
qed

lemma groupIndex_cases:
  "groupIndex d key = (if sint (dWorkerPoolSize d) mod 2 ^ 32 = 0
     then Panic ''runtime error: integer divide by zero''
     else Return (ucast (fnv32a key mod ucast (dWorkerPoolSize d))))"
proof -
  have "(ucast (dWorkerPoolSize d) :: 32 word) = 0 \<longleftrightarrow> sint (dWorkerPoolSize d) mod 2 ^ 32 = 0"
    unfolding pool_low_bits(2) [symmetric] pool_low_bits(1) [symmetric]
    by (rule unsigned_eq_0_iff [symmetric])
  then show ?thesis by (simp add: groupIndex_def Let_def)
qed

lemma groupIndex_range:
  assumes "1 \<le> sint (dWorkerPoolSize d)" "sint (dWorkerPoolSize d) < 2 ^ 32"
  shows "\<exists>i. groupIndex d key = Return i \<and> 0 \<le> sint i \<and> sint i < sint (dWorkerPoolSize d)"
proof -
  let ?n = "ucast (dWorkerPoolSize d) :: 32 word"
  have n: "uint ?n = sint (dWorkerPoolSize d)"
    unfolding pool_low_bits using assms by simp
  have "uint (fnv32a key mod ?n) = uint (fnv32a key) mod uint ?n" by (rule uint_mod)
  moreover have "0 \<le> uint (fnv32a key) mod uint ?n" "uint (fnv32a key) mod uint ?n < uint ?n"
    using assms unfolding n by simp_all
  ultimately show ?thesis
    using assms n by (simp add: groupIndex_cases sint_ucast_32)
qed

text \<open>An index the hash yields is one of the pool's, whatever the size.\<close>

lemma groupIndex_in_pool:
  assumes "groupIndex d key = Return w" and "0 < sint (dWorkerPoolSize d)"
  shows "0 \<le> sint w" "sint w < sint (dWorkerPoolSize d)"
proof -
  let ?n = "ucast (dWorkerPoolSize d) :: 32 word"
  have n: "uint ?n = sint (dWorkerPoolSize d) mod 2 ^ 32" unfolding pool_low_bits ..
  have pos: "sint (dWorkerPoolSize d) mod 2 ^ 32 \<noteq> 0" and w: "w = ucast (fnv32a key mod ?n)"
    using assms(1) by (auto simp: groupIndex_cases split: if_splits)
  then have "0 < uint ?n" using n by (metis unsigned_greater_eq order_le_less)
  moreover have "uint ?n \<le> sint (dWorkerPoolSize d)"
    unfolding n using assms(2) by (simp add: zmod_le_nonneg_dividend)
  moreover have "sint w = uint (fnv32a key) mod uint ?n" unfolding w sint_ucast_32 by (rule uint_mod)
  ultimately show "0 \<le> sint w" "sint w < sint (dWorkerPoolSize d)"
    using pos_mod_bound [of "uint ?n" "uint (fnv32a key)"] pos_mod_sign [of "uint ?n" "uint (fnv32a key)"] by linarith+
qed

lemma msgGroupKey_cached [simp]: "msgGroupKey d (m\<lparr>groupKey := k\<rparr>) = msgGroupKey d m"
proof -
  have "SystemAttributeByKey (m\<lparr>groupKey := k\<rparr>) x = SystemAttributeByKey m x"
    "UserMessageAttribute (m\<lparr>groupKey := k\<rparr>) x = UserMessageAttribute m x"
    "Attribute (m\<lparr>groupKey := k\<rparr>) x = Attribute m x" for x
    by (simp_all add: SystemAttributeByKey_def UserMessageAttribute_def Attribute_def)
  then show ?thesis by (simp add: msgGroupKey_def cong: if_cong)
qed

lemma msgGroupKey_inject:
  assumes "\<forall>x \<in> {m, m'}. CHR 0x00 \<notin> set (SystemAttributeByKey x messageGroupIDKey) \<and>
       (\<forall>f \<in> set (dCustomGroupFields d).
          CHR 0x00 \<notin> set (UserMessageAttribute x f) \<and> CHR 0x00 \<notin> set (Attribute x f))"
    and "msgGroupKey d m = msgGroupKey d m'"
  shows "SystemAttributeByKey m messageGroupIDKey = SystemAttributeByKey m' messageGroupIDKey"
proof -
  define parts where "parts x = SystemAttributeByKey x messageGroupIDKey #
     map (\<lambda>f. let v = UserMessageAttribute x f in if v = [] then Attribute x f else v)
       (dCustomGroupFields d)" for x
  have clean: "\<forall>p \<in> set (parts x). CHR 0x00 \<notin> set p" if "x \<in> {m, m'}" for x
    using assms(1) that by (auto simp: parts_def Let_def)
  have "join [CHR 0x00] (parts m) = join [CHR 0x00] (parts m')"
    using assms(2) by (simp add: msgGroupKey_def parts_def groupKeySeparator_def)
  then have "parts m = parts m'"
    using join_sep_inject [of "parts m" "CHR 0x00" "parts m'"] clean by (simp add: parts_def)
  then show ?thesis by (simp add: parts_def)
qed

text \<open>
  C25: In the per-group mode the worker is a function of the routing key alone: messages with equal
  keys go to the same worker, the key is cached on the message unchanged, and for a pool of between
  1 and 2^32 - 1 workers the index is one of the pool's. Two messages of different group ids, with
  no separator byte in ids and field values, have different keys. A pool whose size is a multiple
  of 2^32 panics on the first message.
\<close>

theorem group_affinity:
  assumes "dMode d = PerGroupID"
  shows "(msgGroupKey d m = msgGroupKey d m' \<longrightarrow> fst (workerIndex d m) = fst (workerIndex d m')) \<and>
    snd (workerIndex d m) = m\<lparr>groupKey := msgGroupKey d m\<rparr> \<and>
    (1 \<le> sint (dWorkerPoolSize d) \<and> sint (dWorkerPoolSize d) < 2 ^ 32 \<longrightarrow>
      (\<exists>i. fst (workerIndex d m) = Return i \<and> 0 \<le> sint i \<and> sint i < sint (dWorkerPoolSize d))) \<and>
    (sint (dWorkerPoolSize d) mod 2 ^ 32 = 0 \<longrightarrow> (\<exists>p. fst (workerIndex d m) = Panic p)) \<and>
    ((\<forall>x \<in> {m, m'}. CHR 0x00 \<notin> set (SystemAttributeByKey x messageGroupIDKey) \<and>
       (\<forall>f \<in> set (dCustomGroupFields d).
          CHR 0x00 \<notin> set (UserMessageAttribute x f) \<and> CHR 0x00 \<notin> set (Attribute x f))) \<longrightarrow>
     msgGroupKey d m = msgGroupKey d m' \<longrightarrow>
       SystemAttributeByKey m messageGroupIDKey = SystemAttributeByKey m' messageGroupIDKey)"
  using assms groupIndex_range [of d "msgGroupKey d m"] msgGroupKey_inject [of m m' d]
  by (simp add: workerIndex_def Let_def groupIndex_cases)

lemma group_affinity_witness:
  "\<exists>i. fst (workerIndex ((exampleDispatcher defaultRoute None)\<lparr>dMode := PerGroupID\<rparr>) example_message) = Return i \<and>
     0 \<le> sint i \<and> sint i < 5"
  using group_affinity [of "(exampleDispatcher defaultRoute None)\<lparr>dMode := PerGroupID\<rparr>" example_message example_message]
  by (simp add: exampleDispatcher_def newDispatcher_simps defaultRoute_def go_sint)

section \<open>Batched and synchronous deletes\<close>

definition alike :: "unit outcome \<times> pstate \<Rightarrow> unit outcome \<times> pstate \<Rightarrow> bool" where
  "alike x y \<longleftrightarrow> fst x = fst y \<and> commits (pTrace (snd x)) = commits (pTrace (snd y)) \<and>
     pMsg (snd x) = pMsg (snd y) \<and> pBarriers (snd x) = pBarriers (snd y)"

lemma alike_refl [simp]: "alike x x"
  by (simp add: alike_def)

lemma commits_emitMetric [simp]: "commits (emitMetric inc m r t) = commits t"
  by (simp add: emitMetric_def Let_def split: option.split)

lemma commits_deleteMessage:
  "commits (pTrace (deleteMessage d st)) = commits (pTrace st) @ [Identifier (pMsg st)]"
  by (simp add: deleteMessage_def Let_def split: option.split)

lemma alike_delete:
  "alike (r, deleteMessage (d\<lparr>dBatcher := b\<rparr>) st) (r, deleteMessage (d\<lparr>dBatcher := b'\<rparr>) st)"
  "alike (r, metric (d\<lparr>dBatcher := b\<rparr>) m (deleteMessage (d\<lparr>dBatcher := b\<rparr>) st))
     (r, metric (d\<lparr>dBatcher := b'\<rparr>) m (deleteMessage (d\<lparr>dBatcher := b'\<rparr>) st))"
  by (simp_all add: alike_def commits_deleteMessage metric_def)

lemma batcher_irrelevant [simp]:
  "orderedGroups (d\<lparr>dBatcher := b\<rparr>) = orderedGroups d"
  "failGroup (d\<lparr>dBatcher := b\<rparr>) st = failGroup d st"
  "holdForOrder (d\<lparr>dBatcher := b\<rparr>) st = holdForOrder d st"
  "msgFields (d\<lparr>dBatcher := b\<rparr>) m = msgFields d m"
  "retained (d\<lparr>dBatcher := b\<rparr>) x n e st = retained d x n e st"
  "metric (d\<lparr>dBatcher := b\<rparr>) x st = metric d x st"
  "observeDLQ (d\<lparr>dBatcher := b\<rparr>) st = observeDLQ d st"
  "invoke (d\<lparr>dBatcher := b\<rparr>) c st = invoke d c st"
proof -
  show m: "metric (d\<lparr>dBatcher := b\<rparr>) x st = metric d x st" for x st by (simp add: metric_def)
  show o: "orderedGroups (d\<lparr>dBatcher := b\<rparr>) = orderedGroups d" by (simp add: orderedGroups_def)
  show f: "msgFields (d\<lparr>dBatcher := b\<rparr>) m = msgFields d m" for m by (simp add: msgFields_def)
  show "observeDLQ (d\<lparr>dBatcher := b\<rparr>) st = observeDLQ d st" by (cases "dDlq d") (simp_all add: observeDLQ_def m Let_def)
qed (simp_all add: failGroup_def holdForOrder_def retained_def invoke_def orderedGroups_def msgFields_def)

lemma alike_scheduled:
  "alike (processScheduled (d\<lparr>dBatcher := b\<rparr>) err st) (processScheduled (d\<lparr>dBatcher := b'\<rparr>) err st)"
  using alike_delete(2) [where d = d and b = b and b' = b']
  by (simp add: processScheduled_def Let_def split: prod.split option.split)

lemma alike_process: "alike (process (d\<lparr>dBatcher := b\<rparr>) c st) (process (d\<lparr>dBatcher := b'\<rparr>) c st)"
  by (simp add: process_def Let_def alike_scheduled alike_delete
      split: prod.split option.split hresult.split outcome.split bool.split)

text \<open>
  C26: Turning on batched deletes changes how a message is committed, not whether: on every state
  and for every handler, \<open>process\<close> with the batcher and without it end the same way, commit the same
  receipt handles in the same order and leave the same message and barriers; only a synchronous
  delete may add an error record and a DeleteMessage call.
\<close>

theorem batching_commits_the_same:
  "let (r, s) = process (d\<lparr>dBatcher := True\<rparr>) c st; (r', s') = process (d\<lparr>dBatcher := False\<rparr>) c st in
   r = r' \<and> commits (pTrace s) = commits (pTrace s') \<and> pMsg s = pMsg s' \<and> pBarriers s = pBarriers s'"
  using alike_process [where d = d and b = True and b' = False and c = c and st = st] by (simp add: alike_def case_prod_beta Let_def)

end
