(* ===== verification/Worker_Pool.thy ===== *)
theory Worker_Pool
  imports Dispatcher
begin

text \<open>
  The worker pool of \<open>src/consumer/dispatch.go\<close>: \<open>start\<close> makes one buffered channel and one worker
  goroutine per configured worker, \<open>dispatch\<close> enqueues a message on its worker's channel, \<open>worker\<close>
  processes its channel until it is closed and drained, \<open>stop\<close> closes the channels. What Go panics on, an index out of
  range, a send on a closed channel or closing it twice, is a result of its own (\<open>EnqueuePanics\<close>, \<open>Panic\<close>).

  A state holds the channels, what each worker is doing, the barriers of the batches and the events
  so far; two histories record what was enqueued and what was processed, with its verdict. A worker
  takes a message and processes it in two steps, so workers, the poller and the environment
  interleave between them. One call of \<open>process\<close> is one step: the only state it shares with other
  workers is the barrier entry of its own group, and a group has one worker.
\<close>

section \<open>State\<close>

datatype worker = Idle | Working message | Gone

text \<open>What \<open>process\<close> made of a message.\<close>

datatype verdict = Held | Committed | Failed

record pool =
  poChannels :: "message chan list"
  poWorkers :: "worker list"
  poBarriers :: "nat \<Rightarrow> groupBarrier"
  poTrace :: trace
  poSent :: "(nat \<times> message) list"
  poDone :: "(nat \<times> message \<times> verdict) list"

definition poolSize :: "dispatcher \<Rightarrow> nat" where
  "poolSize d = nat (sint (dWorkerPoolSize d))"

definition startPool :: "dispatcher \<Rightarrow> trace \<Rightarrow> pool" where
  "startPool d t = \<lparr>poChannels = replicate (poolSize d) (make_chan (nat (sint (dBufferSize d)))),
     poWorkers = replicate (poolSize d) Idle, poBarriers = (\<lambda>a. None), poTrace = t,
     poSent = [], poDone = []\<rparr>"

section \<open>Steps\<close>

text \<open>
  The enqueueing branch of \<open>dispatch\<close>: \<open>d.channels[index] <- msg\<close>. An index outside the slice panics before the
  select looks at either of its branches; the send blocks while the channel is full and panics on a closed one.
\<close>

datatype enqueuing = Enqueued pool | EnqueueBlocks | EnqueuePanics string

definition channelAt :: "go_int \<Rightarrow> pool \<Rightarrow> message chan outcome" where
  "channelAt w s = (if sint w < 0 \<or> int (length (poChannels s)) \<le> sint w
     then Panic ''runtime error: index out of range''
     else Return (poChannels s ! nat (sint w)))"

definition enqueue :: "go_int \<Rightarrow> message \<Rightarrow> pool \<Rightarrow> enqueuing" where
  "enqueue w msg s = (case channelAt w s of
     Panic p \<Rightarrow> EnqueuePanics p
   | Return c \<Rightarrow> (case send msg c of
       Sent ch \<Rightarrow> Enqueued (s\<lparr>poChannels := (poChannels s)[nat (sint w) := ch],
         poSent := poSent s @ [(nat (sint w), msg)]\<rparr>)
     | SendBlocks \<Rightarrow> EnqueueBlocks
     | SendPanics \<Rightarrow> EnqueuePanics ''send on closed channel''))"

lemma enqueue_Enqueued:
  assumes "enqueue w msg s = Enqueued s'"
  obtains ch where "nat (sint w) < length (poChannels s)" "send msg (poChannels s ! nat (sint w)) = Sent ch"
    "s' = s\<lparr>poChannels := (poChannels s)[nat (sint w) := ch], poSent := poSent s @ [(nat (sint w), msg)]\<rparr>"
  using assms by (auto simp: enqueue_def channelAt_def split: if_splits sent.splits)

definition processState :: "message \<Rightarrow> pool \<Rightarrow> pstate" where
  "processState msg s = \<lparr>pMsg = msg, pBarriers = poBarriers s, pTrace = poTrace s\<rparr>"

definition verdictOf :: "dispatcher \<Rightarrow> ctx \<Rightarrow> pstate \<Rightarrow> verdict" where
  "verdictOf d c st = (if held d st then Held
     else case handled d c st of
       (HRet None, st1) \<Rightarrow> if BackedOff (pMsg st1) then Failed else Committed
     | _ \<Rightarrow> Failed)"

inductive pool_step :: "dispatcher \<Rightarrow> ctx \<Rightarrow> pool \<Rightarrow> pool \<Rightarrow> bool" for d c where
  take: "i < length (poWorkers s) \<Longrightarrow> poWorkers s ! i = Idle \<Longrightarrow> recv (poChannels s ! i) = Received msg ch \<Longrightarrow>
    pool_step d c s (s\<lparr>poChannels := (poChannels s)[i := ch], poWorkers := (poWorkers s)[i := Working msg]\<rparr>)"
| work: "i < length (poWorkers s) \<Longrightarrow> poWorkers s ! i = Working msg \<Longrightarrow>
    process d c (processState msg s) = (Return (), st) \<Longrightarrow>
    pool_step d c s (s\<lparr>poWorkers := (poWorkers s)[i := Idle], poBarriers := pBarriers st,
      poTrace := pTrace st, poDone := poDone s @ [(i, msg, verdictOf d c (processState msg s))]\<rparr>)"
| leave: "i < length (poWorkers s) \<Longrightarrow> poWorkers s ! i = Idle \<Longrightarrow> recv (poChannels s ! i) = RecvClosed \<Longrightarrow>
    pool_step d c s (s\<lparr>poWorkers := (poWorkers s)[i := Gone]\<rparr>)"

text \<open>\<open>close(ch)\<close> for every channel, at the beginning of \<open>stop\<close>.\<close>

fun closeAll :: "message chan list \<Rightarrow> message chan list outcome" where
  "closeAll [] = Return []"
| "closeAll (ch # chs) = (case close_chan ch of
     Panic p \<Rightarrow> Panic p
   | Return ch' \<Rightarrow> (case closeAll chs of Panic p \<Rightarrow> Panic p | Return chs' \<Rightarrow> Return (ch' # chs')))"

section \<open>First in, first out\<close>

fun inWork :: "worker \<Rightarrow> message list" where
  "inWork (Working msg) = [msg]"
| "inWork _ = []"

text \<open>What was enqueued for, and processed by, one worker.\<close>

definition sentTo :: "pool \<Rightarrow> nat \<Rightarrow> message list" where
  "sentTo s i = map snd (filter (\<lambda>x. fst x = i) (poSent s))"

definition doneBy :: "pool \<Rightarrow> nat \<Rightarrow> message list" where
  "doneBy s i = map (fst \<circ> snd) (filter (\<lambda>x. fst x = i) (poDone s))"

definition pool_inv :: "dispatcher \<Rightarrow> pool \<Rightarrow> bool" where
  "pool_inv d s \<longleftrightarrow> length (poChannels s) = poolSize d \<and> length (poWorkers s) = poolSize d \<and>
     (\<forall>i < poolSize d. chan_ok (poChannels s ! i) \<and>
        sentTo s i = doneBy s i @ inWork (poWorkers s ! i) @ buf (poChannels s ! i) \<and>
        (poWorkers s ! i = Gone \<longrightarrow> buf (poChannels s ! i) = [] \<and> closed (poChannels s ! i))) \<and>
     fst ` set (poSent s) \<subseteq> {..<poolSize d} \<and> fst ` set (poDone s) \<subseteq> {..<poolSize d}"

lemma pool_invD:
  assumes "pool_inv d s"
  shows "length (poChannels s) = poolSize d" "length (poWorkers s) = poolSize d"
    "i < poolSize d \<Longrightarrow> chan_ok (poChannels s ! i)"
    "i < poolSize d \<Longrightarrow> sentTo s i = doneBy s i @ inWork (poWorkers s ! i) @ buf (poChannels s ! i)"
    "i < poolSize d \<Longrightarrow> poWorkers s ! i = Gone \<Longrightarrow> buf (poChannels s ! i) = [] \<and> closed (poChannels s ! i)"
  using assms by (simp_all add: pool_inv_def)

lemma start_inv: "pool_inv d (startPool d t)"
  by (simp add: pool_inv_def startPool_def sentTo_def doneBy_def make_chan_def chan_ok_def)

lemma enqueue_inv:
  assumes "pool_inv d s" and "enqueue w msg s = Enqueued s'"
  shows "pool_inv d s'"
proof -
  note inv = pool_invD [OF assms(1)]
  define i where "i = nat (sint w)"
  from assms(2) obtain ch where ch: "i < poolSize d" "send msg (poChannels s ! i) = Sent ch"
    and s': "s' = s\<lparr>poChannels := (poChannels s)[i := ch], poSent := poSent s @ [(i, msg)]\<rparr>"
    unfolding i_def inv(1) [symmetric] by (rule enqueue_Enqueued)
  note snd = ch.send_Sent [OF inv(3) [OF ch(1)] ch(2)]
  have "poWorkers s ! i \<noteq> Gone" using snd inv(5) [OF ch(1)] by auto
  with assms(1) snd ch(1) show ?thesis
    unfolding pool_inv_def s' by (auto simp: sentTo_def doneBy_def nth_list_update)
qed

text \<open>With the channels open and the index one of the pool's, the send goes through or blocks.\<close>

lemma enqueue_safe:
  assumes "pool_inv d s" and "0 \<le> sint w" "sint w < sint (dWorkerPoolSize d)"
    and "\<forall>ch \<in> set (poChannels s). \<not> closed ch"
  shows "enqueue w msg s \<noteq> EnqueuePanics p"
proof -
  note inv = pool_invD [OF assms(1)]
  have i: "nat (sint w) < poolSize d" "nat (sint w) < length (poChannels s)"
    using assms(2,3) inv(1) by (simp_all add: poolSize_def)
  have at: "channelAt w s = Return (poChannels s ! nat (sint w))"
    using assms(2) i(2) by (auto simp: channelAt_def)
  have "send msg (poChannels s ! nat (sint w)) \<noteq> SendPanics"
    using ch.send_panics [OF inv(3) [OF i(1)]] assms(4) i(2) by simp
  then show ?thesis by (simp add: enqueue_def at split: sent.split)
qed

lemma pool_step_inv:
  assumes "pool_inv d s" and "pool_step d c s s'"
  shows "pool_inv d s'"
  using assms(2,1)
proof cases
  case (take i msg ch)
  note inv = pool_invD [OF assms(1)]
  have i: "i < poolSize d" using take inv by simp
  note rcv = ch.recv_Received [OF inv(3) [OF i] take(4)]
  have "sentTo s' i = doneBy s' i @ inWork (poWorkers s' ! i) @ buf (poChannels s' ! i)"
    using inv(4) [OF i] rcv take inv i by (simp add: sentTo_def doneBy_def)
  with assms(1) take(1) rcv i show ?thesis
    unfolding pool_inv_def by (auto simp: sentTo_def doneBy_def nth_list_update)
next
  case (work i msg st)
  note inv = pool_invD [OF assms(1)]
  have i: "i < poolSize d" using work inv by simp
  have "sentTo s' i = doneBy s' i @ inWork (poWorkers s' ! i) @ buf (poChannels s' ! i)"
    using inv(4) [OF i] work inv i by (simp add: sentTo_def doneBy_def)
  with assms(1) work(1) i show ?thesis
    unfolding pool_inv_def by (auto simp: sentTo_def doneBy_def nth_list_update)
next
  case (leave i)
  note inv = pool_invD [OF assms(1)]
  have i: "i < poolSize d" using leave inv by simp
  have "buf (poChannels s ! i) = [] \<and> closed (poChannels s ! i)"
    using ch.recv_closed [OF inv(3) [OF i]] leave(4) by simp
  with assms(1) leave(1,3) i show ?thesis
    unfolding pool_inv_def by (auto simp: sentTo_def doneBy_def nth_list_update)
qed

section \<open>Verdicts, barriers and commits\<close>

lemma commits_of_outcomes: "outcomes t' = outcomes t @ es \<Longrightarrow> commits t' = commits t @ commits es"
  by (metis commits_append commits_outcomes)

text \<open>What one call of \<open>process\<close> leaves in the barriers, by its verdict.\<close>

lemma process_barriers:
  assumes "dRetryModel d \<noteq> ScheduledRetryModel" and "process d c st = (Return (), st')"
  shows "pBarriers st' = (if verdictOf d c st = Failed then pBarriers (failGroup d st) else pBarriers st)"
proof (cases "held d st")
  case True
  then show ?thesis using assms(2) by (auto simp: process_def held_def verdictOf_def holdForOrder_def)
next
  case nh: False
  obtain r st1 where h: "handled d c st = (r, st1)" by force
  note inv = invoke_simps [OF h]
  obtain err where r: "r = HRet err" and run: "settle d err st1 = (Return (), st')"
    using assms(2) unfolding process_runs [OF nh] h by (cases r) auto
  have "pBarriers (failGroup d st1) = pBarriers (failGroup d st)" using inv by (intro failGroup_cong) simp_all
  with settle_spec(2) [OF run assms(1)] show ?thesis
    using nh h r inv by (auto simp: verdictOf_def split: option.split)
qed

text \<open>A message is committed exactly when the verdict says so.\<close>

lemma process_commits:
  assumes "dRetryModel d \<noteq> ScheduledRetryModel" and "polite (dHandler d)"
    and "process d c st = (Return (), st')"
  shows "commits (pTrace st') = commits (pTrace st) @
    (if verdictOf d c st = Committed then [Identifier (pMsg st)] else [])"
proof -
  obtain r st1 where h: "handled d c st = (r, st1)" by force
  note step = visibility_step [OF assms(1,2) h assms(3)]
  show ?thesis
  proof (cases "held d st")
    case True
    with step obtain x ys where "pTrace st' = pTrace st @ [Log LevelWarn x ys]" by blast
    with True show ?thesis by (simp add: verdictOf_def)
  next
    case nh: False
    obtain err where r: "r = HRet err"
      using assms(3) unfolding process_handled [OF nh] h by (cases r) auto
    have "outcomes (pTrace st') = outcomes (pTrace st) @
        (if BackedOff (pMsg st1) then [] else case err of None \<Rightarrow> [commitEvent d (pMsg st)]
           | Some e \<Rightarrow> if callsOnDLQ d (pMsg st) then [CallOnDLQ (Identifier (pMsg st))] else [])"
      using step nh r by simp
    from commits_of_outcomes [OF this] show ?thesis
      using nh h r by (simp add: verdictOf_def split: option.split)
  qed
qed

section \<open>Order within a group\<close>

text \<open>The messages of one group of one batch: the same barrier and the same routing key.\<close>

definition inGroup :: "nat \<Rightarrow> string \<Rightarrow> message \<Rightarrow> bool" where
  "inGroup a k m \<longleftrightarrow> barrier m = Some a \<and> groupKey m = k"

definition groupSent :: "pool \<Rightarrow> nat \<Rightarrow> string \<Rightarrow> message list" where
  "groupSent s a k = filter (inGroup a k) (map snd (poSent s))"

definition groupDone :: "pool \<Rightarrow> nat \<Rightarrow> string \<Rightarrow> (nat \<times> message \<times> verdict) list" where
  "groupDone s a k = filter (\<lambda>x. inGroup a k (fst (snd x))) (poDone s)"

text \<open>The messages of one routing key, whatever batch they came in.\<close>

definition keySent :: "pool \<Rightarrow> string \<Rightarrow> message list" where
  "keySent s k = filter (\<lambda>m. groupKey m = k) (map snd (poSent s))"

definition keyDone :: "pool \<Rightarrow> string \<Rightarrow> (nat \<times> message \<times> verdict) list" where
  "keyDone s k = filter (\<lambda>x. groupKey (fst (snd x)) = k) (poDone s)"

definition groupVerdicts :: "pool \<Rightarrow> nat \<Rightarrow> string \<Rightarrow> verdict list" where
  "groupVerdicts s a k = map (snd \<circ> snd) (groupDone s a k)"

text \<open>Commits, then possibly one failure and nothing but held messages after it.\<close>

definition orderly :: "verdict list \<Rightarrow> bool" where
  "orderly vs \<longleftrightarrow> (\<exists>n. vs = replicate n Committed \<or> (\<exists>k. vs = replicate n Committed @ Failed # replicate k Held))"

lemma orderly_Nil [simp]: "orderly []"
  by (auto simp: orderly_def)

lemma orderly_step:
  assumes "orderly vs" and "v = Held \<longleftrightarrow> Failed \<in> set vs"
  shows "orderly (vs @ [v])"
proof -
  consider n where "vs = replicate n Committed"
    | n k where "vs = replicate n Committed @ Failed # replicate k Held"
    using assms(1) by (auto simp: orderly_def)
  then show ?thesis
  proof cases
    case (1 n)
    with assms(2) have "v \<noteq> Held" by auto
    then have "vs @ [v] = replicate (Suc n) Committed \<or> vs @ [v] = replicate n Committed @ Failed # replicate 0 Held"
      unfolding 1 by (cases v) (simp_all add: replicate_append_same)
    then show ?thesis unfolding orderly_def by blast
  next
    case (2 n k)
    with assms(2) have "v = Held" by simp
    then have "vs @ [v] = replicate n Committed @ Failed # replicate (Suc k) Held"
      unfolding 2 by (simp add: replicate_append_same)
    then show ?thesis unfolding orderly_def by blast
  qed
qed

definition order_inv :: "dispatcher \<Rightarrow> pool \<Rightarrow> bool" where
  "order_inv d s \<longleftrightarrow> orderedGroups d \<longrightarrow>
     (\<forall>a k. if poBarriers s a = None then groupVerdicts s a k = [] \<and> groupSent s a k = []
        else orderly (groupVerdicts s a k) \<and> (failed (poBarriers s a) k \<longleftrightarrow> Failed \<in> set (groupVerdicts s a k)))"

lemma order_inv_cong:
  "poBarriers s' = poBarriers s \<Longrightarrow> poSent s' = poSent s \<Longrightarrow> poDone s' = poDone s \<Longrightarrow>
   order_inv d s' = order_inv d s"
  by (simp add: order_inv_def groupVerdicts_def groupDone_def groupSent_def)

lemma sent_working:
  assumes "pool_inv d s" and "i < length (poWorkers s)" and "poWorkers s ! i = Working msg"
  shows "(i, msg) \<in> set (poSent s)"
proof -
  note inv = pool_invD [OF assms(1)]
  have "msg \<in> set (sentTo s i)" using inv(2,4) assms(2,3) by simp
  then show ?thesis by (auto simp: sentTo_def)
qed

text \<open>A worker ends its message with a verdict, and a failure is in the barrier of its group.\<close>

definition heldIn :: "dispatcher \<Rightarrow> message \<Rightarrow> pool \<Rightarrow> bool" where
  "heldIn d msg s \<longleftrightarrow> orderedGroups d \<and> (case barrier msg of None \<Rightarrow> False | Some a \<Rightarrow> failed (poBarriers s a) (groupKey msg))"

lemma held_processState: "held d (processState msg s) = heldIn d msg s"
  by (simp add: held_def heldIn_def barrierOf_def processState_def split: option.split)

definition finish :: "nat \<Rightarrow> message \<Rightarrow> verdict \<Rightarrow> pstate \<Rightarrow> pool \<Rightarrow> pool" where
  "finish i msg v st s = s\<lparr>poWorkers := (poWorkers s)[i := Idle], poBarriers := pBarriers st,
     poTrace := pTrace st, poDone := poDone s @ [(i, msg, v)]\<rparr>"

lemma finish_simps [simp]: "poChannels (finish i msg v st s) = poChannels s" "poSent (finish i msg v st s) = poSent s"
  "poWorkers (finish i msg v st s) = (poWorkers s)[i := Idle]" "poBarriers (finish i msg v st s) = pBarriers st"
  "poTrace (finish i msg v st s) = pTrace st" "poDone (finish i msg v st s) = poDone s @ [(i, msg, v)]"
  by (simp_all add: finish_def)

lemma order_inv_finish:
  assumes "pool_inv d s" and "order_inv d s" and "i < length (poWorkers s)" and "poWorkers s ! i = Working msg"
    and held: "orderedGroups d \<Longrightarrow> v = Held \<longleftrightarrow> heldIn d msg s"
    and bars: "orderedGroups d \<Longrightarrow> pBarriers st = (case barrier msg of None \<Rightarrow> poBarriers s
      | Some a \<Rightarrow> if v = Failed then (poBarriers s)(a := fail (poBarriers s a) (groupKey msg)) else poBarriers s)"
    and "s' = finish i msg v st s"
  shows "order_inv d s'"
proof (cases "orderedGroups d")
  case ord: True
  have bars: "poBarriers s' = (case barrier msg of None \<Rightarrow> poBarriers s
      | Some a \<Rightarrow> if v = Failed then (poBarriers s)(a := fail (poBarriers s a) (groupKey msg)) else poBarriers s)"
    using bars [OF ord] by (simp add: assms(7))
  have held: "v = Held \<longleftrightarrow> (case barrier msg of None \<Rightarrow> False | Some a \<Rightarrow> failed (poBarriers s a) (groupKey msg))"
    using held [OF ord] ord by (simp add: heldIn_def)
  have live: "poBarriers s a \<noteq> None" if "barrier msg = Some a" for a
  proof
    assume "poBarriers s a = None"
    with assms(2) ord have "groupSent s a (groupKey msg) = []" by (auto simp: order_inv_def)
    moreover have "msg \<in> set (groupSent s a (groupKey msg))"
      using sent_working [OF assms(1,3,4)] that by (force simp: groupSent_def inGroup_def)
    ultimately show False by simp
  qed
  have gv: "groupVerdicts s' a k = groupVerdicts s a k @ (if inGroup a k msg then [v] else [])" for a k
    by (simp add: groupVerdicts_def groupDone_def assms(7))
  have gs: "groupSent s' a k = groupSent s a k" for a k
    by (simp add: groupSent_def assms(7))
  have "if poBarriers s' a = None then groupVerdicts s' a k = [] \<and> groupSent s' a k = []
        else orderly (groupVerdicts s' a k) \<and> (failed (poBarriers s' a) k \<longleftrightarrow> Failed \<in> set (groupVerdicts s' a k))" for a k
  proof (cases "inGroup a k msg")
    case False
    have "(poBarriers s' a = None \<longleftrightarrow> poBarriers s a = None) \<and> failed (poBarriers s' a) k = failed (poBarriers s a) k"
      using False bars live by (auto simp: inGroup_def fail_def failed_def split: option.splits if_splits)
    then show ?thesis using assms(2) ord False gv gs by (simp add: order_inv_def)
  next
    case True
    then have b: "barrier msg = Some a" "groupKey msg = k" by (simp_all add: inGroup_def)
    from assms(2) ord live [OF b(1)] have old: "orderly (groupVerdicts s a k)"
      "failed (poBarriers s a) k \<longleftrightarrow> Failed \<in> set (groupVerdicts s a k)" by (auto simp: order_inv_def)
    have "orderly (groupVerdicts s' a k)"
      using orderly_step [OF old(1), of v] held old(2) b True gv by simp
    moreover have "poBarriers s' a \<noteq> None" "failed (poBarriers s' a) k \<longleftrightarrow> Failed \<in> set (groupVerdicts s' a k)"
      using bars b live [OF b(1)] old(2) gv True by (auto simp: fail_def failed_def)
    ultimately show ?thesis by auto
  qed
  then show ?thesis by (auto simp: order_inv_def)
qed (simp add: order_inv_def)

lemma order_inv_work:
  assumes "pool_inv d s" and "order_inv d s" and "dRetryModel d \<noteq> ScheduledRetryModel"
    and "i < length (poWorkers s)" and "poWorkers s ! i = Working msg"
    and "process d c (processState msg s) = (Return (), st)"
    and "s' = s\<lparr>poWorkers := (poWorkers s)[i := Idle], poBarriers := pBarriers st,
      poTrace := pTrace st, poDone := poDone s @ [(i, msg, verdictOf d c (processState msg s))]\<rparr>"
  shows "order_inv d s'"
proof (rule order_inv_finish [OF assms(1,2,4,5)])
  show "verdictOf d c (processState msg s) = Held \<longleftrightarrow> heldIn d msg s"
    by (auto simp: verdictOf_def held_processState split: prod.splits hresult.splits option.splits)
  show "pBarriers st = (case barrier msg of None \<Rightarrow> poBarriers s | Some a \<Rightarrow>
      if verdictOf d c (processState msg s) = Failed
      then (poBarriers s)(a := fail (poBarriers s a) (groupKey msg)) else poBarriers s)" if "orderedGroups d"
    using process_barriers [OF assms(3,6)] that
    by (simp add: failGroup_def processState_def split: option.split)
  show "s' = finish i msg (verdictOf d c (processState msg s)) st s"
    by (simp add: assms(7) finish_def)
qed

lemma order_inv_step:
  assumes "pool_inv d s" and "order_inv d s" and "dRetryModel d \<noteq> ScheduledRetryModel" and "pool_step d c s s'"
  shows "order_inv d s'"
  using assms(4)
proof cases
  case (work i msg st)
  show ?thesis by (rule order_inv_work [OF assms(1-3) work(2,3,4,1)])
next
  case (take i msg ch)
  have "order_inv d s' = order_inv d s" by (rule order_inv_cong) (simp_all add: take(1))
  then show ?thesis using assms(2) by simp
next
  case (leave i)
  have "order_inv d s' = order_inv d s" by (rule order_inv_cong) (simp_all add: leave(1))
  then show ?thesis using assms(2) by simp
qed

lemma order_inv_enqueue:
  assumes "order_inv d s" and "enqueue w msg s = Enqueued s'" and "\<And>a. barrier msg = Some a \<Longrightarrow> poBarriers s a \<noteq> None"
  shows "order_inv d s'"
proof -
  define i where "i = nat (sint w)"
  from assms(2) obtain ch where s': "s' = s\<lparr>poChannels := (poChannels s)[i := ch], poSent := poSent s @ [(i, msg)]\<rparr>"
    unfolding i_def by (rule enqueue_Enqueued)
  then have "groupVerdicts s' a k = groupVerdicts s a k" "poBarriers s' = poBarriers s"
    "groupSent s' a k = groupSent s a k @ (if inGroup a k msg then [msg] else [])" for a k
    by (simp_all add: groupVerdicts_def groupDone_def groupSent_def)
  moreover have "\<not> inGroup a k msg" if "poBarriers s a = None" for a k
    using assms(3) [of a] that by (auto simp: inGroup_def)
  ultimately show ?thesis using assms(1) by (simp add: order_inv_def)
qed

text \<open>A fresh barrier, allocated for a new batch.\<close>

lemma order_inv_alloc:
  assumes "order_inv d s" and "poBarriers s a = None"
    and "s' = s\<lparr>poBarriers := (poBarriers s)(a := newGroupBarrier)\<rparr>"
  shows "order_inv d s'"
proof (cases "orderedGroups d")
  case ord: True
  have same: "groupVerdicts s' b k = groupVerdicts s b k" "groupSent s' b k = groupSent s b k" for b k
    by (simp_all add: assms(3) groupVerdicts_def groupDone_def groupSent_def)
  have bars: "poBarriers s' = (poBarriers s)(a := newGroupBarrier)" by (simp add: assms(3))
  have "if poBarriers s' b = None then groupVerdicts s' b k = [] \<and> groupSent s' b k = []
        else orderly (groupVerdicts s' b k) \<and> (failed (poBarriers s' b) k \<longleftrightarrow> Failed \<in> set (groupVerdicts s' b k))" for b k
  proof (cases "b = a")
    case True
    have "groupVerdicts s a k = []" using assms(1,2) ord by (simp add: order_inv_def)
    then show ?thesis using True by (simp add: bars same) (simp add: newGroupBarrier_def)
  next
    case False
    with assms(1) ord show ?thesis by (simp add: bars same order_inv_def)
  qed
  then show ?thesis unfolding order_inv_def by blast
qed (simp add: order_inv_def)

section \<open>What is committed\<close>

definition committed :: "pool \<Rightarrow> string list" where
  "committed s = map (\<lambda>x. Identifier (fst (snd x))) (filter (\<lambda>x. snd (snd x) = Committed) (poDone s))"

lemma commits_step:
  assumes "dRetryModel d \<noteq> ScheduledRetryModel" and "polite (dHandler d)" and "pool_step d c s s'"
    and "commits (poTrace s) = committed s"
  shows "commits (poTrace s') = committed s'"
  using assms(3)
proof cases
  case (work i msg st)
  from process_commits [OF assms(1,2) work(4)] show ?thesis
    using assms(4) work(1) by (simp add: committed_def processState_def)
qed (use assms(4) in \<open>simp_all add: committed_def\<close>)

section \<open>Draining\<close>

text \<open>The work left: three steps for a queued message, two for one in work, one to leave.\<close>

fun toDo :: "worker \<Rightarrow> nat" where
  "toDo Idle = 1" | "toDo (Working msg) = 2" | "toDo Gone = 0"

definition workLeft :: "pool \<Rightarrow> nat" where
  "workLeft s = sum_list (map (\<lambda>ch. 3 * length (buf ch)) (poChannels s)) + sum_list (map toDo (poWorkers s))"

lemma sum_list_update_plus:
  "i < length xs \<Longrightarrow> sum_list (map f (xs[i := y])) + f (xs ! i) = sum_list (map f xs) + (f y :: nat)"
proof (induction xs arbitrary: i)
  case (Cons x xs)
  then show ?case by (cases i) (auto simp: ac_simps)
qed simp

lemma pool_step_decreases:
  assumes "pool_inv d s" and "pool_step d c s s'"
  shows "workLeft s' < workLeft s"
  using assms(2)
proof cases
  case (take i msg ch)
  note inv = pool_invD [OF assms(1)]
  have i: "i < length (poChannels s)" "i < poolSize d" using take inv by simp_all
  have "length (buf (poChannels s ! i)) = Suc (length (buf ch))"
    using ch.recv_Received [OF inv(3) [OF i(2)] take(4)] by simp
  then show ?thesis
    using sum_list_update_plus [OF i(1), of "\<lambda>ch. 3 * length (buf ch)" ch]
      sum_list_update_plus [OF take(2), of toDo "Working msg"] take(1,3) by (simp add: workLeft_def)
next
  case (work i msg st)
  then show ?thesis
    using sum_list_update_plus [OF work(2), of toDo Idle] by (simp add: workLeft_def)
next
  case (leave i)
  then show ?thesis
    using sum_list_update_plus [OF leave(2), of toDo Gone] by (simp add: workLeft_def)
qed

text \<open>A worker with something to do can do it, unless its message makes \<open>process\<close> panic.\<close>

lemma worker_progress:
  assumes "pool_inv d s" and "i < poolSize d" and "poWorkers s ! i \<noteq> Gone"
    and "poWorkers s ! i \<noteq> Idle \<or> buf (poChannels s ! i) \<noteq> [] \<or> closed (poChannels s ! i)"
  shows "(\<exists>s'. pool_step d c s s') \<or>
    (\<exists>msg p st. poWorkers s ! i = Working msg \<and> process d c (processState msg s) = (Panic p, st))"
proof -
  note inv = pool_invD [OF assms(1)]
  have i: "i < length (poWorkers s)" using assms(2) inv by simp
  show ?thesis
  proof (cases "poWorkers s ! i")
    case Idle
    with assms(4) have "recv (poChannels s ! i) \<noteq> RecvBlocks"
      using ch.recv_blocks [OF inv(3) [OF assms(2)]] by auto
    then show ?thesis
      using pool_step.take [OF i Idle] pool_step.leave [OF i Idle]
      by (cases "recv (poChannels s ! i)") blast+
  next
    case (Working msg)
    obtain r st where p: "process d c (processState msg s) = (r, st)" by force
    show ?thesis
    proof (cases r)
      case (Return u)
      with p have "process d c (processState msg s) = (Return (), st)" by simp
      from pool_step.work [OF i Working this] show ?thesis by blast
    next
      case (Panic q)
      with p Working show ?thesis by blast
    qed
  qed (use assms(3) in simp)
qed

lemma closeAll_open:
  "\<forall>ch \<in> set chs. \<not> closed ch \<Longrightarrow> closeAll chs = Return (map (\<lambda>ch. ch\<lparr>closed := True\<rparr>) chs)"
  by (induction chs) (simp_all add: close_chan_def)

text \<open>When every worker has left, everything enqueued has been processed.\<close>

lemma by_index_mset:
  assumes "\<And>i. map snd (filter (\<lambda>x. fst x = i) xs) = map snd (filter (\<lambda>x. fst x = i) ys)"
  shows "mset xs = mset ys"
proof (rule multiset_eqI)
  fix x :: "'a \<times> 'b"
  have f: "filter (\<lambda>y. fst y = i) zs = map (Pair i) (map snd (filter (\<lambda>y. fst y = i) zs))"
    for i and zs :: "('a \<times> 'b) list" by (induction zs) auto
  have c: "count (mset zs) x = count (mset (filter (\<lambda>y. fst y = fst x) zs)) x"
    for zs :: "('a \<times> 'b) list" by simp
  have "filter (\<lambda>y. fst y = fst x) xs = filter (\<lambda>y. fst y = fst x) ys"
    by (subst f, subst (2) f, subst assms, rule refl)
  with c [of xs] c [of ys, symmetric] show "count (mset xs) x = count (mset ys) x" by metis
qed

lemma all_gone_all_done:
  assumes "pool_inv d s" and "set (poWorkers s) \<subseteq> {Gone}"
  shows "doneBy s i = sentTo s i" "mset (map snd (poSent s)) = mset (map (fst \<circ> snd) (poDone s))"
proof -
  note inv = pool_invD [OF assms(1)]
  have eq: "doneBy s i = sentTo s i" for i
  proof (cases "i < poolSize d")
    case True
    have "poWorkers s ! i = Gone" using assms(2) inv(2) True by (metis nth_mem subsetD singletonD)
    then show ?thesis using inv(4,5) [OF True] by simp
  next
    case False
    then have "\<forall>x \<in> set (poSent s). fst x \<noteq> i" "\<forall>x \<in> set (poDone s). fst x \<noteq> i"
      using assms(1) by (auto simp: pool_inv_def)
    then show ?thesis by (simp add: doneBy_def sentTo_def filter_False)
  qed
  then show "doneBy s i = sentTo s i" .
  let ?done = "map (\<lambda>x. (fst x, fst (snd x))) (poDone s)"
  have "map snd (filter (\<lambda>x. fst x = i) ?done) = doneBy s i" for i
    by (simp add: doneBy_def filter_map comp_def)
  then have "mset (poSent s) = mset ?done"
    using eq by (intro by_index_mset) (simp add: sentTo_def)
  then have "image_mset snd (mset (poSent s)) = image_mset snd (mset ?done)" by simp
  then show "mset (map snd (poSent s)) = mset (map (fst \<circ> snd) (poDone s))"
    by (simp add: image_mset.compositionality comp_def)
qed

end
