(* ===== verification/Delete_Batcher.thy ===== *)
theory Delete_Batcher
  imports Clients
begin

text \<open>
  The delete batcher (\<open>src/consumer/delete_batcher.go\<close>). \<open>sendBatch\<close>, \<open>reportFailed\<close> and \<open>batchIndex\<close>
  are the code's \<open>send\<close>, \<open>reportFailed\<close> and \<open>batchIndex\<close>. The senders, the channel of pending
  receipt handles and the producers are the step relation \<open>batch_step\<close>: a sender takes a first
  handle, drains without waiting until it holds ten or finds nothing, sends, and exits when the
  channel is closed and drained. The channel enters only through the laws of \<open>fifo_channel\<close>.
\<close>

definition maxDeleteBatch :: nat where "maxDeleteBatch = 10"

section \<open>One request\<close>

text \<open>\<open>batchIndex(id, n)\<close>: only the canonical decimal form of an index below \<open>n\<close>.\<close>

definition batchIndex :: "string \<Rightarrow> nat \<Rightarrow> nat option" where
  "batchIndex ident n = (case atoi ident of
     None \<Rightarrow> None
   | Some i \<Rightarrow> if i <s 0 \<or> int n \<le> sint i \<or> itoa i \<noteq> ident then None else Some (nat (sint i)))"

definition reportFailed :: "string \<Rightarrow> string list \<Rightarrow> batch_failure \<Rightarrow> event" where
  "reportFailed url batch entry = (case entry of (ident, code, fault, text) \<Rightarrow>
     Log LevelError ''failed to delete message''
       ([(''queue_url'', LStr url)] @
        (case batchIndex (toString ident) (length batch) of
           Some i \<Rightarrow> [(''receipt_handle'', LStr (batch ! i))]
         | None \<Rightarrow> [(''id'', LStr (toString ident))]) @
        [(''code'', LStr (toString code)), (''sender_fault'', LBool fault),
         (''error'', LStr (toString text))]))"

definition entriesOf :: "string list \<Rightarrow> (string \<times> string) list" where
  "entriesOf batch = map (\<lambda>i. (itoa (word_of_nat i), batch ! i)) [0..<length batch]"

definition sendBatch :: "(trace \<Rightarrow> err + batch_failure list option) \<Rightarrow> string \<Rightarrow> string list \<Rightarrow> trace \<Rightarrow> trace" where
  "sendBatch client url batch t =
     (let t = t @ [CallDeleteBatch url (entriesOf batch)] in
      case client t of
        Inl e \<Rightarrow> t @ map (\<lambda>h. Log LevelError ''failed to delete message''
          [(''queue_url'', LStr url), (''receipt_handle'', LStr h), (''error'', LErr e)]) batch
      | Inr None \<Rightarrow> t
      | Inr (Some failures) \<Rightarrow> t @ map (reportFailed url batch) failures)"

text \<open>The handles of every DeleteMessageBatch call in a trace.\<close>

fun deletedBatches :: "trace \<Rightarrow> string list list" where
  "deletedBatches [] = []"
| "deletedBatches (CallDeleteBatch q es # t) = map snd es # deletedBatches t"
| "deletedBatches (e # t) = deletedBatches t"

lemma deletedBatches_append [simp]:
  "deletedBatches (s @ t) = deletedBatches s @ deletedBatches t"
  by (induction s rule: deletedBatches.induct) auto

lemma deletedBatches_logs [simp]:
  "deletedBatches (map (\<lambda>h. Log l x (f h)) hs) = []"
  "deletedBatches (map (reportFailed url batch) fs) = []"
  by (induction hs) (simp_all, induction fs, simp_all add: reportFailed_def split: prod.split)

lemma entriesOf_snd: "map snd (entriesOf batch) = batch"
  by (simp add: entriesOf_def comp_def map_nth)

lemma deletedBatches_send [simp]:
  "deletedBatches (sendBatch client url batch t) = deletedBatches t @ [batch]"
  by (simp add: sendBatch_def Let_def entriesOf_snd split: sum.split option.split)

lemma sint_of_index: "i < 2 ^ 31 \<Longrightarrow> sint (word_of_nat i :: go_int) = int i"
proof -
  assume "i < 2 ^ 31"
  then have "int i < 2 ^ 63" by simp
  then show ?thesis using sint64_of_int [of "int i"] by simp
qed

lemma batchIndex_itoa:
  assumes "n < 2 ^ 31" and "i < 2 ^ 31"
  shows "batchIndex (itoa (word_of_nat i)) n = (if i < n then Some i else None)"
  using assms by (simp add: batchIndex_def go_sint sint_of_index)

lemma batchIndex_SomeD:
  assumes "batchIndex ident n = Some i"
  shows "i < n \<and> ident = itoa (word_of_nat i)"
proof (cases "atoi ident")
  case (Some w)
  with assms have w: "0 \<le> sint w" "sint w < int n" "itoa w = ident" "i = nat (sint w)"
    by (simp_all add: batchIndex_def go_sint split: if_split_asm)
  have "word_of_nat i = (word_of_int (int i) :: go_int)" by simp
  also have "int i = sint w" using w(1,4) by simp
  also have "(word_of_int (sint w) :: go_int) = w" 
    by (rule signed_word_eqI) (simp add: sint64_of_int sint64_range)
  finally have "word_of_nat i = w" .
  with w show ?thesis by simp
qed (use assms in \<open>simp add: batchIndex_def\<close>)

section \<open>The senders\<close>

text \<open>A sender goroutine: what its \<open>run\<close> is doing, and the batch it holds.\<close>

datatype sender = Waiting | Draining "string list" | Sending "string list" | Exited

text \<open>The batcher: its channel, its senders, every handle accepted so far (in order), the trace.\<close>

record deleteBatcher =
  bHandles :: "string chan"
  bSenders :: "sender list"
  bAccepted :: "string list"
  bTrace :: trace

definition startBatcher :: "nat \<Rightarrow> nat \<Rightarrow> trace \<Rightarrow> deleteBatcher" where
  "startBatcher capacity senders t = \<lparr>bHandles = make_chan capacity,
     bSenders = replicate senders Waiting, bAccepted = [], bTrace = t\<rparr>"

inductive batch_step :: "(trace \<Rightarrow> err + batch_failure list option) \<Rightarrow> string \<Rightarrow>
    deleteBatcher \<Rightarrow> deleteBatcher \<Rightarrow> bool" for client url where
  enqueue: "send h (bHandles b) = Sent c \<Longrightarrow>
    batch_step client url b (b\<lparr>bHandles := c, bAccepted := bAccepted b @ [h]\<rparr>)"
| close: "close_chan (bHandles b) = Return c \<Longrightarrow> batch_step client url b (b\<lparr>bHandles := c\<rparr>)"
| first: "i < length (bSenders b) \<Longrightarrow> bSenders b ! i = Waiting \<Longrightarrow> recv (bHandles b) = Received h c \<Longrightarrow>
    batch_step client url b (b\<lparr>bHandles := c, bSenders := (bSenders b)[i := Draining [h]]\<rparr>)"
| drain: "i < length (bSenders b) \<Longrightarrow> bSenders b ! i = Draining batch \<Longrightarrow> length batch < maxDeleteBatch \<Longrightarrow>
    recv (bHandles b) = Received h c \<Longrightarrow>
    batch_step client url b (b\<lparr>bHandles := c, bSenders := (bSenders b)[i := Draining (batch @ [h])]\<rparr>)"
| drained: "i < length (bSenders b) \<Longrightarrow> bSenders b ! i = Draining batch \<Longrightarrow>
    maxDeleteBatch \<le> length batch \<or> recv (bHandles b) = RecvBlocks \<or> recv (bHandles b) = RecvClosed \<Longrightarrow>
    batch_step client url b (b\<lparr>bSenders := (bSenders b)[i := Sending batch]\<rparr>)"
| request: "i < length (bSenders b) \<Longrightarrow> bSenders b ! i = Sending batch \<Longrightarrow>
    batch_step client url b (b\<lparr>bSenders := (bSenders b)[i := Waiting],
      bTrace := sendBatch client url batch (bTrace b)\<rparr>)"
| exit: "i < length (bSenders b) \<Longrightarrow> bSenders b ! i = Waiting \<Longrightarrow> recv (bHandles b) = RecvClosed \<Longrightarrow>
    batch_step client url b (b\<lparr>bSenders := (bSenders b)[i := Exited]\<rparr>)"

fun holding :: "sender \<Rightarrow> string list" where
  "holding (Draining batch) = batch"
| "holding (Sending batch) = batch"
| "holding _ = []"

fun sender_ok :: "sender \<Rightarrow> bool" where
  "sender_ok (Draining batch) = (1 \<le> length batch \<and> length batch \<le> maxDeleteBatch)"
| "sender_ok (Sending batch) = (1 \<le> length batch \<and> length batch \<le> maxDeleteBatch)"
| "sender_ok _ = True"

definition inHand :: "sender list \<Rightarrow> string multiset" where
  "inHand ss = sum_list (map (\<lambda>s. mset (holding s)) ss)"

definition batch_inv :: "trace \<Rightarrow> deleteBatcher \<Rightarrow> bool" where
  "batch_inv t b \<longleftrightarrow> chan_ok (bHandles b) \<and> (\<forall>s \<in> set (bSenders b). sender_ok s) \<and>
     (\<exists>sent. deletedBatches (bTrace b) = deletedBatches t @ sent \<and>
        (\<forall>batch \<in> set sent. 1 \<le> length batch \<and> length batch \<le> maxDeleteBatch) \<and>
        mset (bAccepted b) = mset (concat sent) + inHand (bSenders b) + mset (buf (bHandles b)))"

lemma inHand_update:
  "i < length ss \<Longrightarrow> inHand (ss[i := s]) + mset (holding (ss ! i)) = inHand ss + mset (holding s)"
proof (induction ss arbitrary: i)
  case (Cons x ss)
  then show ?case by (cases i) (simp_all add: inHand_def algebra_simps)
qed simp

lemma inHand_replicate: "inHand (replicate n Waiting) = {#}"
  by (induction n) (simp_all add: inHand_def)

lemma batch_inv_start: "batch_inv t (startBatcher capacity senders t)"
  by (simp add: batch_inv_def startBatcher_def inHand_replicate) (simp add: make_chan_def)

lemma sender_update:
  "\<forall>s \<in> set ss. sender_ok s \<Longrightarrow> sender_ok s' \<Longrightarrow> \<forall>s \<in> set (ss[i := s']). sender_ok s"
  using set_update_subset_insert [of ss i s'] by blast

lemma batch_inv_step:
  assumes "batch_step client url b b'" and "batch_inv t b"
  shows "batch_inv t b'"
proof -
  from assms(2) obtain sent where ok: "chan_ok (bHandles b)" and ss: "\<forall>s \<in> set (bSenders b). sender_ok s"
    and sent: "deletedBatches (bTrace b) = deletedBatches t @ sent"
      "\<forall>batch \<in> set sent. 1 \<le> length batch \<and> length batch \<le> maxDeleteBatch"
    and cons: "mset (bAccepted b) = mset (concat sent) + inHand (bSenders b) + mset (buf (bHandles b))"
    by (auto simp: batch_inv_def)
  from assms(1) show ?thesis
  proof cases
    case (enqueue h c)
    with ch.send_Sent [OF ok enqueue(2)] ss sent cons show ?thesis by (simp add: batch_inv_def)
  next
    case (close c)
    then have "buf c = buf (bHandles b)" "chan_ok c"
      using ok by (auto simp: close_chan_def chan_ok_def split: if_splits)
    with close ss sent cons show ?thesis by (simp add: batch_inv_def)
  next
    case (first i h c)
    with ch.recv_Received [OF ok first(4)] inHand_update [OF first(2), of "Draining [h]"]
      sender_update [OF ss, of "Draining [h]" i] sent cons
    show ?thesis by (simp add: batch_inv_def maxDeleteBatch_def)
  next
    case (drain i batch h c)
    have "sender_ok (Draining batch)" using ss drain(2,3) by (metis nth_mem)
    with drain(4) have "sender_ok (Draining (batch @ [h]))" by simp
    with drain ch.recv_Received [OF ok drain(5)] inHand_update [OF drain(2), of "Draining (batch @ [h])"]
      sender_update [OF ss, of "Draining (batch @ [h])" i] sent cons
    show ?thesis by (simp add: batch_inv_def)
  next
    case (drained i batch)
    have "sender_ok (Sending batch)" using ss drained(2,3) by (metis nth_mem sender_ok.simps(1,2))
    with drained inHand_update [OF drained(2), of "Sending batch"]
      sender_update [OF ss, of "Sending batch" i] ok sent cons
    show ?thesis by (simp add: batch_inv_def)
  next
    case (request i batch)
    have len: "1 \<le> length batch \<and> length batch \<le> maxDeleteBatch"
      using ss request(2,3) by (metis nth_mem sender_ok.simps(2))
    have "mset (bAccepted b) = mset (concat (sent @ [batch])) + inHand ((bSenders b)[i := Waiting]) +
        mset (buf (bHandles b))"
      using cons inHand_update [OF request(2), of Waiting] request(3) by (simp add: union_ac)
    moreover have "deletedBatches (bTrace b') = deletedBatches t @ sent @ [batch]"
      using request sent(1) by simp
    ultimately show ?thesis
      using request sender_update [OF ss, of Waiting i] ok sent(2) len
      unfolding batch_inv_def by (intro conjI exI [of _ "sent @ [batch]"]) auto
  next
    case (exit i)
    with inHand_update [OF exit(2), of Exited] sender_update [OF ss, of Exited i] ok sent cons
    show ?thesis by (simp add: batch_inv_def)
  qed
qed

text \<open>A sender exits only from a closed and drained channel, which stays that way.\<close>

definition exit_inv :: "nat \<Rightarrow> deleteBatcher \<Rightarrow> bool" where
  "exit_inv n b \<longleftrightarrow> length (bSenders b) = n \<and>
     (Exited \<in> set (bSenders b) \<longrightarrow> closed (bHandles b) \<and> buf (bHandles b) = [])"

lemma set_updateD: "x \<in> set (xs[i := y]) \<Longrightarrow> x = y \<or> x \<in> set xs"
  using set_update_subset_insert [of xs i y] by blast

lemma exit_inv_step:
  assumes "batch_step client url b b'" and "chan_ok (bHandles b)" and "exit_inv n b"
  shows "exit_inv n b'"
  using assms
proof cases
  case (enqueue h c)
  with ch.send_Sent [OF assms(2) enqueue(2)] assms(3) show ?thesis by (auto simp: exit_inv_def)
next
  case (close c)
  then show ?thesis using assms(3) by (auto simp: exit_inv_def close_chan_def split: if_splits)
next
  case (first i h c)
  with ch.recv_Received [OF assms(2) first(4)] assms(3) show ?thesis
    by (auto simp: exit_inv_def dest!: set_updateD)
next
  case (drain i batch h c)
  with ch.recv_Received [OF assms(2) drain(5)] assms(3) show ?thesis
    by (auto simp: exit_inv_def dest!: set_updateD)
next
  case (exit i)
  then have "buf (bHandles b) = [] \<and> closed (bHandles b)" using ch.recv_closed [OF assms(2)] by blast
  with exit assms(3) show ?thesis by (simp add: exit_inv_def)
qed (use assms(3) in \<open>auto simp: exit_inv_def dest!: set_updateD\<close>)

lemma inHand_Exited: "set ss \<subseteq> {Exited} \<Longrightarrow> inHand ss = {#}"
  by (induction ss) (simp_all add: inHand_def)

text \<open>What is left to do once the channel is closed.\<close>

fun work :: "sender \<Rightarrow> nat" where
  "work Waiting = 1"
| "work (Sending batch) = 2"
| "work (Draining batch) = 3"
| "work Exited = 0"

definition remaining :: "deleteBatcher \<Rightarrow> nat" where
  "remaining b = 4 * length (buf (bHandles b)) + sum_list (map work (bSenders b))"

lemma work_update:
  "i < length ss \<Longrightarrow> sum_list (map work (ss[i := s])) + work (ss ! i) = sum_list (map work ss) + work s"
proof (induction ss arbitrary: i)
  case (Cons x ss)
  then show ?case by (cases i) (simp_all add: algebra_simps)
qed simp

lemma sender_decreases:
  assumes "batch_step client url b b'" and "chan_ok (bHandles b)"
    and "bAccepted b' = bAccepted b" and "closed (bHandles b') = closed (bHandles b)"
  shows "chan_ok (bHandles b') \<and> remaining b' < remaining b"
  using assms
proof cases
  case (close c)
  then show ?thesis using assms(4) by (auto simp: close_chan_def split: if_splits)
next
  case (first i h c)
  with ch.recv_Received [OF assms(2) first(4)] work_update [OF first(2), of "Draining [h]"]
  show ?thesis by (simp add: remaining_def)
next
  case (drain i batch h c)
  with ch.recv_Received [OF assms(2) drain(5)] work_update [OF drain(2), of "Draining (batch @ [h])"]
  show ?thesis by (simp add: remaining_def)
next
  case (drained i batch)
  with work_update [OF drained(2), of "Sending batch"] assms(2) show ?thesis by (simp add: remaining_def)
next
  case (request i batch)
  with work_update [OF request(2), of Waiting] assms(2) show ?thesis by (simp add: remaining_def)
next
  case (exit i)
  with work_update [OF exit(2), of Exited] assms(2) show ?thesis by (simp add: remaining_def)
qed (use assms(3) in simp)

lemma closed_step:
  assumes "batch_step client url b b'" and "chan_ok (bHandles b)" and "closed (bHandles b)"
  shows "closed (bHandles b') \<and> chan_ok (bHandles b') \<and> bAccepted b' = bAccepted b \<and>
    remaining b' < remaining b"
proof -
  have "bAccepted b' = bAccepted b \<and> closed (bHandles b') = closed (bHandles b)"
    using assms(1)
  proof cases
    case (enqueue h c)
    then show ?thesis using ch.send_Sent [OF assms(2) enqueue(2)] assms(3) by simp
  next
    case (close c)
    then show ?thesis using assms(3) by (simp add: close_chan_def)
  next
    case (first i h c)
    with ch.recv_Received [OF assms(2) first(4)] show ?thesis by simp
  next
    case (drain i batch h c)
    with ch.recv_Received [OF assms(2) drain(5)] show ?thesis by simp
  qed simp_all
  with sender_decreases [OF assms(1,2)] assms(3) show ?thesis by simp
qed

text \<open>A sender that has not exited can always go on once the channel is closed.\<close>

lemma closed_progress:
  assumes "chan_ok (bHandles b)" and "closed (bHandles b)"
    and "i < length (bSenders b)" and "bSenders b ! i \<noteq> Exited"
  shows "\<exists>b'. batch_step client url b b'"
proof (cases "bSenders b ! i")
  case Waiting
  show ?thesis
  proof (cases "buf (bHandles b) = []")
    case True
    then have "recv (bHandles b) = RecvClosed" using ch.recv_closed assms by blast
    with Waiting assms show ?thesis using batch_step.exit by blast
  next
    case False
    with ch.recv_progress assms(1) obtain h c where "recv (bHandles b) = Received h c" by metis
    with Waiting assms show ?thesis using batch_step.first by blast
  qed
next
  case (Draining batch)
  show ?thesis
  proof (cases "length batch < maxDeleteBatch \<and> buf (bHandles b) \<noteq> []")
    case True
    with ch.recv_progress assms(1) obtain h c where "recv (bHandles b) = Received h c" by metis
    with Draining True assms show ?thesis using batch_step.drain by blast
  next
    case False
    then have "maxDeleteBatch \<le> length batch \<or> recv (bHandles b) = RecvClosed"
      using ch.recv_closed assms(1,2) by (metis not_le)
    with Draining assms show ?thesis using batch_step.drained by blast
  qed
next
  case (Sending batch)
  with assms show ?thesis using batch_step.request by blast
qed (use assms in simp)

definition batches :: "(trace \<Rightarrow> err + batch_failure list option) \<Rightarrow> string \<Rightarrow> nat \<Rightarrow> nat \<Rightarrow> deleteBatcher \<Rightarrow> bool" where
  "batches client url capacity n b \<longleftrightarrow> (batch_step client url)\<^sup>*\<^sup>* (startBatcher capacity n []) b"

lemma batches_inv:
  assumes "batches client url capacity n b"
  shows "batch_inv [] b \<and> exit_inv n b"
  using assms unfolding batches_def
proof (induction rule: rtranclp_induct)
  case base
  show ?case using batch_inv_start by (auto simp: exit_inv_def startBatcher_def)
next
  case (step b b')
  then have "chan_ok (bHandles b)" by (simp add: batch_inv_def)
  with step show ?case using batch_inv_step exit_inv_step by metis
qed

text \<open>
  C27: No pending delete is lost, duplicated or invented, whatever the interleaving of producers and
  senders: at any time the receipt handles accepted so far are, as a multiset, those in the requests
  sent, those in the senders' hands and those still queued; and every request carries between one
  and ten handles.
\<close>

theorem pending_deletes_conserved:
  assumes "batches client url capacity n b"
  shows "mset (bAccepted b) = mset (concat (deletedBatches (bTrace b))) + inHand (bSenders b) +
      mset (buf (bHandles b)) \<and>
    (\<forall>batch \<in> set (deletedBatches (bTrace b)). 1 \<le> length batch \<and> length batch \<le> 10)"
  using batches_inv [OF assms] by (auto simp: batch_inv_def maxDeleteBatch_def)

lemma after_close:
  assumes "(batch_step client url)\<^sup>*\<^sup>* b b'" and "chan_ok (bHandles b)" and "closed (bHandles b)"
  shows "chan_ok (bHandles b') \<and> closed (bHandles b') \<and> bAccepted b' = bAccepted b"
  using assms(1)
proof (induction rule: rtranclp_induct)
  case base
  show ?case using assms by simp
next
  case (step b1 b2)
  with closed_step [OF step(2)] show ?case by simp
qed

lemma closed_terminates:
  assumes "chan_ok (f 0)" "closed (f 0)" "\<And>k. f k = bHandles (g k)"
    and "\<And>k. batch_step client url (g k) (g (Suc k))"
  shows False
proof -
  have "chan_ok (f k) \<and> closed (f k)" for k
  proof (induction k)
    case (Suc k)
    with closed_step [OF assms(4) [of k]] show ?case by (simp add: assms(3))
  qed (use assms in simp)
  then have "remaining (g (Suc k)) < remaining (g k)" for k
    using closed_step [OF assms(4) [of k]] by (simp add: assms(3))
  then have "\<forall>k. (g (Suc k), g k) \<in> measure remaining" by simp
  then show False using wf_measure [of remaining] unfolding wf_iff_no_infinite_down_chain by blast
qed

text \<open>
  Closing the batcher flushes it and terminates. Once the channel is closed nothing more is
  accepted, no run of the senders is infinite, and when they can do nothing more every one of them
  has exited, the queue is empty, and the requests sent hold exactly the handles accepted.
\<close>

theorem close_flushes_everything:
  assumes "batches client url capacity n b" and "closed (bHandles b)" and "1 \<le> n"
  shows "(\<nexists>g. g 0 = b \<and> (\<forall>k. batch_step client url (g k) (g (Suc k)))) \<and>
    (\<forall>b'. (batch_step client url)\<^sup>*\<^sup>* b b' \<and> (\<nexists>b''. batch_step client url b' b'') \<longrightarrow>
       set (bSenders b') = {Exited} \<and> buf (bHandles b') = [] \<and>
       mset (concat (deletedBatches (bTrace b'))) = mset (bAccepted b))"
proof (intro conjI allI impI)
  have ok: "chan_ok (bHandles b)" using batches_inv [OF assms(1)] by (simp add: batch_inv_def)
  show "\<nexists>g. g 0 = b \<and> (\<forall>k. batch_step client url (g k) (g (Suc k)))"
    using closed_terminates [of "\<lambda>k. bHandles (_ k)"] ok assms(2) by metis
  fix b'
  assume run: "(batch_step client url)\<^sup>*\<^sup>* b b' \<and> (\<nexists>b''. batch_step client url b' b'')"
  with after_close ok assms(2) have cl: "chan_ok (bHandles b')" "closed (bHandles b')"
    "bAccepted b' = bAccepted b" by blast+
  have "batches client url capacity n b'" using assms(1) run by (auto simp: batches_def)
  note inv = batches_inv [OF this]
  have all: "bSenders b' ! i = Exited" if "i < length (bSenders b')" for i
    using closed_progress [OF cl(1,2) that] run by blast
  then have "set (bSenders b') \<subseteq> {Exited}" by (auto simp: in_set_conv_nth)
  moreover have "bSenders b' \<noteq> []" using inv assms(3) by (auto simp: exit_inv_def)
  ultimately show ex: "set (bSenders b') = {Exited}" by (cases "bSenders b'") auto
  then show "buf (bHandles b') = []" using inv by (simp add: exit_inv_def)
  moreover have "inHand (bSenders b') = {#}"
    using ex by (simp add: inHand_Exited)
  ultimately show "mset (concat (deletedBatches (bTrace b'))) = mset (bAccepted b)"
    using inv cl(3) by (auto simp: batch_inv_def)
qed

section \<open>Witnesses\<close>

definition batcherAt :: "string list \<Rightarrow> bool \<Rightarrow> deleteBatcher" where
  "batcherAt hs c = \<lparr>bHandles = \<lparr>buf = hs, cap = 5, closed = c\<rparr>,
     bSenders = [Waiting, Waiting], bAccepted = hs, bTrace = []\<rparr>"

definition closedBatcher :: deleteBatcher where
  "closedBatcher = batcherAt [''h1''] True"

lemma start_at: "startBatcher 5 2 [] = batcherAt [] False"
  by (simp add: startBatcher_def batcherAt_def make_chan_def numeral_2_eq_2)

lemma enqueue_at: "batch_step client url (batcherAt [] False) (batcherAt [h] False)"
  using batch_step.enqueue [where b = "batcherAt [] False" and h = h
      and c = "\<lparr>buf = [h], cap = 5, closed = False\<rparr>"]
  by (simp add: batcherAt_def send_def)

lemma close_at: "batch_step client url (batcherAt hs False) (batcherAt hs True)"
  using batch_step.close [where b = "batcherAt hs False" and c = "\<lparr>buf = hs, cap = 5, closed = True\<rparr>"]
  by (simp add: batcherAt_def close_chan_def)

lemma closedBatcher_reachable: "batches (\<lambda>t. Inr None) ''q'' 5 2 closedBatcher"
  unfolding batches_def start_at closedBatcher_def
  by (rule rtranclp.rtrancl_into_rtrancl, rule rtranclp.rtrancl_into_rtrancl, rule rtranclp.rtrancl_refl,
      rule enqueue_at, rule close_at)

lemma pending_deletes_conserved_witness:
  "mset (bAccepted closedBatcher) = mset (concat (deletedBatches (bTrace closedBatcher))) +
     inHand (bSenders closedBatcher) + mset (buf (bHandles closedBatcher))"
  using pending_deletes_conserved [OF closedBatcher_reachable] by blast

lemma close_flushes_everything_witness:
  "\<nexists>g. g 0 = closedBatcher \<and> (\<forall>k. batch_step (\<lambda>t. Inr None) ''q'' (g k) (g (Suc k)))"
  using close_flushes_everything [OF closedBatcher_reachable] by (simp add: closedBatcher_def batcherAt_def)

section \<open>Responses\<close>

text \<open>
  The entry Ids of a request are read back exactly: \<open>batchIndex\<close> accepts an Id precisely when
  \<open>send\<close> gave it to an entry of the batch, and returns that entry's index, so a failed entry is
  logged with the receipt handle it was sent with and an Id that was not sent is logged raw.
\<close>

theorem entry_ids_round_trip:
  assumes "length batch < 2 ^ 31"
  shows "(batchIndex ident (length batch) = Some i \<longleftrightarrow>
      i < length batch \<and> entriesOf batch ! i = (ident, batch ! i)) \<and>
    (reportFailed url batch (Some ident, code, fault, text) = Log LevelError ''failed to delete message''
       ([(''queue_url'', LStr url),
         (if ident \<in> set (map fst (entriesOf batch))
          then (''receipt_handle'', LStr (the (map_of (entriesOf batch) ident))) else (''id'', LStr ident)),
         (''code'', LStr (toString code)), (''sender_fault'', LBool fault), (''error'', LStr (toString text))]))"
proof -
  let ?n = "length batch"
  have at: "entriesOf batch ! i = (itoa (word_of_nat i), batch ! i)" if "i < ?n" for i
    using that by (simp add: entriesOf_def)
  have idx: "batchIndex ident ?n = Some i \<longleftrightarrow> i < ?n \<and> ident = itoa (word_of_nat i)" for i
    using batchIndex_SomeD [of ident ?n i] batchIndex_itoa [OF assms, of i] assms by auto
  have look: "map_of (entriesOf batch) ident = Some (batch ! i)" if "batchIndex ident ?n = Some i" for i
  proof -
    have winj: "j = k" if "(word_of_nat j :: go_int) = word_of_nat k" "j < ?n" "k < ?n" for j k
    proof -
      have "sint (word_of_nat j :: go_int) = int j" "sint (word_of_nat k :: go_int) = int k"
        using that(2,3) assms by (simp_all add: sint_of_index)
      with that(1) show ?thesis by (metis of_nat_eq_iff)
    qed
    have "distinct (map fst (entriesOf batch))"
      by (auto simp: entriesOf_def distinct_map comp_def inj_on_def itoa_inject dest: winj)
    moreover have "(ident, batch ! i) \<in> set (entriesOf batch)"
      using that idx [of i] at [of i] by (metis nth_mem length_map length_upt minus_nat.diff_0 entriesOf_def)
    ultimately show ?thesis by simp
  qed
  have mem: "ident \<in> set (map fst (entriesOf batch)) \<longleftrightarrow> batchIndex ident ?n \<noteq> None"
  proof -
    have "ident \<in> set (map fst (entriesOf batch)) \<longleftrightarrow> (\<exists>i < ?n. ident = itoa (word_of_nat i))"
      by (auto simp: entriesOf_def)
    with idx show ?thesis by auto
  qed
  have fst: "batchIndex ident ?n = Some i \<longleftrightarrow> i < ?n \<and> entriesOf batch ! i = (ident, batch ! i)"
    using idx [of i] at [of i] by auto
  show ?thesis
  proof (cases "batchIndex ident ?n")
    case None
    then have "ident \<notin> set (map fst (entriesOf batch))" using mem by simp
    then show ?thesis using fst None by (simp add: reportFailed_def toString_def)
  next
    case (Some k)
    then have "ident \<in> set (map fst (entriesOf batch))" using mem by simp
    then show ?thesis using fst Some look [OF Some] by (simp add: reportFailed_def toString_def)
  qed
qed

lemma entry_ids_round_trip_witness:
  "batchIndex (itoa 1) (length [''a'', ''b'']) = Some 1"
  using entry_ids_round_trip [of "[''a'', ''b'']" "itoa 1" 1] by (simp add: entriesOf_def)

end
