(* ===== verification/Consumer.thy ===== *)
theory Consumer
  imports Worker_Pool
begin

text \<open>
  The consumer of one queue (\<open>src/consumer/consumer.go\<close>, \<open>options.go\<close>). \<open>NewConsumer\<close> and
  \<open>runSetup\<close> are \<open>New\<close> and the part of \<open>Run\<close> before the pool starts: the checks, the queue URL and
  the dispatcher. From there \<open>run_step\<close> is the concurrent program: the polling loop, the workers of
  the pool, the cancellation of the context and the shutdown, interleaved step by step.
\<close>

section \<open>Construction\<close>

text \<open>The loggers of the package \<open>logger\<close> and of a user; what is logged is in the events.\<close>

datatype logger = NewNoOp | NewLogger | UserLogger nat

record consumer =
  coClient :: "sqs_message sqs_client"
  coRoute :: route
  coLog :: logger
  coMetrics :: "recorder option"
  coScheduler :: "scheduler_client option"
  coGlobals :: "middleware list"
  coRetryTimeout :: duration

definition defaultRetryTimeout :: duration where "defaultRetryTimeout = 5 * second"

datatype consumer_option =
    WithLogger "logger option"
  | WithRetryTimeout duration
  | WithGlobalMiddleware "middleware option list"
  | WithMetrics "recorder option"
  | WithSchedulerClient "scheduler_client option"

text \<open>The middlewares of a list that are not nil.\<close>

definition nonNil :: "'a option list \<Rightarrow> 'a list" where
  "nonNil xs = List.map_filter (\<lambda>x. x) xs"

fun applyConsumer :: "consumer_option \<Rightarrow> consumer \<Rightarrow> err + consumer" where
  "applyConsumer (WithLogger l) c = Inr (case l of None \<Rightarrow> c | Some x \<Rightarrow> c\<lparr>coLog := x\<rparr>)"
| "applyConsumer (WithRetryTimeout dur) c =
     (if dur \<le>s 0 then Inl (Fmt ''retry timeout must be positive, got %s'' [ArgDur dur])
      else Inr (c\<lparr>coRetryTimeout := dur\<rparr>))"
| "applyConsumer (WithGlobalMiddleware mws) c = Inr (c\<lparr>coGlobals := coGlobals c @ nonNil mws\<rparr>)"
| "applyConsumer (WithMetrics rec) c = Inr (if rec \<noteq> None then c\<lparr>coMetrics := rec\<rparr> else c)"
| "applyConsumer (WithSchedulerClient sc) c = Inr (if sc \<noteq> None then c\<lparr>coScheduler := sc\<rparr> else c)"

definition NewConsumer :: "sqs_message sqs_client option \<Rightarrow> route option \<Rightarrow> consumer_option option list \<Rightarrow>
    err + consumer" where
  "NewConsumer client r opts = (case client of
     None \<Rightarrow> Inl (Sentinel ErrNoSQSClient)
   | Some cl \<Rightarrow> (case r of
       None \<Rightarrow> Inl (Sentinel ErrNoRoute)
     | Some rt \<Rightarrow> applyOptions applyConsumer opts
         \<lparr>coClient = cl, coRoute = rt, coLog = NewNoOp, coMetrics = None, coScheduler = None,
          coGlobals = [], coRetryTimeout = defaultRetryTimeout\<rparr>))"

section \<open>Run, up to the polling loop\<close>

text \<open>\<open>Inr False\<close> is the nil client of a route without batched deletes.\<close>

definition batchDeleteClient :: "consumer \<Rightarrow> err + bool" where
  "batchDeleteClient c =
     (if \<not> deleteBatch (coRoute c) then Inr False
      else if deleteMessageBatch (coClient c) = None then Inl (Sentinel ErrDeleteBatchUnsupported)
      else Inr True)"

definition resolveQueueURL :: "consumer \<Rightarrow> trace \<Rightarrow> (err + string) \<times> trace" where
  "resolveQueueURL c t = (let t = t @ [CallGetQueueUrl (queueName (coRoute c))] in
     case getQueueUrl (coClient c) t of
       Inl e \<Rightarrow> (Inl (wrapS ErrQueueResolve e), t)
     | Inr out \<Rightarrow> (case out of
         Some (Some url) \<Rightarrow> (Inr url, t)
       | _ \<Rightarrow> (Inl (Sentinel ErrQueueResolve), t)))"

definition runSetup :: "consumer \<Rightarrow> (trace \<Rightarrow> err + 8 word list) \<Rightarrow> (trace \<Rightarrow> int) \<Rightarrow>
    (go_int \<Rightarrow> go_int outcome) \<Rightarrow> trace \<Rightarrow> (err + dispatcher) \<times> trace" where
  "runSetup c rd now rnd t =
     (let scheduled = (retryModel (coRoute c) = ScheduledRetryModel) in
      if scheduled \<and> coScheduler c = None then (Inl (Sentinel ErrNoSchedulerClient), t)
      else case batchDeleteClient c of
        Inl e \<Rightarrow> (Inl e, t)
      | Inr batched \<Rightarrow> (case resolveQueueURL c t of
          (Inl e, t) \<Rightarrow> (Inl e, t)
        | (Inr url, t) \<Rightarrow>
          (let vm = (if scheduled
               then newScheduledVisibilityManager (coClient c) url (visibilityTimeout (coRoute c)) (extensionLimit (coRoute c))
               else newVisibilityManager (coClient c) url (visibilityTimeout (coRoute c)) (extensionLimit (coRoute c)));
             d = newDispatcher (coClient c) (coRoute c) url vm (coScheduler c) rd now rnd (coGlobals c)
           in (Inr (d\<lparr>dMetrics := coMetrics c, dBatcher := batched\<rparr>), t))))"

section \<open>The polling loop and the pool\<close>

text \<open>
  Where the goroutine of \<open>Run\<close> is: at the top of the loop, in \<open>ReceiveMessage\<close>, waiting out the retry
  timeout after an error, handing the messages of a batch to \<open>dispatch\<close>, in \<open>stop\<close> before and after the
  channels are closed, or returned. A panic of any goroutine ends the program.
\<close>

datatype phase = Polling | Receiving | Pausing | Delivering "message list" | Stopping | Closing
  | Finished | Crashed string

record run_state =
  rsPhase :: phase
  rsCancelled :: bool
  rsPool :: pool

definition receiveRequest :: "consumer \<Rightarrow> dispatcher \<Rightarrow> receive_input" where
  "receiveRequest c d = \<lparr>riQueueUrl = dQueueURL d, riMaxNumberOfMessages = maxMessages (coRoute c),
     riWaitTimeSeconds = waitTimeSeconds (coRoute c), riVisibilityTimeout = visibilityTimeout (coRoute c)\<rparr>"

definition deliveries :: "(string \<Rightarrow> sns_envelope) \<Rightarrow> nat option \<Rightarrow> sqs_message list \<Rightarrow> message list" where
  "deliveries parse b ms = map (\<lambda>m. (newMessage parse m)\<lparr>barrier := b\<rparr>) ms"

definition recordIn :: "event list \<Rightarrow> pool \<Rightarrow> pool" where
  "recordIn es p = p\<lparr>poTrace := poTrace p @ es\<rparr>"

text \<open>\<open>rand.IntN\<close>: for a positive bound, some number below it.\<close>

definition legalRand :: "(go_int \<Rightarrow> go_int outcome) \<Rightarrow> bool" where
  "legalRand rnd \<longleftrightarrow> (\<forall>n. 0 <s n \<longrightarrow> (\<exists>w. rnd n = Return w \<and> 0 \<le> sint w \<and> sint w < sint n))"

definition running :: "phase \<Rightarrow> bool" where
  "running ph \<longleftrightarrow> ph \<noteq> Finished \<and> (\<forall>p. ph \<noteq> Crashed p)"

inductive run_step :: "consumer \<Rightarrow> dispatcher \<Rightarrow> ctx \<Rightarrow> (string \<Rightarrow> sns_envelope) \<Rightarrow>
    run_state \<Rightarrow> run_state \<Rightarrow> bool" for co d c parse where
  cancel: "\<not> rsCancelled s \<Longrightarrow> run_step co d c parse s (s\<lparr>rsCancelled := True\<rparr>)"
| quit: "rsPhase s = Polling \<Longrightarrow> rsCancelled s \<Longrightarrow> run_step co d c parse s (s\<lparr>rsPhase := Stopping\<rparr>)"
| receive: "rsPhase s = Polling \<Longrightarrow> \<not> rsCancelled s \<Longrightarrow>
    run_step co d c parse s (s\<lparr>rsPhase := Receiving, rsPool := recordIn [CallReceive (receiveRequest co d)] (rsPool s)\<rparr>)"
| failed_cancelled: "rsPhase s = Receiving \<Longrightarrow> receiveMessage (coClient co) (poTrace (rsPool s)) = Inl e \<Longrightarrow>
    rsCancelled s \<Longrightarrow> run_step co d c parse s (s\<lparr>rsPhase := Stopping\<rparr>)"
| failed: "rsPhase s = Receiving \<Longrightarrow> receiveMessage (coClient co) (poTrace (rsPool s)) = Inl e \<Longrightarrow>
    \<not> rsCancelled s \<Longrightarrow> run_step co d c parse s (s\<lparr>rsPhase := Pausing, rsPool := recordIn
      [Log LevelError ''failed to receive messages''
        [(''queue_url'', LStr (dQueueURL d)), (''error'', LErr (wrapS ErrGetMessage e))]] (rsPool s)\<rparr>)"
| timer: "rsPhase s = Pausing \<Longrightarrow> run_step co d c parse s (s\<lparr>rsPhase := Polling\<rparr>)"
| pause_cancelled: "rsPhase s = Pausing \<Longrightarrow> rsCancelled s \<Longrightarrow> run_step co d c parse s (s\<lparr>rsPhase := Stopping\<rparr>)"
| nil_output: "rsPhase s = Receiving \<Longrightarrow> receiveMessage (coClient co) (poTrace (rsPool s)) = Inr None \<Longrightarrow>
    run_step co d c parse s (s\<lparr>rsPhase := Crashed nilDeref\<rparr>)"
| plain_batch: "rsPhase s = Receiving \<Longrightarrow> receiveMessage (coClient co) (poTrace (rsPool s)) = Inr (Some ms) \<Longrightarrow>
    newBatchBarrier d = None \<Longrightarrow> run_step co d c parse s (s\<lparr>rsPhase := Delivering (deliveries parse None ms)\<rparr>)"
| grouped_batch: "rsPhase s = Receiving \<Longrightarrow> receiveMessage (coClient co) (poTrace (rsPool s)) = Inr (Some ms) \<Longrightarrow>
    newBatchBarrier d = Some b \<Longrightarrow> poBarriers (rsPool s) a = None \<Longrightarrow>
    run_step co d c parse s (s\<lparr>rsPhase := Delivering (deliveries parse (Some a) ms),
      rsPool := (rsPool s)\<lparr>poBarriers := (poBarriers (rsPool s))(a := newBatchBarrier d)\<rparr>\<rparr>)"
| deliver: "rsPhase s = Delivering (m # ms) \<Longrightarrow> legalRand rnd \<Longrightarrow>
    workerIndex (d\<lparr>dRandIntN := rnd\<rparr>) m = (Return w, m') \<Longrightarrow> enqueue w m' (rsPool s) = Enqueued pool' \<Longrightarrow>
    run_step co d c parse s (s\<lparr>rsPhase := Delivering ms, rsPool := pool'\<rparr>)"
| drop: "rsPhase s = Delivering (m # ms) \<Longrightarrow> legalRand rnd \<Longrightarrow>
    workerIndex (d\<lparr>dRandIntN := rnd\<rparr>) m = (Return w, m') \<Longrightarrow> rsCancelled s \<Longrightarrow> channelAt w (rsPool s) = Return ch \<Longrightarrow>
    run_step co d c parse s (s\<lparr>rsPhase := Delivering ms\<rparr>)"
| deliver_panic: "rsPhase s = Delivering (m # ms) \<Longrightarrow> legalRand rnd \<Longrightarrow>
    workerIndex (d\<lparr>dRandIntN := rnd\<rparr>) m = (Panic p, m') \<Longrightarrow>
    run_step co d c parse s (s\<lparr>rsPhase := Crashed p\<rparr>)"
| enqueue_panic: "rsPhase s = Delivering (m # ms) \<Longrightarrow> legalRand rnd \<Longrightarrow>
    workerIndex (d\<lparr>dRandIntN := rnd\<rparr>) m = (Return w, m') \<Longrightarrow> enqueue w m' (rsPool s) = EnqueuePanics p \<Longrightarrow>
    run_step co d c parse s (s\<lparr>rsPhase := Crashed p\<rparr>)"
| delivered: "rsPhase s = Delivering [] \<Longrightarrow> run_step co d c parse s (s\<lparr>rsPhase := Polling\<rparr>)"
| stop: "rsPhase s = Stopping \<Longrightarrow> closeAll (poChannels (rsPool s)) = Return chs \<Longrightarrow>
    run_step co d c parse s (s\<lparr>rsPhase := Closing, rsPool := (rsPool s)\<lparr>poChannels := chs\<rparr>\<rparr>)"
| stop_panic: "rsPhase s = Stopping \<Longrightarrow> closeAll (poChannels (rsPool s)) = Panic p \<Longrightarrow>
    run_step co d c parse s (s\<lparr>rsPhase := Crashed p\<rparr>)"
| work: "running (rsPhase s) \<Longrightarrow> pool_step d c (rsPool s) pool' \<Longrightarrow> run_step co d c parse s (s\<lparr>rsPool := pool'\<rparr>)"
| panic: "running (rsPhase s) \<Longrightarrow> i < length (poWorkers (rsPool s)) \<Longrightarrow> poWorkers (rsPool s) ! i = Working msg \<Longrightarrow>
    process d c (processState msg (rsPool s)) = (Panic p, st) \<Longrightarrow>
    run_step co d c parse s (s\<lparr>rsPhase := Crashed p\<rparr>)"
| finish: "rsPhase s = Closing \<Longrightarrow> set (poWorkers (rsPool s)) \<subseteq> {Gone} \<Longrightarrow>
    run_step co d c parse s (s\<lparr>rsPhase := Finished\<rparr>)"

definition startRun :: "dispatcher \<Rightarrow> bool \<Rightarrow> trace \<Rightarrow> run_state" where
  "startRun d cancelled t = \<lparr>rsPhase = Polling, rsCancelled = cancelled, rsPool = startPool d t\<rparr>"

text \<open>The states a run of the consumer can be in, once \<open>Run\<close> has made the dispatcher.\<close>

definition reached :: "consumer \<Rightarrow> dispatcher \<Rightarrow> ctx \<Rightarrow> (string \<Rightarrow> sns_envelope) \<Rightarrow> run_state \<Rightarrow> bool" where
  "reached co d c parse s \<longleftrightarrow> (\<exists>rd now rnd cancelled t'. runSetup co rd now rnd [] = (Inr d, t') \<and>
     (run_step co d c parse)\<^sup>*\<^sup>* (startRun d cancelled t') s)"

section \<open>Invariants of a run\<close>

lemma map_update_same: "i < length xs \<Longrightarrow> f y = f (xs ! i) \<Longrightarrow> map f (xs[i := y]) = map f xs"
  by (metis map_update list_update_same_conv nth_map length_map)

lemma pool_step_closed:
  assumes "pool_inv d s" and "pool_step d c s s'"
  shows "map closed (poChannels s') = map closed (poChannels s)"
  using assms(2)
proof cases
  case (take i msg ch)
  note inv = pool_invD [OF assms(1)]
  have i: "i < length (poChannels s)" "i < poolSize d" using take inv by simp_all
  have "closed ch = closed (poChannels s ! i)" using ch.recv_Received [OF inv(3) [OF i(2)] take(4)] by simp
  then show ?thesis using i take(1) by (simp add: map_update_same)
qed simp_all

lemma enqueue_closed:
  assumes "pool_inv d s" and "enqueue w msg s = Enqueued s'"
  shows "map closed (poChannels s') = map closed (poChannels s)"
proof -
  note inv = pool_invD [OF assms(1)]
  define i where "i = nat (sint w)"
  from assms(2) obtain ch where ch: "i < length (poChannels s)" "send msg (poChannels s ! i) = Sent ch"
    and s': "s' = s\<lparr>poChannels := (poChannels s)[i := ch], poSent := poSent s @ [(i, msg)]\<rparr>"
    unfolding i_def by (rule enqueue_Enqueued)
  have "closed ch = closed (poChannels s ! i)" using ch.send_Sent [OF inv(3) ch(2)] ch(1) inv(1) by simp
  then show ?thesis using ch(1) s' by (simp add: map_update_same)
qed

lemma enqueue_keeps:
  "enqueue w msg s = Enqueued s' \<Longrightarrow> poBarriers s' = poBarriers s \<and> poTrace s' = poTrace s \<and>
     poDone s' = poDone s \<and> poWorkers s' = poWorkers s \<and> poSent s' = poSent s @ [(nat (sint w), msg)]"
  by (erule enqueue_Enqueued) simp

lemma pool_inv_cong:
  "poChannels s' = poChannels s \<Longrightarrow> poWorkers s' = poWorkers s \<Longrightarrow> poSent s' = poSent s \<Longrightarrow>
   poDone s' = poDone s \<Longrightarrow> pool_inv d s' = pool_inv d s"
  by (simp add: pool_inv_def sentTo_def doneBy_def)

lemma pool_inv_close:
  assumes "pool_inv d s" and "s' = s\<lparr>poChannels := map (\<lambda>ch. ch\<lparr>closed := True\<rparr>) (poChannels s)\<rparr>"
  shows "pool_inv d s'"
  using assms(1) unfolding assms(2) pool_inv_def by (auto simp: sentTo_def doneBy_def chan_ok_def)

lemma closeAll_Return:
  "closeAll chs = Return chs' \<Longrightarrow> chs' = map (\<lambda>ch. ch\<lparr>closed := True\<rparr>) chs"
proof (induction chs arbitrary: chs')
  case (Cons ch chs)
  then show ?case by (auto simp: close_chan_def split: outcome.splits if_splits)
qed simp

text \<open>The channels are open until \<open>stop\<close> closes them; \<open>Run\<close> returns when the workers have left.\<close>

definition isClosing :: "phase \<Rightarrow> bool" where
  "isClosing ph \<longleftrightarrow> ph = Closing \<or> ph = Finished"

definition run_inv :: "dispatcher \<Rightarrow> run_state \<Rightarrow> bool" where
  "run_inv d s \<longleftrightarrow> pool_inv d (rsPool s) \<and>
     ((\<forall>p. rsPhase s \<noteq> Crashed p) \<longrightarrow> set (map closed (poChannels (rsPool s))) \<subseteq> {isClosing (rsPhase s)}) \<and>
     (rsPhase s = Finished \<longrightarrow> set (poWorkers (rsPool s)) \<subseteq> {Gone})"

lemma start_run_inv: "run_inv d (startRun d cancelled t)"
proof -
  have "set (map closed (poChannels (startPool d t))) \<subseteq> {False}"
    by (auto simp: startPool_def make_chan_def)
  then show ?thesis by (simp add: run_inv_def startRun_def start_inv isClosing_def)
qed

lemma run_step_inv:
  assumes "run_step co d c parse s s'" and "run_inv d s"
  shows "run_inv d s'"
  using assms
proof (induction rule: run_step.induct)
  case (receive s)
  have "pool_inv d (recordIn [CallReceive (receiveRequest co d)] (rsPool s)) = pool_inv d (rsPool s)"
    by (rule pool_inv_cong) (simp_all add: recordIn_def)
  with receive show ?case by (simp add: run_inv_def isClosing_def recordIn_def)
next
  case (failed s e)
  let ?es = "[Log LevelError ''failed to receive messages''
        [(''queue_url'', LStr (dQueueURL d)), (''error'', LErr (wrapS ErrGetMessage e))]]"
  have "pool_inv d (recordIn ?es (rsPool s)) = pool_inv d (rsPool s)"
    by (rule pool_inv_cong) (simp_all add: recordIn_def)
  moreover have "poChannels (recordIn ?es (rsPool s)) = poChannels (rsPool s)" by (simp add: recordIn_def)
  ultimately show ?case using failed(1,4) by (simp add: run_inv_def isClosing_def)
next
  case (grouped_batch s ms b a)
  let ?p = "(rsPool s)\<lparr>poBarriers := (poBarriers (rsPool s))(a := newBatchBarrier d)\<rparr>"
  have "pool_inv d ?p = pool_inv d (rsPool s)" by (rule pool_inv_cong) simp_all
  with grouped_batch show ?case by (simp add: run_inv_def isClosing_def)
next
  case (deliver s m ms rnd w m' pool')
  from deliver(1,5) have inv: "pool_inv d (rsPool s)" "set (map closed (poChannels (rsPool s))) \<subseteq> {False}"
    by (simp_all add: run_inv_def isClosing_def)
  then have "pool_inv d pool'" "set (map closed (poChannels pool')) \<subseteq> {False}"
    using enqueue_inv [OF _ deliver(4)] enqueue_closed [OF _ deliver(4)] by simp_all
  then show ?case by (simp add: run_inv_def isClosing_def)
next
  case (stop s chs)
  let ?p = "(rsPool s)\<lparr>poChannels := chs\<rparr>"
  have chs: "chs = map (\<lambda>ch. ch\<lparr>closed := True\<rparr>) (poChannels (rsPool s))" by (rule closeAll_Return [OF stop(2)])
  have old: "pool_inv d (rsPool s)" using stop(3) by (simp add: run_inv_def)
  have "pool_inv d ?p" unfolding chs by (rule pool_inv_close [OF old refl])
  moreover have "set (map closed (poChannels ?p)) \<subseteq> {True}" by (auto simp: chs)
  ultimately show ?case by (simp add: run_inv_def isClosing_def)
next
  case (work s pool')
  have inv: "pool_inv d (rsPool s)" using work(3) by (simp add: run_inv_def)
  then have "pool_inv d pool'" "map closed (poChannels pool') = map closed (poChannels (rsPool s))"
    using pool_step_inv [OF inv work(2)] pool_step_closed [OF inv work(2)] by simp_all
  with work(1,3) show ?case by (simp add: run_inv_def running_def)
qed (simp_all add: run_inv_def isClosing_def)

lemma reached_inv:
  assumes "reached co d c parse s"
  shows "run_inv d s"
proof -
  from assms obtain cancelled t where "(run_step co d c parse)\<^sup>*\<^sup>* (startRun d cancelled t) s"
    by (auto simp: reached_def)
  then show ?thesis
    by (induction rule: rtranclp_induct) (auto intro: start_run_inv run_step_inv)
qed

section \<open>The barriers of the batches\<close>

lemma processScheduled_barriers:
  "processScheduled d err st = (r, st') \<Longrightarrow> pBarriers st' = pBarriers st"
  by (auto simp: processScheduled_def Let_def retained_def split: prod.splits option.splits if_splits)

lemma process_live:
  assumes "process d c st = (Return (), st')"
  shows "dom (pBarriers st') = dom (pBarriers st)"
proof (cases "dRetryModel d = ScheduledRetryModel")
  case True
  then have nh: "\<not> held d st" by (simp add: held_def orderedGroups_def route_consts)
  obtain r st1 where h: "handled d c st = (r, st1)" by force
  from assms True show ?thesis
    unfolding process_handled [OF nh] h
    using invoke_simps(5) [OF h] processScheduled_barriers by (auto split: hresult.splits)
next
  case False
  have "dom (pBarriers (failGroup d st)) = dom (pBarriers st)"
    by (auto simp: failGroup_def fail_def split: option.splits if_splits)
  with process_barriers [OF False assms] show ?thesis by simp
qed

lemma pool_step_live:
  assumes "pool_step d c s s'"
  shows "dom (poBarriers s') = dom (poBarriers s)"
  using assms
proof cases
  case (work i msg st)
  from process_live [OF work(4)] work(1) show ?thesis by (simp add: processState_def)
qed simp_all

fun pending :: "phase \<Rightarrow> message list" where
  "pending (Delivering ms) = ms"
| "pending _ = []"

definition barrier_inv :: "run_state \<Rightarrow> bool" where
  "barrier_inv s \<longleftrightarrow> finite (dom (poBarriers (rsPool s))) \<and>
     (\<forall>m \<in> set (pending (rsPhase s)). \<forall>a. barrier m = Some a \<longrightarrow> a \<in> dom (poBarriers (rsPool s)))"

lemma workerIndex_barrier: "workerIndex d m = (r, m') \<Longrightarrow> barrier m' = barrier m"
  by (auto simp: workerIndex_def Let_def split: if_splits)

lemma barrier_inv_step:
  assumes "run_step co d c parse s s'" and "barrier_inv s"
  shows "barrier_inv s'"
  using assms
proof (induction rule: run_step.induct)
  case (deliver s m ms rnd w m' pool')
  then show ?case using enqueue_keeps [OF deliver(4)] by (simp add: barrier_inv_def)
next
  case (work s pool')
  then show ?case using pool_step_live [OF work(2)] by (simp add: barrier_inv_def)
next
  case (grouped_batch s ms b a)
  then show ?case by (auto simp: barrier_inv_def deliveries_def)
qed (auto simp: barrier_inv_def recordIn_def deliveries_def)

section \<open>Order within the groups of a run\<close>

definition routed :: "dispatcher \<Rightarrow> pool \<Rightarrow> bool" where
  "routed d s \<longleftrightarrow> (dMode d = PerGroupID \<longrightarrow> (\<forall>(i, m) \<in> set (poSent s). groupKey m = msgGroupKey d m \<and>
     (\<exists>w. groupIndex d (groupKey m) = Return w \<and> i = nat (sint w))))"

definition group_inv :: "dispatcher \<Rightarrow> run_state \<Rightarrow> bool" where
  "group_inv d s \<longleftrightarrow> order_inv d (rsPool s) \<and> routed d (rsPool s) \<and> barrier_inv s \<and>
     commits (poTrace (rsPool s)) = committed (rsPool s)"

lemma routed_cong: "poSent s' = poSent s \<Longrightarrow> routed d s' = routed d s"
  by (simp add: routed_def)

lemma groupIndex_rand [simp]: "groupIndex (d\<lparr>dRandIntN := rnd\<rparr>) k = groupIndex d k"
  by (simp add: groupIndex_def)

lemma msgGroupKey_rand [simp]: "msgGroupKey (d\<lparr>dRandIntN := rnd\<rparr>) m = msgGroupKey d m"
  by (simp add: msgGroupKey_def)

lemma workerIndex_routed:
  assumes "dMode d = PerGroupID" and "workerIndex (d\<lparr>dRandIntN := rnd\<rparr>) m = (Return w, m')"
  shows "groupKey m' = msgGroupKey d m'" "groupIndex d (groupKey m') = Return w"
  using assms by (auto simp: workerIndex_def Let_def)

lemma start_group_inv:
  assumes "commits t = []"
  shows "group_inv d (startRun d cancelled t)"
  using assms by (simp add: group_inv_def startRun_def startPool_def order_inv_def groupVerdicts_def
      groupDone_def groupSent_def routed_def barrier_inv_def committed_def)

lemma group_inv_pool:
  assumes "group_inv d s" and "pool_inv d (rsPool s)" and "dRetryModel d \<noteq> ScheduledRetryModel"
    and "polite (dHandler d)" and "pool_step d c (rsPool s) pool'"
  shows "order_inv d pool'" "routed d pool'" "commits (poTrace pool') = committed pool'"
proof -
  show "order_inv d pool'" using order_inv_step [OF assms(2) _ assms(3,5)] assms(1) by (simp add: group_inv_def)
  have "poSent pool' = poSent (rsPool s)" using assms(5) by cases simp_all
  from routed_cong [OF this] show "routed d pool'" using assms(1) by (simp add: group_inv_def)
  show "commits (poTrace pool') = committed pool'"
    using commits_step [OF assms(3,4,5)] assms(1) by (simp add: group_inv_def)
qed

lemma group_inv_step:
  assumes "run_step co d c parse s s'" and "group_inv d s" and "run_inv d s"
    and "dRetryModel d \<noteq> ScheduledRetryModel" and "polite (dHandler d)"
  shows "group_inv d s'"
proof -
  have b: "barrier_inv s'" using barrier_inv_step [OF assms(1)] assms(2) by (simp add: group_inv_def)
  have "order_inv d (rsPool s') \<and> routed d (rsPool s') \<and> commits (poTrace (rsPool s')) = committed (rsPool s')"
    using assms
  proof (induction rule: run_step.induct)
    case (receive s)
    let ?p = "recordIn [CallReceive (receiveRequest co d)] (rsPool s)"
    have "order_inv d ?p = order_inv d (rsPool s)" by (rule order_inv_cong) (simp_all add: recordIn_def)
    moreover have "routed d ?p = routed d (rsPool s)" by (rule routed_cong) (simp add: recordIn_def)
    moreover have "commits (poTrace ?p) = commits (poTrace (rsPool s))" "committed ?p = committed (rsPool s)"
      by (simp_all add: recordIn_def committed_def)
    ultimately show ?case using receive by (simp add: group_inv_def)
  next
    case (failed s e)
    let ?p = "recordIn [Log LevelError ''failed to receive messages''
        [(''queue_url'', LStr (dQueueURL d)), (''error'', LErr (wrapS ErrGetMessage e))]] (rsPool s)"
    have "order_inv d ?p = order_inv d (rsPool s)" by (rule order_inv_cong) (simp_all add: recordIn_def)
    moreover have "routed d ?p = routed d (rsPool s)" by (rule routed_cong) (simp add: recordIn_def)
    moreover have "commits (poTrace ?p) = commits (poTrace (rsPool s))" "committed ?p = committed (rsPool s)"
      by (simp_all add: recordIn_def committed_def)
    ultimately show ?case using failed by (simp add: group_inv_def)
  next
    case (grouped_batch s ms b a)
    let ?p = "(rsPool s)\<lparr>poBarriers := (poBarriers (rsPool s))(a := newBatchBarrier d)\<rparr>"
    have "newBatchBarrier d = newGroupBarrier" using grouped_batch(3) by (auto simp: newBatchBarrier_def split: if_splits)
    then have "order_inv d ?p"
      using order_inv_alloc [OF _ grouped_batch(4) refl, of d] grouped_batch(5) by (simp add: group_inv_def)
    moreover have "routed d ?p = routed d (rsPool s)" by (rule routed_cong) simp
    ultimately show ?case using grouped_batch(5) by (simp add: group_inv_def committed_def)
  next
    case (deliver s m ms rnd w m' pool')
    note keeps = enqueue_keeps [OF deliver(4)]
    have "\<And>a. barrier m' = Some a \<Longrightarrow> poBarriers (rsPool s) a \<noteq> None"
      using deliver(1,5) workerIndex_barrier [OF deliver(3)] by (auto simp: group_inv_def barrier_inv_def)
    then have "order_inv d pool'"
      using deliver(5) by (intro order_inv_enqueue [OF _ deliver(4)]) (simp_all add: group_inv_def)
    moreover have "routed d pool'"
      using deliver(5) workerIndex_routed [OF _ deliver(3)] keeps by (auto simp: group_inv_def routed_def)
    moreover have "committed pool' = committed (rsPool s)" using keeps by (simp add: committed_def)
    ultimately show ?case using deliver(5) keeps by (simp add: group_inv_def)
  next
    case (stop s chs)
    let ?p = "(rsPool s)\<lparr>poChannels := chs\<rparr>"
    have "order_inv d ?p = order_inv d (rsPool s)" by (rule order_inv_cong) simp_all
    moreover have "routed d ?p = routed d (rsPool s)" by (rule routed_cong) simp
    ultimately show ?case using stop(3) by (simp add: group_inv_def committed_def)
  next
    case (work s pool')
    have "pool_inv d (rsPool s)" using work(4) by (simp add: run_inv_def)
    from group_inv_pool [OF work(3) this work(5,6,2)] show ?case by simp
  qed (simp_all add: group_inv_def)
  with b show ?thesis by (simp add: group_inv_def)
qed

lemma runSetup_trace:
  assumes "runSetup co rd now rnd t = (Inr d, t')"
  shows "t' = t @ [CallGetQueueUrl (queueName (coRoute co))]"
  using assms by (auto simp: runSetup_def resolveQueueURL_def Let_def
      split: if_splits sum.splits option.splits)

lemma reached_group_inv:
  assumes "reached co d c parse s" and "dRetryModel d \<noteq> ScheduledRetryModel" and "polite (dHandler d)"
  shows "group_inv d s"
proof -
  from assms(1) obtain rd now rnd cancelled t where set: "runSetup co rd now rnd [] = (Inr d, t)"
    and run: "(run_step co d c parse)\<^sup>*\<^sup>* (startRun d cancelled t) s" by (auto simp: reached_def)
  have "commits t = []" using runSetup_trace [OF set] by simp
  from run show ?thesis
  proof (induction rule: rtranclp_induct)
    case base
    show ?case by (rule start_group_inv) fact
  next
    case (step s1 s2)
    then have "reached co d c parse s1" using set unfolding reached_def by blast
    from group_inv_step [OF step(2,3) reached_inv [OF this] assms(2,3)] show ?case .
  qed
qed

text \<open>Within a group, what was processed is a prefix of what was enqueued.\<close>

lemma filter_by_index:
  "\<forall>x \<in> set xs. P (f x) \<longrightarrow> fst x = i \<Longrightarrow>
   filter P (map f xs) = filter P (map f (filter (\<lambda>x. fst x = i) xs))"
  by (induction xs) auto

lemma done_sent:
  assumes "pool_inv d p" and "(j, m, v) \<in> set (poDone p)"
  shows "(j, m) \<in> set (poSent p)"
proof -
  have "j < poolSize d" using assms by (force simp: pool_inv_def)
  from pool_invD(4) [OF assms(1) this] have "set (doneBy p j) \<subseteq> set (sentTo p j)" by auto
  moreover have "m \<in> set (doneBy p j)" using assms(2) by (force simp: doneBy_def)
  ultimately show ?thesis by (auto simp: sentTo_def)
qed

lemma one_worker_prefix:
  assumes "pool_inv d p" and sent: "\<forall>x \<in> set (poSent p). P (snd x) \<longrightarrow> fst x = i"
  shows "\<exists>rest. filter P (map snd (poSent p)) = filter P (map (fst \<circ> snd) (poDone p)) @ rest"
proof -
  have "\<forall>x \<in> set (poDone p). P ((fst \<circ> snd) x) \<longrightarrow> fst x = i"
    using sent done_sent [OF assms(1)] by fastforce
  from filter_by_index [where f = "fst \<circ> snd", OF this] filter_by_index [where f = snd, OF sent]
  have s: "filter P (map snd (poSent p)) = filter P (sentTo p i)"
    and d: "filter P (map (fst \<circ> snd) (poDone p)) = filter P (doneBy p i)"
    by (simp_all add: sentTo_def doneBy_def)
  show ?thesis
  proof (cases "i < poolSize d")
    case True
    then show ?thesis unfolding s d using pool_invD(4) [OF assms(1) True] by simp
  next
    case False
    then have "\<forall>x \<in> set (poSent p). fst x \<noteq> i" "\<forall>x \<in> set (poDone p). fst x \<noteq> i"
      using assms(1) by (auto simp: pool_inv_def)
    then show ?thesis unfolding s d by (simp add: sentTo_def doneBy_def filter_False)
  qed
qed

text \<open>A routing key has one worker, in all batches of a run.\<close>

definition keyWorker :: "dispatcher \<Rightarrow> string \<Rightarrow> nat" where
  "keyWorker d k = (case groupIndex d k of Return w \<Rightarrow> nat (sint w) | Panic x \<Rightarrow> poolSize d)"

lemma key_worker:
  assumes "routed d p" and "dMode d = PerGroupID" and "(i, m) \<in> set (poSent p)"
  shows "groupKey m = msgGroupKey d m" "i = keyWorker d (groupKey m)"
  using assms by (fastforce simp: routed_def keyWorker_def)+

lemma key_prefix:
  assumes "pool_inv d p" and "routed d p" and "dMode d = PerGroupID"
  shows "\<exists>rest. keySent p k = map (fst \<circ> snd) (keyDone p k) @ rest"
proof -
  have "\<forall>x \<in> set (poSent p). groupKey (snd x) = k \<longrightarrow> fst x = keyWorker d k"
    using key_worker(2) [OF assms(2,3)] by force
  from one_worker_prefix [OF assms(1) this] show ?thesis
    by (simp add: keySent_def keyDone_def filter_map comp_def)
qed

lemma group_prefix:
  assumes "pool_inv d p" and "routed d p" and "dMode d = PerGroupID"
  shows "\<exists>rest. groupSent p a k = map (fst \<circ> snd) (groupDone p a k) @ rest"
proof -
  have "\<forall>x \<in> set (poSent p). inGroup a k (snd x) \<longrightarrow> fst x = keyWorker d k"
    using key_worker(2) [OF assms(2,3)] by (force simp: inGroup_def)
  from one_worker_prefix [OF assms(1) this] show ?thesis
    by (simp add: groupSent_def groupDone_def filter_map comp_def)
qed

lemma group_in_order:
  assumes "reached co d c parse s" and "orderedGroups d" and "polite (dHandler d)"
  shows "(\<exists>rest. groupSent (rsPool s) a k = map (fst \<circ> snd) (groupDone (rsPool s) a k) @ rest) \<and>
    (\<exists>n. groupVerdicts (rsPool s) a k = replicate n Committed \<or>
      (\<exists>h. groupVerdicts (rsPool s) a k = replicate n Committed @ Failed # replicate h Held)) \<and>
    commits (poTrace (rsPool s)) = committed (rsPool s)"
proof -
  have mode: "dMode d = PerGroupID" "dRetryModel d \<noteq> ScheduledRetryModel"
    using assms(2) by (simp_all add: orderedGroups_def route_consts)
  note inv = reached_group_inv [OF assms(1) mode(2) assms(3)]
  have "pool_inv d (rsPool s)" using reached_inv [OF assms(1)] by (simp add: run_inv_def)
  moreover have "orderly (groupVerdicts (rsPool s) a k)"
    using inv assms(2) by (cases "poBarriers (rsPool s) a") (auto simp: group_inv_def order_inv_def)
  ultimately show ?thesis
    using group_prefix [OF _ _ mode(1)] inv by (simp add: group_inv_def orderly_def)
qed

text \<open>The routing of a run, under either retry model.\<close>

lemma reached_routed:
  assumes "reached co d c parse s"
  shows "routed d (rsPool s)"
proof -
  have keeps: "routed d (rsPool s')" if "run_step co d c parse s s'" "routed d (rsPool s)" for s s'
    using that
  proof (induction rule: run_step.induct)
    case (deliver s m ms rnd w m' pool')
    with workerIndex_routed [OF _ deliver(3)] enqueue_keeps [OF deliver(4)] show ?case by (auto simp: routed_def)
  next
    case (work s pool')
    have "poSent pool' = poSent (rsPool s)" using work(2) by cases simp_all
    from routed_cong [OF this] work(3) show ?case by simp
  qed (simp_all add: routed_def recordIn_def)
  from assms obtain cancelled t where "(run_step co d c parse)\<^sup>*\<^sup>* (startRun d cancelled t) s"
    by (auto simp: reached_def)
  then show ?thesis
  proof (induction rule: rtranclp_induct)
    case base
    show ?case by (simp add: routed_def startRun_def startPool_def)
  next
    case (step s1 s2)
    from keeps [OF step(2,3)] show ?case .
  qed
qed

text \<open>
  C4: Per-group order survives concurrency. Whatever the interleaving of the polling loop, the
  workers and cancellation, every message of a per-group route is enqueued, with its routing key, on the one
  worker of that key, in every batch alike, and the messages of a key are processed in the order they
  were dispatched, across all batches of the run. Where groups are ordered, of the messages of a group of one
  batch each is committed up to the first failure, the failed one is not, and every one
  after it is held back untouched; and the receipt handles committed on the trace are exactly those of
  the messages the verdicts call committed, in order.
\<close>

theorem group_order_survives_concurrency:
  assumes "reached co d c parse s" and "dMode d = PerGroupID"
  shows "(\<forall>(i, m) \<in> set (poSent (rsPool s)). groupKey m = msgGroupKey d m \<and> i = keyWorker d (groupKey m)) \<and>
    (\<exists>rest. keySent (rsPool s) k = map (fst \<circ> snd) (keyDone (rsPool s) k) @ rest) \<and>
    (orderedGroups d \<and> polite (dHandler d) \<longrightarrow>
      (\<exists>rest. groupSent (rsPool s) a k = map (fst \<circ> snd) (groupDone (rsPool s) a k) @ rest) \<and>
      (\<exists>n. groupVerdicts (rsPool s) a k = replicate n Committed \<or>
        (\<exists>h. groupVerdicts (rsPool s) a k = replicate n Committed @ Failed # replicate h Held)) \<and>
      commits (poTrace (rsPool s)) = committed (rsPool s))"
proof -
  have inv: "pool_inv d (rsPool s)" using reached_inv [OF assms(1)] by (simp add: run_inv_def)
  note r = reached_routed [OF assms(1)]
  have "\<forall>(i, m) \<in> set (poSent (rsPool s)). groupKey m = msgGroupKey d m \<and> i = keyWorker d (groupKey m)"
    using key_worker [OF r assms(2)] by blast
  with key_prefix [OF inv r assms(2)] group_in_order [OF assms(1)] show ?thesis by blast
qed

section \<open>Shutdown\<close>

lemma reached_step:
  assumes "reached co d c parse s" and "(run_step co d c parse)\<^sup>*\<^sup>* s s'"
  shows "reached co d c parse s'"
  using assms unfolding reached_def by (meson rtranclp_trans)

lemma reached_barrier_inv:
  assumes "reached co d c parse s"
  shows "barrier_inv s"
proof -
  from assms obtain cancelled t where "(run_step co d c parse)\<^sup>*\<^sup>* (startRun d cancelled t) s"
    by (auto simp: reached_def)
  then show ?thesis
  proof (induction rule: rtranclp_induct)
    case base
    show ?case by (simp add: barrier_inv_def startRun_def startPool_def dom_def)
  next
    case (step s1 s2)
    from barrier_inv_step [OF step(2,3)] show ?case .
  qed
qed

text \<open>After cancellation every step brings the run closer to its end.\<close>

fun phaseRank :: "phase \<Rightarrow> nat" where
  "phaseRank Receiving = 5" | "phaseRank Pausing = 5" | "phaseRank (Delivering ms) = 4"
| "phaseRank Polling = 3" | "phaseRank Stopping = 2" | "phaseRank Closing = 1"
| "phaseRank Finished = 0" | "phaseRank (Crashed p) = 0"

definition runRank :: "run_state \<Rightarrow> nat \<times> nat \<times> nat" where
  "runRank s = (phaseRank (rsPhase s), length (pending (rsPhase s)), workLeft (rsPool s))"

lemma cancelled_step:
  assumes "run_step co d c parse s s'" and "rsCancelled s" and "run_inv d s"
  shows "rsCancelled s' \<and> (runRank s', runRank s) \<in> less_than <*lex*> less_than <*lex*> less_than"
  using assms
proof (induction rule: run_step.induct)
  case (work s pool')
  from pool_step_decreases [OF _ work(2)] work(4) have "workLeft pool' < workLeft (rsPool s)"
    by (simp add: run_inv_def)
  with work(3) show ?case by (simp add: runRank_def)
next
  case (panic s i msg p st)
  then show ?case by (cases "rsPhase s") (simp_all add: runRank_def running_def)
qed (simp_all add: runRank_def)

lemma cancelled_terminates:
  assumes "reached co d c parse (f 0)" and "rsCancelled (f 0)" and "\<And>k. run_step co d c parse (f k) (f (Suc k))"
  shows False
proof -
  have inv: "reached co d c parse (f k) \<and> rsCancelled (f k)" for k
  proof (induction k)
    case (Suc k)
    then have "reached co d c parse (f (Suc k))" using reached_step assms(3) by blast
    with Suc cancelled_step [OF assms(3) _ reached_inv] show ?case by blast
  qed (use assms(1,2) in simp)
  let ?r = "inv_image (less_than <*lex*> less_than <*lex*> less_than) runRank"
  have "(runRank (f (Suc k)), runRank (f k)) \<in> less_than <*lex*> less_than <*lex*> less_than" for k
    using cancelled_step [OF assms(3) _ reached_inv] inv by blast
  then have "(f (Suc k), f k) \<in> ?r" for k by simp
  moreover have "wf ?r" by (intro wf_inv_image wf_lex_prod wf_less_than)
  ultimately show False unfolding wf_iff_no_infinite_down_chain by blast
qed

lemma legalRand_exists: "legalRand (\<lambda>n. Return 0)"
  by (simp add: legalRand_def go_sint)

lemma receiving_progress:
  assumes "reached co d c parse s" and "rsCancelled s" and Receiving: "rsPhase s = Receiving"
  shows "\<exists>s'. run_step co d c parse s s'"
proof (cases "receiveMessage (coClient co) (poTrace (rsPool s))")
  case (Inl e)
  from run_step.failed_cancelled [OF Receiving this assms(2)] show ?thesis by blast
next
  case (Inr out)
  show ?thesis
  proof (cases out)
    case None
    with Inr run_step.nil_output [OF Receiving] show ?thesis by blast
  next
    case (Some ms)
    note recv = Inr [unfolded Some]
    have "finite (dom (poBarriers (rsPool s)))"
      using reached_barrier_inv [OF assms(1)] by (simp add: barrier_inv_def)
    then obtain a where "poBarriers (rsPool s) a = None"
      using ex_new_if_finite [of "dom (poBarriers (rsPool s))"] by (auto simp: infinite_UNIV_nat)
    with run_step.plain_batch [OF Receiving recv] run_step.grouped_batch [OF Receiving recv]
    show ?thesis by (cases "newBatchBarrier d") blast+
  qed
qed

lemma closing_progress:
  assumes "reached co d c parse s" and Closing: "rsPhase s = Closing"
  shows "\<exists>s'. run_step co d c parse s s'"
proof -
  have running: "running (rsPhase s)" using Closing by (simp add: running_def)
  have inv: "pool_inv d (rsPool s)" and closed: "set (map closed (poChannels (rsPool s))) \<subseteq> {True}"
    using reached_inv [OF assms(1)] Closing by (auto simp: run_inv_def isClosing_def)
  show ?thesis
  proof (cases "set (poWorkers (rsPool s)) \<subseteq> {Gone}")
    case True
    from run_step.finish [OF Closing this] show ?thesis by blast
  next
    case False
    then obtain x where "x \<in> set (poWorkers (rsPool s))" "x \<noteq> Gone" by blast
    then obtain i where i: "i < length (poWorkers (rsPool s))" "poWorkers (rsPool s) ! i \<noteq> Gone"
      unfolding in_set_conv_nth by blast
    have lens: "length (poWorkers (rsPool s)) = poolSize d" "length (poChannels (rsPool s)) = poolSize d"
      using pool_invD [OF inv] by simp_all
    then have "poChannels (rsPool s) ! i \<in> set (poChannels (rsPool s))" using i(1) by simp
    then have "closed (poChannels (rsPool s) ! i)" using closed by auto
    with worker_progress [OF inv _ i(2), of c] i(1) lens(1) consider pool' where "pool_step d c (rsPool s) pool'"
      | msg p st where "poWorkers (rsPool s) ! i = Working msg"
          "process d c (processState msg (rsPool s)) = (Panic p, st)" by auto
    then show ?thesis
      using run_step.work [OF running] run_step.panic [OF running i(1)] by cases blast+
  qed
qed

text \<open>A cancelled run is never stuck before its end.\<close>

lemma cancelled_progress:
  assumes "reached co d c parse s" and "rsCancelled s" and "running (rsPhase s)"
  shows "\<exists>s'. run_step co d c parse s s'"
proof (cases "rsPhase s")
  case Polling
  from run_step.quit [OF Polling assms(2)] show ?thesis by blast
next
  case Receiving
  with receiving_progress assms(1,2) show ?thesis by blast
next
  case (Delivering ms)
  show ?thesis
  proof (cases ms)
    case Nil
    with Delivering run_step.delivered show ?thesis by blast
  next
    case (Cons m rest)
    obtain r m' where w: "workerIndex (d\<lparr>dRandIntN := \<lambda>n. Return 0\<rparr>) m = (r, m')" by force
    note deliv = Delivering [unfolded Cons]
    show ?thesis
    proof (cases r)
      case (Panic p)
      with run_step.deliver_panic [OF deliv legalRand_exists] w show ?thesis by blast
    next
      case (Return v)
      note w = w [unfolded Return]
      show ?thesis
      proof (cases "channelAt v (rsPool s)")
        case (Return ch)
        from run_step.drop [OF deliv legalRand_exists w assms(2) this] show ?thesis by blast
      next
        case (Panic p)
        then have "enqueue v m' (rsPool s) = EnqueuePanics p" by (simp add: enqueue_def)
        from run_step.enqueue_panic [OF deliv legalRand_exists w this] show ?thesis by blast
      qed
    qed
  qed
next
  case Stopping
  have "\<forall>ch \<in> set (poChannels (rsPool s)). \<not> closed ch"
    using reached_inv [OF assms(1)] Stopping by (auto simp: run_inv_def isClosing_def)
  from run_step.stop [OF Stopping closeAll_open [OF this]] show ?thesis by blast
next
  case Closing
  with closing_progress assms(1,3) show ?thesis by blast
next
  case Pausing
  from run_step.pause_cancelled [OF this assms(2)] show ?thesis by blast
qed (use assms(3) in \<open>simp_all add: running_def\<close>)

text \<open>
  C10: Shutdown is graceful. From any state of a run whose context is cancelled no run of the program
  is infinite, and it can only come to rest in one of two ways: \<open>Run\<close> has returned, all workers have
  left, and every message that was ever enqueued has been processed, in order per worker; or a
  goroutine panicked and ended the program.
\<close>

theorem shutdown_is_graceful:
  assumes "reached co d c parse s" and "rsCancelled s"
  shows "(\<nexists>f. f 0 = s \<and> (\<forall>k. run_step co d c parse (f k) (f (Suc k)))) \<and>
    (\<forall>s'. (run_step co d c parse)\<^sup>*\<^sup>* s s' \<and> (\<nexists>s''. run_step co d c parse s' s'') \<longrightarrow>
       (rsPhase s' = Finished \<and> set (poWorkers (rsPool s')) \<subseteq> {Gone} \<and>
        (\<forall>i. doneBy (rsPool s') i = sentTo (rsPool s') i) \<and>
        mset (map (fst \<circ> snd) (poDone (rsPool s'))) = mset (map snd (poSent (rsPool s')))) \<or>
       (\<exists>p. rsPhase s' = Crashed p))"
proof (intro conjI allI impI)
  show "\<nexists>f. f 0 = s \<and> (\<forall>k. run_step co d c parse (f k) (f (Suc k)))"
    using cancelled_terminates assms by metis
  fix s'
  assume run: "(run_step co d c parse)\<^sup>*\<^sup>* s s' \<and> (\<nexists>s''. run_step co d c parse s' s'')"
  then have r: "reached co d c parse s'" using reached_step [OF assms(1)] by blast
  have "rsCancelled s'"
    using run [THEN conjunct1] assms(2)
  proof (induction rule: rtranclp_induct)
    case (step s1 s2)
    then have "reached co d c parse s1" using reached_step [OF assms(1)] by blast
    from cancelled_step [OF step(2) step(3) [OF step(4)] reached_inv [OF this]] show ?case by blast
  qed
  with cancelled_progress [OF r] run have "\<not> running (rsPhase s')" by blast
  then consider "rsPhase s' = Finished" | p where "rsPhase s' = Crashed p" by (auto simp: running_def)
  then show "(rsPhase s' = Finished \<and> set (poWorkers (rsPool s')) \<subseteq> {Gone} \<and>
        (\<forall>i. doneBy (rsPool s') i = sentTo (rsPool s') i) \<and>
        mset (map (fst \<circ> snd) (poDone (rsPool s'))) = mset (map snd (poSent (rsPool s')))) \<or>
       (\<exists>p. rsPhase s' = Crashed p)"
  proof cases
    case 1
    with reached_inv [OF r] have "pool_inv d (rsPool s')" "set (poWorkers (rsPool s')) \<subseteq> {Gone}"
      by (simp_all add: run_inv_def)
    from all_gone_all_done [OF this] this(2) 1 show ?thesis by simp
  qed blast
qed

section \<open>What can end the program\<close>

definition crashCause :: "consumer \<Rightarrow> dispatcher \<Rightarrow> ctx \<Rightarrow> string \<Rightarrow> bool" where
  "crashCause co d c p \<longleftrightarrow> (\<exists>st st'. process d c st = (Panic p, st')) \<or>
     (p = nilDeref \<and> (\<exists>t. receiveMessage (coClient co) t = Inr None)) \<or>
     (dMode d = PerGroupID \<and> sint (dWorkerPoolSize d) mod 2 ^ 32 = 0)"

text \<open>\<open>workerIndex\<close> stays in the pool, so \<open>dispatch\<close> neither indexes out of range nor meets a closed channel.\<close>

lemma workerIndex_in_pool:
  assumes "legalRand rnd" and "0 < sint (dWorkerPoolSize d)" and "workerIndex (d\<lparr>dRandIntN := rnd\<rparr>) m = (Return w, m')"
  shows "0 \<le> sint w" "sint w < sint (dWorkerPoolSize d)"
proof -
  have "0 \<le> sint w \<and> sint w < sint (dWorkerPoolSize d)"
  proof (cases "dMode d = PerGroupID")
    case True
    with workerIndex_routed(2) [OF True assms(3)] groupIndex_in_pool assms(2) show ?thesis by blast
  next
    case False
    then have r: "rnd (dWorkerPoolSize d) = Return w" using assms(3) by (simp add: workerIndex_def)
    have "0 <s dWorkerPoolSize d" using assms(2) by (simp add: go_sint)
    then obtain v where "rnd (dWorkerPoolSize d) = Return v" "0 \<le> sint v" "sint v < sint (dWorkerPoolSize d)"
      using assms(1) unfolding legalRand_def by blast
    with r show ?thesis by simp
  qed
  then show "0 \<le> sint w" "sint w < sint (dWorkerPoolSize d)" by blast+
qed

lemma run_inv_open:
  assumes "run_inv d s" and "rsPhase s = Delivering ms \<or> rsPhase s = Stopping"
  shows "\<forall>ch \<in> set (poChannels (rsPool s)). \<not> closed ch"
proof -
  have "set (map closed (poChannels (rsPool s))) \<subseteq> {False}"
    using assms unfolding run_inv_def isClosing_def by (elim disjE) simp_all
  then show ?thesis by auto
qed

lemma crash_step:
  assumes "run_step co d c parse s s'" and "0 < sint (dWorkerPoolSize d)" and "run_inv d s"
    and "\<forall>p. rsPhase s = Crashed p \<longrightarrow> crashCause co d c p"
  shows "\<forall>p. rsPhase s' = Crashed p \<longrightarrow> crashCause co d c p"
  using assms
proof (induction rule: run_step.induct)
  case (deliver_panic s m ms rnd p m')
  have "\<not> (\<exists>x. rnd (dWorkerPoolSize d) = Panic x)"
    using deliver_panic(2,4) by (auto simp: legalRand_def go_sint)
  with deliver_panic(3) have g: "dMode d = PerGroupID" "groupIndex d (msgGroupKey d m) = Panic p"
    by (auto simp: workerIndex_def Let_def msgGroupKey_def split: if_splits)
  then have "ucast (dWorkerPoolSize d) = (0 :: 32 word)" by (auto simp: groupIndex_def Let_def split: if_splits)
  then have "sint (dWorkerPoolSize d) mod 2 ^ 32 = 0" using pool_low_bits by (metis unsigned_0)
  with g show ?case by (simp add: crashCause_def)
next
  case (enqueue_panic s m ms rnd w m' p)
  have "pool_inv d (rsPool s)" using enqueue_panic(6) by (simp add: run_inv_def)
  moreover have "\<forall>ch \<in> set (poChannels (rsPool s)). \<not> closed ch"
    using run_inv_open [OF enqueue_panic(6)] enqueue_panic(1) by simp
  ultimately have "enqueue w m' (rsPool s) \<noteq> EnqueuePanics p"
    using enqueue_safe workerIndex_in_pool [OF enqueue_panic(2,5,3)] by blast
  with enqueue_panic(4) show ?case by contradiction
next
  case (stop_panic s p)
  from closeAll_open [OF run_inv_open [OF stop_panic(4)]] stop_panic(1,2) show ?case by simp
qed (auto simp: crashCause_def)

lemma runSetup_pool:
  assumes "runSetup co rd now rnd t = (Inr d, t')"
  shows "0 < sint (dWorkerPoolSize d)"
proof -
  have "0 < sint (dWorkerPoolSize (newDispatcher cl r url vm sc rd now rnd gs))" for cl r url vm sc gs
    by (auto simp: newDispatcher_def Let_def go_sint split: option.split)
  then show ?thesis
    using assms by (auto simp: runSetup_def Let_def split: if_splits sum.splits prod.splits)
qed

lemma reached_crash_cause:
  assumes "reached co d c parse s" and "rsPhase s = Crashed p"
  shows "crashCause co d c p"
proof -
  from assms(1) obtain rd now rnd cancelled t where set: "runSetup co rd now rnd [] = (Inr d, t)"
    and run: "(run_step co d c parse)\<^sup>*\<^sup>* (startRun d cancelled t) s" by (auto simp: reached_def)
  from run have "\<forall>p. rsPhase s = Crashed p \<longrightarrow> crashCause co d c p"
  proof (induction rule: rtranclp_induct)
    case base
    show ?case by (simp add: startRun_def)
  next
    case (step s1 s2)
    then have "reached co d c parse s1" using set unfolding reached_def by blast
    from crash_step [OF step(2) runSetup_pool [OF set] reached_inv [OF this] step(3)] show ?case .
  qed
  with assms(2) show ?thesis by blast
qed

text \<open>
  C30: A running consumer is ended by a panic only if processing a message can panic (a handler or the
  OnDLQ callback does), the client answers \<open>ReceiveMessage\<close> with neither an output nor an error, or
  the pool of a per-group route is a multiple of 2^32. In particular receive errors never end it.
\<close>

theorem consumer_crashes_only:
  assumes "reached co d c parse s" and "rsPhase s = Crashed p"
  shows "(\<exists>st st'. process d c st = (Panic p, st')) \<or>
     (p = nilDeref \<and> (\<exists>t. receiveMessage (coClient co) t = Inr None)) \<or>
     (dMode d = PerGroupID \<and> sint (dWorkerPoolSize d) mod 2 ^ 32 = 0)"
  using reached_crash_cause [OF assms] by (simp add: crashCause_def)

section \<open>Constructing and starting a consumer\<close>

interpretation co: validated_options applyConsumer "\<lambda>c. 0 < sint (coRetryTimeout c) \<and> coClient c = cl \<and> coRoute c = rt"
  for cl rt
proof
  fix c opt c'
  assume "0 < sint (coRetryTimeout c) \<and> coClient c = cl \<and> coRoute c = rt" "applyConsumer opt c = Inr c'"
  then show "0 < sint (coRetryTimeout c') \<and> coClient c' = cl \<and> coRoute c' = rt"
    by (cases opt) (auto simp: go_sint split: if_splits option.splits)
qed

lemma applyConsumer_refuses:
  "(\<exists>e. applyOptions applyConsumer opts c = Inl e) \<longleftrightarrow> (\<exists>dur. Some (WithRetryTimeout dur) \<in> set opts \<and> sint dur \<le> 0)"
proof (induction opts arbitrary: c)
  case (Cons x opts)
  show ?case
  proof (cases x)
    case None
    with Cons show ?thesis by auto
  next
    case (Some opt)
    with Cons show ?thesis by (cases opt) (auto simp: go_sint split: sum.splits)
  qed
qed simp

text \<open>
  \<open>New\<close> returns only usable consumers. A nil client and a nil route are refused with their
  sentinels, the client first; otherwise it fails exactly when some option asks for a retry timeout
  that is not positive, with an error matching \<open>ErrInvalidOption\<close>, and a consumer it returns has the
  given client and route and a positive retry timeout, whatever the options and their order.
\<close>

theorem new_consumer_well_formed:
  "NewConsumer None r opts = Inl (Sentinel ErrNoSQSClient) \<and>
   NewConsumer (Some cl) None opts = Inl (Sentinel ErrNoRoute) \<and>
   (case NewConsumer (Some cl) (Some rt) opts of
      Inl e \<Rightarrow> errIs e ErrInvalidOption \<and> (\<exists>dur. Some (WithRetryTimeout dur) \<in> set opts \<and> sint dur \<le> 0)
    | Inr c \<Rightarrow> (\<nexists>dur. Some (WithRetryTimeout dur) \<in> set opts \<and> sint dur \<le> 0) \<and>
        0 < sint (coRetryTimeout c) \<and> coClient c = cl \<and> coRoute c = rt)"
proof (cases "NewConsumer (Some cl) (Some rt) opts")
  case (Inl e)
  let ?c0 = "\<lparr>coClient = cl, coRoute = rt, coLog = NewNoOp, coMetrics = None, coScheduler = None,
          coGlobals = [], coRetryTimeout = defaultRetryTimeout\<rparr>"
  have fail: "applyOptions applyConsumer opts ?c0 = Inl e" using Inl by (simp add: NewConsumer_def)
  with applyConsumer_refuses [of opts ?c0] applyOptions_error [OF fail] Inl show ?thesis
    by (auto simp: NewConsumer_def)
next
  case (Inr c)
  let ?c0 = "\<lparr>coClient = cl, coRoute = rt, coLog = NewNoOp, coMetrics = None, coScheduler = None,
          coGlobals = [], coRetryTimeout = defaultRetryTimeout\<rparr>"
  have ok: "applyOptions applyConsumer opts ?c0 = Inr c" using Inr by (simp add: NewConsumer_def)
  have "0 < sint (coRetryTimeout ?c0)" by (simp add: defaultRetryTimeout_def second_def)
  with co.options_inv [OF _ ok, of cl rt] have "0 < sint (coRetryTimeout c) \<and> coClient c = cl \<and> coRoute c = rt"
    by simp
  with applyConsumer_refuses [of opts ?c0] ok Inr show ?thesis by (auto simp: NewConsumer_def)
qed

text \<open>
  \<open>Run\<close> checks before it starts, in this order: a Scheduled-model route without a scheduler client,
  batched deletes on a client that cannot do them, then the queue URL. Only the last makes a call, and
  only when all hold is a dispatcher made, for the resolved URL, with the global middlewares outside
  the route's, batched exactly when the route asks for it, and with the visibility manager of its model.
\<close>

theorem run_checks_in_order:
  "if retryModel (coRoute co) = ScheduledRetryModel \<and> coScheduler co = None
   then runSetup co rd now rnd t = (Inl (Sentinel ErrNoSchedulerClient), t)
   else if deleteBatch (coRoute co) \<and> deleteMessageBatch (coClient co) = None
   then runSetup co rd now rnd t = (Inl (Sentinel ErrDeleteBatchUnsupported), t)
   else snd (runSetup co rd now rnd t) = t @ [CallGetQueueUrl (queueName (coRoute co))] \<and>
     (case getQueueUrl (coClient co) (t @ [CallGetQueueUrl (queueName (coRoute co))]) of
        Inr (Some (Some url)) \<Rightarrow> (\<exists>d. fst (runSetup co rd now rnd t) = Inr d \<and> dQueueURL d = url \<and>
          dHandler d = Chain (coGlobals co @ middlewares (coRoute co)) (route.handler (coRoute co)) \<and>
          dBatcher d = deleteBatch (coRoute co) \<and> dMetrics d = coMetrics co \<and>
          vmScheduled (dVisibility d) = (retryModel (coRoute co) = ScheduledRetryModel))
      | _ \<Rightarrow> (\<exists>e. fst (runSetup co rd now rnd t) = Inl e \<and> errIs e ErrQueueResolve))"
proof -
  have vis: "dVisibility (newDispatcher cl r url vm sc rd now rnd gs) = vm"
    "dQueueURL (newDispatcher cl r url vm sc rd now rnd gs) = url" for cl r url vm sc gs
    by (simp_all add: newDispatcher_def Let_def split: option.split)
  have vms: "vmScheduled (newScheduledVisibilityManager cl url to lim)" "\<not> vmScheduled (newVisibilityManager cl url to lim)"
    for cl url to lim by (simp_all add: newScheduledVisibilityManager_def newVisibilityManager_def)
  have batch: "batchDeleteClient co = (if deleteBatch (coRoute co) \<and> deleteMessageBatch (coClient co) = None
      then Inl (Sentinel ErrDeleteBatchUnsupported) else Inr (deleteBatch (coRoute co)))"
    by (simp add: batchDeleteClient_def)
  show ?thesis
    by (simp add: runSetup_def batch Let_def resolveQueueURL_def newDispatcher_simps(2) vis vms split: sum.split option.split)
qed

section \<open>Example runs\<close>

text \<open>
  A per-group route with one worker whose handler fails, on a client that answers every receive with
  the given output.
\<close>

definition groupRoute :: route where
  "groupRoute = (defaultRoute ''q'' (\<lambda>c s. (HRet (Some (External ''boom'')), s)))
     \<lparr>runMode := PerGroupID, workerPoolSize := 1\<rparr>"

definition exampleConsumer :: "sqs_message list option \<Rightarrow> consumer" where
  "exampleConsumer out = \<lparr>coClient = quietClient\<lparr>receiveMessage := \<lambda>t. Inr out, getQueueUrl := \<lambda>t. Inr (Some (Some ''u''))\<rparr>,
     coRoute = groupRoute, coLog = NewNoOp, coMetrics = None, coScheduler = None, coGlobals = [],
     coRetryTimeout = second\<rparr>"

definition groupDispatcher :: "sqs_message list option \<Rightarrow> dispatcher" where
  "groupDispatcher out = (newDispatcher (coClient (exampleConsumer out)) groupRoute ''u''
     (newVisibilityManager (coClient (exampleConsumer out)) ''u'' (visibilityTimeout groupRoute) (extensionLimit groupRoute))
     None (\<lambda>t. Inr (replicate 16 0)) (\<lambda>t. 0) (\<lambda>n. Return 0) [])\<lparr>dMetrics := None, dBatcher := False\<rparr>"

lemma exampleSetup:
  "runSetup (exampleConsumer out) (\<lambda>t. Inr (replicate 16 0)) (\<lambda>t. 0) (\<lambda>n. Return 0) [] =
     (Inr (groupDispatcher out), [CallGetQueueUrl ''q''])"
  by (simp add: runSetup_def exampleConsumer_def batchDeleteClient_def resolveQueueURL_def Let_def
      groupDispatcher_def groupRoute_def defaultRoute_def route_consts)

lemma groupDispatcher_simps:
  "dMode (groupDispatcher out) = PerGroupID" "dRetryModel (groupDispatcher out) = VisibilityRetryModel"
  "dWorkerPoolSize (groupDispatcher out) = 1" "dDlq (groupDispatcher out) = None"
  "dHandler (groupDispatcher out) = (\<lambda>c s. (HRet (Some (External ''boom'')), s))"
  "orderedGroups (groupDispatcher out)" "poolSize (groupDispatcher out) = 1"
  "0 < nat (sint (dBufferSize (groupDispatcher out)))"
  by (simp_all add: groupDispatcher_def groupRoute_def newDispatcher_def defaultRoute_def route_consts
      orderedGroups_def poolSize_def Let_def split: option.split)

definition exampleCtx :: ctx where "exampleCtx = \<lparr>spanCtx = None\<rparr>"

abbreviation exampleReached :: "sqs_message list option \<Rightarrow> run_state \<Rightarrow> bool" where
  "exampleReached out \<equiv> reached (exampleConsumer out) (groupDispatcher out) exampleCtx (\<lambda>b. zero_envelope)"

definition exampleStart :: "sqs_message list option \<Rightarrow> bool \<Rightarrow> run_state" where
  "exampleStart out cancelled = startRun (groupDispatcher out) cancelled [CallGetQueueUrl ''q'']"

lemma example_started: "exampleReached out (exampleStart out cancelled)"
  unfolding reached_def exampleStart_def using exampleSetup by blast

lemma shutdown_is_graceful_witness:
  "\<nexists>f. f 0 = exampleStart None True \<and>
     (\<forall>k. run_step (exampleConsumer None) (groupDispatcher None) exampleCtx (\<lambda>b. zero_envelope) (f k) (f (Suc k)))"
  using shutdown_is_graceful [OF example_started [of None True]] by (simp add: exampleStart_def startRun_def)

lemma reached_next:
  "reached co d c parse s \<Longrightarrow> run_step co d c parse s s' \<Longrightarrow> reached co d c parse s'"
  using reached_step by blast

lemma example_received:
  "\<exists>s. exampleReached out s \<and> rsPhase s = Receiving \<and> poChannels (rsPool s) = poChannels (startPool (groupDispatcher out) []) \<and>
     poWorkers (rsPool s) = [Idle] \<and> poBarriers (rsPool s) = (\<lambda>a. None) \<and> poSent (rsPool s) = [] \<and> poDone (rsPool s) = []"
proof -
  let ?s = "exampleStart out False"
  have "rsPhase ?s = Polling" "\<not> rsCancelled ?s" by (simp_all add: exampleStart_def startRun_def)
  note r = reached_next [OF example_started run_step.receive [OF this]]
  show ?thesis
    by (rule exI, rule conjI [OF r])
      (simp add: exampleStart_def startRun_def recordIn_def startPool_def groupDispatcher_simps)
qed

lemma example_crash: "\<exists>s. exampleReached None s \<and> rsPhase s = Crashed nilDeref"
proof -
  from example_received [of None] obtain s where s: "exampleReached None s" "rsPhase s = Receiving" by blast
  have "receiveMessage (coClient (exampleConsumer None)) (poTrace (rsPool s)) = Inr None"
    by (simp add: exampleConsumer_def)
  from reached_next [OF s(1) run_step.nil_output [OF s(2) this]] show ?thesis by force
qed

lemma consumer_crashes_only_witness:
  "(\<exists>st st'. process (groupDispatcher None) exampleCtx st = (Panic nilDeref, st')) \<or>
   (\<exists>t. receiveMessage (coClient (exampleConsumer None)) t = Inr None) \<or>
   sint (dWorkerPoolSize (groupDispatcher None)) mod 2 ^ 32 = 0"
proof -
  from example_crash obtain s where "exampleReached None s" "rsPhase s = Crashed nilDeref" by blast
  from consumer_crashes_only [OF this] show ?thesis by blast
qed

text \<open>A batch of one message: received, dispatched, taken and processed; its handler fails.\<close>

abbreviation oneMessage :: "sqs_message list option" where
  "oneMessage \<equiv> Some [original example_message]"

definition exampleKeyed :: message where
  "exampleKeyed = (newMessage (\<lambda>b. zero_envelope) (original example_message))\<lparr>barrier := Some 0,
     groupKey := msgGroupKey (groupDispatcher oneMessage) ((newMessage (\<lambda>b. zero_envelope) (original example_message))\<lparr>barrier := Some 0\<rparr>)\<rparr>"

lemma barrier_exampleKeyed: "barrier exampleKeyed = Some 0"
  by (simp add: exampleKeyed_def)

lemma example_index:
  "workerIndex ((groupDispatcher out)\<lparr>dRandIntN := rnd\<rparr>) m =
     (Return 0, m\<lparr>groupKey := msgGroupKey (groupDispatcher out) m\<rparr>)"
proof -
  have "(x :: 32 word) mod 1 = 0" for x by (simp add: word_mod_def)
  then show ?thesis
    by (simp add: workerIndex_def Let_def groupDispatcher_simps groupIndex_def)
qed

lemma example_dispatched:
  "\<exists>s ch. exampleReached oneMessage s \<and> rsPhase s = Delivering [] \<and> poWorkers (rsPool s) = [Idle] \<and>
     poChannels (rsPool s) = [ch] \<and> recv ch = Received exampleKeyed (ch\<lparr>buf := []\<rparr>) \<and>
     poBarriers (rsPool s) 0 = newGroupBarrier \<and> poDone (rsPool s) = []"
proof -
  from example_received [of oneMessage] obtain s where s: "exampleReached oneMessage s" "rsPhase s = Receiving"
    "poChannels (rsPool s) = poChannels (startPool (groupDispatcher oneMessage) [])" "poWorkers (rsPool s) = [Idle]"
    "poBarriers (rsPool s) = (\<lambda>a. None)" "poDone (rsPool s) = []" by blast
  let ?d = "groupDispatcher oneMessage"
  have bar: "newBatchBarrier ?d = Some {}"
    by (simp add: newBatchBarrier_def groupDispatcher_simps newGroupBarrier_def)
  have ans: "receiveMessage (coClient (exampleConsumer oneMessage)) (poTrace (rsPool s)) = Inr oneMessage"
    by (simp add: exampleConsumer_def)
  have "poBarriers (rsPool s) 0 = None" using s(5) by simp
  note r = reached_next [OF s(1) run_step.grouped_batch [OF s(2) ans bar this]]
  define m where "m = (newMessage (\<lambda>b. zero_envelope) (original example_message))\<lparr>barrier := Some 0\<rparr>"
  define s2 where "s2 = s\<lparr>rsPhase := Delivering [m],
      rsPool := (rsPool s)\<lparr>poBarriers := (poBarriers (rsPool s))(0 := newBatchBarrier ?d)\<rparr>\<rparr>"
  have r2: "exampleReached oneMessage s2" using r by (simp add: s2_def m_def deliveries_def)
  define ch where "ch = \<lparr>buf = [exampleKeyed], cap = nat (sint (dBufferSize ?d)), closed = False\<rparr>"
  have enq: "enqueue 0 exampleKeyed (rsPool s2) =
      Enqueued ((rsPool s2)\<lparr>poChannels := [ch], poSent := poSent (rsPool s2) @ [(0, exampleKeyed)]\<rparr>)"
    using s(3) groupDispatcher_simps(7,8) [of oneMessage]
    by (simp add: enqueue_def channelAt_def s2_def startPool_def send_def make_chan_def ch_def)
  have idx: "workerIndex (?d\<lparr>dRandIntN := \<lambda>n. Return 0\<rparr>) m = (Return 0, exampleKeyed)"
    by (simp add: example_index m_def exampleKeyed_def)
  have "rsPhase s2 = Delivering [m]" by (simp add: s2_def)
  note r3 = reached_next [OF r2 run_step.deliver [OF this legalRand_exists idx enq]]
  show ?thesis
    by (rule exI, rule exI [of _ ch], rule conjI [OF r3])
      (simp add: s2_def s(4,6) bar newGroupBarrier_def ch_def recv_def)
qed

lemma example_process: "\<exists>st'. process (groupDispatcher out) exampleCtx st = (Return (), st')"
proof -
  obtain r st' where p: "process (groupDispatcher out) exampleCtx st = (r, st')" by force
  show ?thesis
  proof (cases r)
    case (Panic x)
    have "dRetryModel (groupDispatcher out) \<noteq> ScheduledRetryModel"
      by (simp add: groupDispatcher_simps route_consts)
    with process_panics_from [OF p [unfolded Panic]] groupDispatcher_simps(4) [of out]
    have "\<exists>st1. handled (groupDispatcher out) exampleCtx st = (HPanic x, st1)" by simp
    then show ?thesis by (simp add: invoke_def groupDispatcher_simps)
  next
    case (Return u)
    with p show ?thesis by simp
  qed
qed

lemma example_failed:
  "\<exists>s. exampleReached oneMessage s \<and> groupVerdicts (rsPool s) 0 (groupKey exampleKeyed) = [Failed]"
proof -
  let ?d = "groupDispatcher oneMessage"
  from example_dispatched obtain s ch where s: "exampleReached oneMessage s" "rsPhase s = Delivering []"
    "poWorkers (rsPool s) = [Idle]" "poChannels (rsPool s) = [ch]" "recv ch = Received exampleKeyed (ch\<lparr>buf := []\<rparr>)"
    "poBarriers (rsPool s) 0 = newGroupBarrier" "poDone (rsPool s) = []" by blast
  have take: "pool_step ?d exampleCtx (rsPool s) ((rsPool s)\<lparr>poChannels := (poChannels (rsPool s))[0 := ch\<lparr>buf := []\<rparr>],
      poWorkers := (poWorkers (rsPool s))[0 := Working exampleKeyed]\<rparr>)" (is "pool_step _ _ _ ?p1")
    using s by (intro pool_step.take) simp_all
  have "running (rsPhase s)" using s(2) by (simp add: running_def)
  note r1 = reached_next [OF s(1) run_step.work [OF this take]]
  let ?st = "processState exampleKeyed ?p1"
  have nh: "\<not> held ?d ?st"
    by (simp add: held_def processState_def barrierOf_def exampleKeyed_def s(6))
  have v: "verdictOf ?d exampleCtx ?st = Failed"
    using nh by (simp add: verdictOf_def invoke_def groupDispatcher_simps)
  obtain st where st: "process ?d exampleCtx ?st = (Return (), st)"
    using example_process by blast
  have "running (rsPhase (s\<lparr>rsPool := ?p1\<rparr>))" using s(2) by (simp add: running_def)
  moreover have "pool_step ?d exampleCtx (rsPool (s\<lparr>rsPool := ?p1\<rparr>)) (?p1\<lparr>poWorkers := (poWorkers ?p1)[0 := Idle],
      poBarriers := pBarriers st, poTrace := pTrace st, poDone := poDone ?p1 @ [(0, exampleKeyed, verdictOf ?d exampleCtx ?st)]\<rparr>)"
    using pool_step.work [OF _ _ st, of 0] s(3) by simp
  ultimately have r2: "exampleReached oneMessage ((s\<lparr>rsPool := ?p1\<rparr>)\<lparr>rsPool := ?p1\<lparr>poWorkers := (poWorkers ?p1)[0 := Idle],
      poBarriers := pBarriers st, poTrace := pTrace st, poDone := poDone ?p1 @ [(0, exampleKeyed, verdictOf ?d exampleCtx ?st)]\<rparr>\<rparr>)"
    by (intro reached_next [OF r1] run_step.work)
  show ?thesis
    by (rule exI, rule conjI [OF r2])
      (simp add: groupVerdicts_def groupDone_def s(7) v inGroup_def barrier_exampleKeyed)
qed

lemma group_order_survives_concurrency_witness:
  "\<exists>s n h. exampleReached oneMessage s \<and> groupVerdicts (rsPool s) 0 (groupKey exampleKeyed) =
     replicate n Committed @ Failed # replicate h Held \<and> commits (poTrace (rsPool s)) = committed (rsPool s) \<and>
     (\<exists>rest. keySent (rsPool s) (groupKey exampleKeyed) =
        map (fst \<circ> snd) (keyDone (rsPool s) (groupKey exampleKeyed)) @ rest)"
proof -
  from example_failed obtain s where s: "exampleReached oneMessage s"
    "groupVerdicts (rsPool s) 0 (groupKey exampleKeyed) = [Failed]" by blast
  have ord: "orderedGroups (groupDispatcher oneMessage)" by (rule groupDispatcher_simps)
  have pol: "polite (dHandler (groupDispatcher oneMessage))" by (simp add: polite_def groupDispatcher_simps)
  note order = group_order_survives_concurrency [OF s(1) groupDispatcher_simps(1), of "groupKey exampleKeyed" 0]
  from order [THEN conjunct2, THEN conjunct2, THEN mp, OF conjI [OF ord pol], THEN conjunct2, THEN conjunct2]
  have c: "commits (poTrace (rsPool s)) = committed (rsPool s)" .
  have "groupVerdicts (rsPool s) 0 (groupKey exampleKeyed) = replicate 0 Committed @ Failed # replicate 0 Held"
    using s(2) by simp
  with s(1) c order [THEN conjunct2, THEN conjunct1] show ?thesis by blast
qed

end
