(* ===== verification/Service.thy ===== *)
theory Service
  imports Consumer Delete_Batcher
begin

text \<open>
  A consumer with batched deletes: the run of \<open>Consumer\<close> and the senders of \<open>Delete_Batcher\<close> as
  one program (\<open>src/consumer/consumer.go\<close>, \<open>Run\<close>; \<open>dispatch.go\<close>, \<open>deleteMessage\<close> and \<open>stop\<close>).

  A worker that commits hands the receipt handle to the channel of the senders in the same step, so it
  cannot go on while the channel is full. \<open>stop\<close> waits for the workers, then closes the batcher and waits for
  its senders, and only then \<open>Run\<close> returns.
\<close>

section \<open>The program\<close>

text \<open>The handles given to the batcher, in order.\<close>

fun enqueued :: "trace \<Rightarrow> string list" where
  "enqueued [] = []"
| "enqueued (EnqueueDelete h # es) = h # enqueued es"
| "enqueued (e # es) = enqueued es"

fun handOver :: "string list \<Rightarrow> deleteBatcher \<Rightarrow> deleteBatcher option" where
  "handOver [] b = Some b"
| "handOver (h # hs) b = (case send h (bHandles b) of
     Sent ch \<Rightarrow> handOver hs (b\<lparr>bHandles := ch, bAccepted := bAccepted b @ [h]\<rparr>)
   | _ \<Rightarrow> None)"

definition allGone :: "run_state \<Rightarrow> bool" where
  "allGone s \<longleftrightarrow> set (poWorkers (rsPool s)) \<subseteq> {Gone}"

definition deleteClient :: "consumer \<Rightarrow> trace \<Rightarrow> err + batch_failure list option" where
  "deleteClient co = the (deleteMessageBatch (coClient co))"

inductive service_step :: "consumer \<Rightarrow> dispatcher \<Rightarrow> ctx \<Rightarrow> (string \<Rightarrow> sns_envelope) \<Rightarrow>
    run_state \<times> deleteBatcher \<Rightarrow> run_state \<times> deleteBatcher \<Rightarrow> bool" for co d c parse where
  consume: "run_step co d c parse s s' \<Longrightarrow> rsPhase s' \<noteq> Finished \<Longrightarrow>
    enqueued (poTrace (rsPool s')) = enqueued (poTrace (rsPool s)) @ hs \<Longrightarrow> handOver hs b = Some b' \<Longrightarrow>
    service_step co d c parse (s, b) (s', b')"
| senders: "running (rsPhase s) \<Longrightarrow> batch_step (deleteClient co) (dQueueURL d) b b' \<Longrightarrow>
    bAccepted b' = bAccepted b \<Longrightarrow> closed (bHandles b') = closed (bHandles b) \<Longrightarrow>
    service_step co d c parse (s, b) (s, b')"
| close_batcher: "rsPhase s = Closing \<Longrightarrow> allGone s \<Longrightarrow> close_chan (bHandles b) = Return ch \<Longrightarrow>
    service_step co d c parse (s, b) (s, b\<lparr>bHandles := ch\<rparr>)"
| return_run: "rsPhase s = Closing \<Longrightarrow> allGone s \<Longrightarrow> closed (bHandles b) \<Longrightarrow> set (bSenders b) \<subseteq> {Exited} \<Longrightarrow>
    service_step co d c parse (s, b) (s\<lparr>rsPhase := Finished\<rparr>, b)"

text \<open>The channel of the batcher, made for every message the workers can hold queued.\<close>

definition batchCapacity :: "dispatcher \<Rightarrow> nat" where
  "batchCapacity d = nat (sint (dWorkerPoolSize d * dBufferSize d))"

text \<open>
  The states of a batched run. A channel without a buffer hands over in a rendezvous, which the
  channels of this development do not have; the product of the two sizes is positive unless it wraps.
\<close>

definition served :: "consumer \<Rightarrow> dispatcher \<Rightarrow> ctx \<Rightarrow> (string \<Rightarrow> sns_envelope) \<Rightarrow> run_state \<times> deleteBatcher \<Rightarrow> bool" where
  "served co d c parse sb \<longleftrightarrow> dBatcher d \<and> 0 < batchCapacity d \<and>
     (\<exists>rd now rnd cancelled t. runSetup co rd now rnd [] = (Inr d, t) \<and>
       (service_step co d c parse)\<^sup>*\<^sup>* (startRun d cancelled t, startBatcher (batchCapacity d) (poolSize d) []) sb)"

section \<open>What a message hands over\<close>

lemma enqueued_append [simp]: "enqueued (s @ t) = enqueued s @ enqueued t"
  by (induction s rule: enqueued.induct) simp_all

lemma enqueued_outcomes: "enqueued (outcomes t) = enqueued t"
  by (induction t rule: enqueued.induct) simp_all

lemma enqueued_of_outcomes: "outcomes t' = outcomes t @ es \<Longrightarrow> enqueued t' = enqueued t @ enqueued es"
  by (metis enqueued_append enqueued_outcomes)

lemma commit_event_batched: "dBatcher d \<Longrightarrow> commitEvent d m = EnqueueDelete (Identifier m)"
  by (simp add: commitEvent_def)

text \<open>The configuration of a Scheduled-model dispatcher is complete or absent.\<close>

definition wired :: "dispatcher \<Rightarrow> bool" where
  "wired d \<longleftrightarrow> (dScheduledRetry d \<noteq> None \<longrightarrow> dRetryScheduler d \<noteq> None \<and> dDlqPublisher d \<noteq> None)"

lemma runSetup_wired:
  assumes "runSetup co rd now rnd t = (Inr d, t')"
  shows "wired d"
proof -
  have "wired (newDispatcher cl r url vm sc rd now rnd gs)" for cl r url vm sc gs
    by (auto simp: wired_def newDispatcher_def Let_def split: option.split)
  moreover have "wired (d\<lparr>dMetrics := m, dBatcher := b\<rparr>) = wired d" for d m b by (simp add: wired_def)
  ultimately show ?thesis
    using assms by (auto simp: runSetup_def Let_def split: if_splits sum.splits prod.splits)
qed

text \<open>Processing a message hands over what it commits, at most its own handle.\<close>

lemma process_hands_over:
  assumes pol: "polite (dHandler d)" and b: "dBatcher d" and w: "wired d"
    and run: "process d c st = (Return (), st')"
  shows "\<exists>hs. enqueued (pTrace st') = enqueued (pTrace st) @ hs \<and> commits (pTrace st') = commits (pTrace st) @ hs \<and>
    (hs = [] \<or> hs = [Identifier (pMsg st)])"
proof -
  note ev = commit_event_batched [OF b]
  have new: ?thesis if "outcomes (pTrace st') = outcomes (pTrace st) @ es" "enqueued es = commits es"
    "commits es = [] \<or> commits es = [Identifier (pMsg st)]" for es
    using enqueued_of_outcomes [OF that(1)] commits_of_outcomes [OF that(1)] that(2,3) by auto
  obtain r st1 where h: "handled d c st = (r, st1)" by force
  show ?thesis
  proof (cases "dRetryModel d = ScheduledRetryModel")
    case False
    note step = visibility_step [OF False pol h run]
    show ?thesis
    proof (cases "held d st")
      case True
      with step obtain x ys where "pTrace st' = pTrace st @ [Log LevelWarn x ys]" by blast
      then show ?thesis by (intro new [of "[]"]) simp_all
    next
      case nh: False
      have "\<exists>es. outcomes (pTrace st') = outcomes (pTrace st) @ es \<and>
          (es = [] \<or> es = [EnqueueDelete (Identifier (pMsg st))] \<or> es = [CallOnDLQ (Identifier (pMsg st))])"
        using step nh ev by (auto split: hresult.splits option.splits if_splits)
      then show ?thesis using new by fastforce
    qed
  next
    case sch: True
    have nh: "\<not> held d st" using sch by (simp add: held_def orderedGroups_def route_consts)
    note run' = run [unfolded process_handled [OF nh] h]
    obtain err where r: "r = HRet err" using run' by (cases r) auto
    show ?thesis
    proof (cases "dScheduledRetry d")
      case None
      have ps: "processScheduled d err st1 = (Return (), st')" using run' r sch by simp
      with None have succ: "err = None \<and> \<not> BackedOff (pMsg st1)"
        by (auto simp: processScheduled_def Let_def BackedOff_def split: prod.splits if_splits)
      from processScheduled_success [of d st1] ps succ
      have "outcomes (pTrace st') = outcomes (pTrace st1) @ [commitEvent d (pMsg st1)]" by simp
      moreover have "outcomes (pTrace st1) = outcomes (pTrace st)" using invoke_polite [OF h pol] by simp
      moreover have "Identifier (pMsg st1) = Identifier (pMsg st)" using invoke_simps(2) [OF h] by simp
      ultimately show ?thesis using ev by (intro new [of "[EnqueueDelete (Identifier (pMsg st))]"]) simp_all
    next
      case (Some cfg)
      with w obtain rs p where "dRetryScheduler d = Some rs" "dDlqPublisher d = Some p" by (auto simp: wired_def)
      from scheduled_step [OF sch pol Some this h run] r ev obtain es where
        "outcomes (pTrace st') = outcomes (pTrace st) @ es"
        "es \<in> {[], [EnqueueDelete (Identifier (pMsg st))]} \<or>
         (\<exists>i. es \<in> {[CallSchedule i], [CallSchedule i, EnqueueDelete (Identifier (pMsg st))]}) \<or>
         (\<exists>i. es \<in> {[CallSend i], [CallSend i, EnqueueDelete (Identifier (pMsg st))]})"
        by (auto split: if_splits)
      then show ?thesis using new by fastforce
    qed
  qed
qed

lemma pool_step_hands_over:
  assumes pol: "polite (dHandler d)" and b: "dBatcher d" and w: "wired d" and step: "pool_step d c p p'"
  shows "\<exists>hs. enqueued (poTrace p') = enqueued (poTrace p) @ hs \<and> commits (poTrace p') = commits (poTrace p) @ hs \<and> length hs \<le> 1"
  using step
proof cases
  case (work i msg st)
  from process_hands_over [OF pol b w work(4)] work(1) show ?thesis
    by (auto simp: processState_def)
qed simp_all

lemma run_hands_over:
  assumes pol: "polite (dHandler d)" and b: "dBatcher d" and w: "wired d" and step: "run_step co d c parse s s'"
  shows "\<exists>hs. enqueued (poTrace (rsPool s')) = enqueued (poTrace (rsPool s)) @ hs \<and>
    commits (poTrace (rsPool s')) = commits (poTrace (rsPool s)) @ hs \<and> length hs \<le> 1"
  using step
proof cases
  case (work pool')
  with pool_step_hands_over [OF pol b w work(3)] show ?thesis by simp
next
  case (deliver m ms rnd wk m' pool')
  with enqueue_keeps [OF deliver(5)] show ?thesis by simp
qed (simp_all add: recordIn_def)

section \<open>Invariants\<close>

lemma handOver_steps:
  "handOver hs b = Some b' \<Longrightarrow> (batch_step client url)\<^sup>*\<^sup>* b b' \<and> bAccepted b' = bAccepted b @ hs \<and>
     closed (bHandles b') = closed (bHandles b)"
proof (induction hs b arbitrary: b' rule: handOver.induct)
  case (2 h hs b)
  then obtain ch where ch: "send h (bHandles b) = Sent ch"
    and rest: "handOver hs (b\<lparr>bHandles := ch, bAccepted := bAccepted b @ [h]\<rparr>) = Some b'"
    by (auto split: sent.splits)
  have "closed ch = closed (bHandles b)" using ch by (auto simp: send_def split: if_splits)
  with 2(1) [OF ch rest] batch_step.enqueue [OF ch, of client url] show ?case
    by (auto intro: converse_rtranclp_into_rtranclp)
qed simp

lemma batch_steps_inv:
  assumes "(batch_step client url)\<^sup>*\<^sup>* b b'" and "batch_inv t b" and "exit_inv n b"
  shows "batch_inv t b' \<and> exit_inv n b'"
  using assms(1)
proof (induction rule: rtranclp_induct)
  case (step b1 b2)
  moreover from this have "chan_ok (bHandles b1)" by (simp add: batch_inv_def)
  ultimately show ?case using batch_inv_step exit_inv_step by metis
qed (use assms in simp)

text \<open>
  The two halves keep their invariants, what was handed over is what the batcher accepted, and the batcher
  is closed only behind the last worker.
\<close>

definition service_inv :: "consumer \<Rightarrow> dispatcher \<Rightarrow> ctx \<Rightarrow> (string \<Rightarrow> sns_envelope) \<Rightarrow> run_state \<times> deleteBatcher \<Rightarrow> bool" where
  "service_inv co d c parse sb \<longleftrightarrow> (case sb of (s, b) \<Rightarrow>
     reached co d c parse s \<and> batch_inv [] b \<and> exit_inv (poolSize d) b \<and>
     bAccepted b = enqueued (poTrace (rsPool s)) \<and>
     (closed (bHandles b) \<longrightarrow> allGone s \<and> rsPhase s \<in> {Closing, Finished}) \<and>
     (rsPhase s = Finished \<longrightarrow> closed (bHandles b) \<and> set (bSenders b) \<subseteq> {Exited}))"

lemma gone_step:
  assumes "run_step co d c parse s s'" and "allGone s" and "rsPhase s \<in> {Closing, Finished}" and "rsPhase s' \<noteq> Finished \<or> rsPhase s = Finished"
  shows "allGone s' \<and> rsPhase s' = rsPhase s \<and> poTrace (rsPool s') = poTrace (rsPool s)"
  using assms
proof (induction rule: run_step.induct)
  case (work s pool')
  have "poWorkers (rsPool s) ! i = Gone" if "i < length (poWorkers (rsPool s))" for i
    using work(3) nth_mem [OF that] by (auto simp: allGone_def)
  with work(2) show ?case by (auto elim!: pool_step.cases)
next
  case (panic s i msg p st)
  have "poWorkers (rsPool s) ! i = Gone" using panic(5) nth_mem [OF panic(2)] by (auto simp: allGone_def)
  with panic show ?case by simp
qed (auto simp: allGone_def)

lemma service_inv_step:
  assumes "service_step co d c parse sb sb'" and "service_inv co d c parse sb"
  shows "service_inv co d c parse sb'"
  using assms
proof (induction rule: service_step.induct)
  case (consume s s' hs b b')
  note inv = consume(5) [unfolded service_inv_def prod.case]
  note ho = handOver_steps [OF consume(4), of "deleteClient co" "dQueueURL d"]
  have r: "reached co d c parse s'" using reached_next inv consume(1) by blast
  have acc: "bAccepted b' = enqueued (poTrace (rsPool s'))" using ho inv consume(3) by simp
  note bi = batch_steps_inv [OF ho [THEN conjunct1]]
  have cl: "allGone s' \<and> rsPhase s' \<in> {Closing, Finished}" if cb: "closed (bHandles b')"
  proof -
    have "closed (bHandles b)" using cb ho by simp
    with inv have "allGone s" "rsPhase s \<in> {Closing, Finished}" by blast+
    with gone_step [OF consume(1) this] consume(2) show ?thesis by simp
  qed
  show ?case unfolding service_inv_def prod.case using r acc bi inv cl consume(2) by blast
next
  case (senders s b b')
  then show ?case unfolding service_inv_def prod.case
    using batch_steps_inv [OF r_into_rtranclp [where r = "batch_step (deleteClient co) (dQueueURL d)", OF senders(2)]] by (auto simp: running_def)
next
  case (close_batcher s b ch)
  have "batch_step (deleteClient co) (dQueueURL d) b (b\<lparr>bHandles := ch\<rparr>)" by (rule batch_step.close) fact
  note bi = batch_steps_inv [OF r_into_rtranclp [where r = "batch_step (deleteClient co) (dQueueURL d)", OF this]]
  with close_batcher show ?case unfolding service_inv_def prod.case by auto
next
  case (return_run s b)
  have "run_step co d c parse s (s\<lparr>rsPhase := Finished\<rparr>)"
    using return_run(1,2) by (intro run_step.finish) (simp_all add: allGone_def)
  with return_run show ?case unfolding service_inv_def prod.case
    using reached_next by (auto simp: allGone_def)
qed

lemma batch_step_cap:
  "batch_step client url b b' \<Longrightarrow> chan_ok (bHandles b) \<Longrightarrow> cap (bHandles b') = cap (bHandles b)"
  by (induction rule: batch_step.induct)
    (auto simp: send_def recv_def close_chan_def split: if_splits list.splits)

lemma handOver_cap: "handOver hs b = Some b' \<Longrightarrow> cap (bHandles b') = cap (bHandles b)"
  by (induction hs b rule: handOver.induct) (auto simp: send_def split: sent.splits if_splits)

lemma served_inv:
  assumes "served co d c parse sb"
  shows "service_inv co d c parse sb \<and> wired d \<and> dBatcher d \<and> 0 < batchCapacity d \<and> 0 < poolSize d \<and>
    cap (bHandles (snd sb)) = batchCapacity d"
proof -
  from assms obtain rd now rnd cancelled t where set: "runSetup co rd now rnd [] = (Inr d, t)"
    and run: "(service_step co d c parse)\<^sup>*\<^sup>* (startRun d cancelled t, startBatcher (batchCapacity d) (poolSize d) []) sb"
    and b: "dBatcher d" "0 < batchCapacity d" by (auto simp: served_def)
  have pool: "0 < poolSize d" using runSetup_pool [OF set] by (simp add: poolSize_def)
  have "enqueued t = []" using runSetup_trace [OF set] by simp
  moreover have "reached co d c parse (startRun d cancelled t)" using set unfolding reached_def by blast
  ultimately have start: "service_inv co d c parse (startRun d cancelled t, startBatcher (batchCapacity d) (poolSize d) [])"
    using batch_inv_start [of "[]"] unfolding service_inv_def
    by (auto simp: exit_inv_def startBatcher_def startRun_def startPool_def make_chan_def)
  from run have "service_inv co d c parse sb \<and> cap (bHandles (snd sb)) = batchCapacity d"
  proof (induction rule: rtranclp_induct)
    case base
    show ?case using start by (simp add: startBatcher_def make_chan_def)
  next
    case (step x y)
    then have "service_inv co d c parse y" using service_inv_step by blast
    moreover have "cap (bHandles (snd y)) = cap (bHandles (snd x))" 
      using step(2,3)
      by (induction rule: service_step.induct)
        (auto simp: handOver_cap batch_step_cap service_inv_def batch_inv_def close_chan_def split: if_splits)
    ultimately show ?case using step by simp
  qed
  then show ?thesis using runSetup_wired [OF set] b pool by simp
qed

section \<open>Progress and termination\<close>

text \<open>With senders at work a full channel empties.\<close>

lemma sender_progress:
  assumes "batch_inv t b" and "exit_inv n b" and "0 < n" and "\<not> closed (bHandles b)" and "buf (bHandles b) \<noteq> []"
  shows "\<exists>b'. batch_step client url b b' \<and> bAccepted b' = bAccepted b \<and> closed (bHandles b') = closed (bHandles b)"
proof -
  have ok: "chan_ok (bHandles b)" using assms(1) by (simp add: batch_inv_def)
  from ch.recv_progress [OF ok assms(5)] obtain h c where recv: "recv (bHandles b) = Received h c" by blast
  note after = ch.recv_Received [OF ok recv]
  have i: "0 < length (bSenders b)" and none: "Exited \<notin> set (bSenders b)"
    using assms(2-4) by (auto simp: exit_inv_def)
  have ex: "bSenders b ! 0 \<noteq> Exited" using none nth_mem [OF i] by metis
  show ?thesis
  proof (cases "bSenders b ! 0")
    case Waiting
    with batch_step.first [OF i _ recv] after show ?thesis by fastforce
  next
    case (Draining batch)
    show ?thesis
    proof (cases "length batch < maxDeleteBatch")
      case True
      with batch_step.drain [OF i Draining _ recv] after show ?thesis by fastforce
    next
      case False
      with batch_step.drained [OF i Draining] show ?thesis by fastforce
    qed
  next
    case (Sending batch)
    with batch_step.request [OF i] show ?thesis by fastforce
  qed (use ex in simp)
qed

lemma closing_service_progress:
  assumes "served co d c parse (s, b)" and running: "running (rsPhase s)" and fin: "rsPhase s = Closing" "allGone s"
  shows "\<exists>sb'. service_step co d c parse (s, b) sb'"
proof -
  have ok: "chan_ok (bHandles b)"
    using served_inv [OF assms(1)] by (simp add: service_inv_def batch_inv_def)
  consider "\<not> closed (bHandles b)" | "closed (bHandles b)" "set (bSenders b) \<subseteq> {Exited}"
    | i where "closed (bHandles b)" "i < length (bSenders b)" "bSenders b ! i \<noteq> Exited"
    by (metis in_set_conv_nth singleton_iff subsetI)
  then show ?thesis
  proof cases
    case 1
    then have "close_chan (bHandles b) = Return ((bHandles b)\<lparr>closed := True\<rparr>)" by (simp add: close_chan_def)
    from service_step.close_batcher [OF fin this] show ?thesis by blast
  next
    case 2
    from service_step.return_run [OF fin 2] show ?thesis by blast
  next
    case 3
    from closed_progress [OF ok 3] obtain b' where "batch_step (deleteClient co) (dQueueURL d) b b'" by blast
    with closed_step [OF this ok 3(1)] 3(1) service_step.senders [OF running] show ?thesis by blast
  qed
qed

text \<open>A step of the run that hands a handle over, while the batcher is open: it goes into the channel, or a sender moves.\<close>

lemma handing_progress:
  assumes "served co d c parse (s, b)" and running: "running (rsPhase s)" and st: "run_step co d c parse s s'"
    and nf: "rsPhase s' \<noteq> Finished" and hs: "enqueued (poTrace (rsPool s')) = enqueued (poTrace (rsPool s)) @ [h]"
  shows "\<exists>sb'. service_step co d c parse (s, b) sb'"
proof -
  note inv = served_inv [OF assms(1), unfolded service_inv_def prod.case]
  have ok: "chan_ok (bHandles b)" using inv by (simp add: batch_inv_def)
  have si: "batch_inv [] b" "exit_inv (poolSize d) b" using inv by blast+
  have isOpen: "\<not> closed (bHandles b)"
  proof
    assume "closed (bHandles b)"
    then have "allGone s" "rsPhase s \<in> {Closing, Finished}" using inv by blast+
    from gone_step [OF st this] nf have "poTrace (rsPool s') = poTrace (rsPool s)" by blast
    with hs show False by simp
  qed
  show ?thesis
  proof (cases "send h (bHandles b)")
    case (Sent ch)
    then have "handOver [h] b = Some (b\<lparr>bHandles := ch, bAccepted := bAccepted b @ [h]\<rparr>)" by simp
    from service_step.consume [OF st nf hs this] show ?thesis by blast
  next
    case SendBlocks
    then have "buf (bHandles b) \<noteq> []"
      using inv by (auto simp: send_def split: if_splits)
    from sender_progress [OF si _ isOpen this] inv service_step.senders [OF running] show ?thesis by blast
  next
    case SendPanics
    then show ?thesis using isOpen ch.send_panics [OF ok] by blast
  qed
qed

lemma service_progress:
  assumes "served co d c parse (s, b)" and "rsCancelled s" and "running (rsPhase s)" and "polite (dHandler d)"
  shows "\<exists>sb'. service_step co d c parse (s, b) sb'"
proof -
  have si: "reached co d c parse s" "wired d" "dBatcher d"
    using served_inv [OF assms(1)] by (simp_all add: service_inv_def)
  from cancelled_progress [OF si(1) assms(2,3)] obtain s' where st: "run_step co d c parse s s'" by blast
  show ?thesis
  proof (cases "rsPhase s' = Finished")
    case True
    then have "rsPhase s = Closing" "allGone s"
      using st assms(3) by (auto simp: running_def allGone_def elim: run_step.cases)
    with closing_service_progress [OF assms(1,3)] show ?thesis .
  next
    case nf: False
    from run_hands_over [OF assms(4) si(3,2) st] obtain hs where
      hs: "enqueued (poTrace (rsPool s')) = enqueued (poTrace (rsPool s)) @ hs" "length hs \<le> 1" by blast
    show ?thesis
    proof (cases hs)
      case Nil
      with service_step.consume [OF st nf hs(1)] show ?thesis by fastforce
    next
      case (Cons h hs')
      with hs handing_progress [OF assms(1,3) st nf, of h] show ?thesis by simp
    qed
  qed
qed

definition serviceRank :: "run_state \<times> deleteBatcher \<Rightarrow> (nat \<times> nat \<times> nat) \<times> nat \<times> nat" where
  "serviceRank sb = (runRank (fst sb), if closed (bHandles (snd sb)) then 0 else 1, remaining (snd sb))"

lemma service_decreases:
  assumes "service_step co d c parse sb sb'" and "service_inv co d c parse sb" and "rsCancelled (fst sb)"
  shows "rsCancelled (fst sb') \<and> (serviceRank sb', serviceRank sb) \<in>
    (less_than <*lex*> less_than <*lex*> less_than) <*lex*> less_than <*lex*> less_than"
  using assms
proof (induction rule: service_step.induct)
  case (consume s s' hs b b')
  then have "run_inv d s" using reached_inv by (auto simp: service_inv_def)
  with cancelled_step [OF consume(1)] consume(6) show ?case by (simp add: serviceRank_def)
next
  case (senders s b b')
  then have "chan_ok (bHandles b)" by (simp add: service_inv_def batch_inv_def)
  from sender_decreases [OF senders(2) this senders(3,4)] senders(4,6) show ?case by (simp add: serviceRank_def)
next
  case (close_batcher s b ch)
  then show ?case by (auto simp: serviceRank_def close_chan_def split: if_splits)
next
  case (return_run s b)
  then show ?case by (simp add: serviceRank_def runRank_def)
qed

lemma served_next:
  "served co d c parse sb \<Longrightarrow> service_step co d c parse sb sb' \<Longrightarrow> served co d c parse sb'"
  unfolding served_def by (meson rtranclp.rtrancl_into_rtrancl)

lemma served_run:
  assumes "(service_step co d c parse)\<^sup>*\<^sup>* sb sb'" and "served co d c parse sb" and "rsCancelled (fst sb)"
  shows "served co d c parse sb' \<and> rsCancelled (fst sb')"
  using assms(1)
proof (induction rule: rtranclp_induct)
  case (step x y)
  then show ?case using served_next service_decreases [OF step(2)] served_inv by blast
qed (use assms in simp)

lemma service_terminates:
  assumes "served co d c parse (f 0)" and "rsCancelled (fst (f 0))" and "\<And>k. service_step co d c parse (f k) (f (Suc k))"
  shows False
proof -
  let ?r = "(less_than <*lex*> less_than <*lex*> less_than) <*lex*> less_than <*lex*> less_than"
  have inv: "served co d c parse (f k) \<and> rsCancelled (fst (f k))" for k
  proof (induction k)
    case (Suc k)
    with served_run [OF r_into_rtranclp [of "service_step co d c parse", OF assms(3)]] show ?case by blast
  qed (use assms in simp)
  have "(f (Suc k), f k) \<in> inv_image ?r serviceRank" for k
    using service_decreases [OF assms(3)] inv served_inv by simp
  moreover have "wf (inv_image ?r serviceRank)" by (intro wf_inv_image wf_lex_prod wf_less_than)
  ultimately show False unfolding wf_iff_no_infinite_down_chain by blast
qed

text \<open>What the run commits is what it hands over.\<close>

lemma served_commits:
  assumes "served co d c parse sb" and "polite (dHandler d)"
  shows "commits (poTrace (rsPool (fst sb))) = enqueued (poTrace (rsPool (fst sb)))"
proof -
  from assms(1) obtain rd now rnd cancelled t where set: "runSetup co rd now rnd [] = (Inr d, t)"
    and run: "(service_step co d c parse)\<^sup>*\<^sup>* (startRun d cancelled t, startBatcher (batchCapacity d) (poolSize d) []) sb"
    and b: "dBatcher d" by (auto simp: served_def)
  note hands = run_hands_over [OF assms(2) b runSetup_wired [OF set]]
  have "commits t = [] \<and> enqueued t = []" using runSetup_trace [OF set] by simp
  with run show ?thesis
  proof (induction rule: rtranclp_induct)
    case base
    then show ?case by (simp add: startRun_def startPool_def)
  next
    case (step x y)
    from step(2) step(3) [OF step(4)] show ?case
    proof (induction rule: service_step.induct)
      case (consume s s' hs b b')
      from hands [OF consume(1)] consume(5) show ?case by auto
    qed simp_all
  qed
qed

lemma finished_deletes:
  assumes "served co d c parse (s, b)" and "rsPhase s = Finished" and "polite (dHandler d)"
  shows "mset (concat (deletedBatches (bTrace b))) = mset (commits (poTrace (rsPool s)))"
proof -
  note inv = served_inv [OF assms(1), unfolded service_inv_def prod.case]
  then have "set (bSenders b) \<subseteq> {Exited}" "exit_inv (poolSize d) b" "0 < poolSize d" using assms(2) by blast+
  then have "Exited \<in> set (bSenders b)" by (cases "bSenders b") (auto simp: exit_inv_def)
  with inv have "buf (bHandles b) = []" by (simp add: exit_inv_def)
  moreover have "inHand (bSenders b) = {#}" by (rule inHand_Exited) fact
  ultimately have "mset (bAccepted b) = mset (concat (deletedBatches (bTrace b)))"
    using inv by (auto simp: batch_inv_def)
  with inv served_commits [OF assms(1,3)] show ?thesis by simp
qed

text \<open>
  C9: Batched deletes survive the shutdown. Once the context of a consumer with batched deletes is cancelled, the whole
  program, poller, workers and senders with the backpressure between them, has no infinite run and never
  deadlocks; where it comes to rest, either a goroutine panicked, or \<open>Run\<close> has returned, every message that
  was enqueued has been processed, and the DeleteMessageBatch requests sent hold exactly the receipt
  handles of the committed messages, each as often as it was committed, at most ten to a request.
\<close>

theorem every_commit_is_deleted:
  assumes "served co d c parse (s, b)" and "rsCancelled s" and "polite (dHandler d)"
  shows "(\<nexists>f. f 0 = (s, b) \<and> (\<forall>k. service_step co d c parse (f k) (f (Suc k)))) \<and>
    (\<forall>s' b'. (service_step co d c parse)\<^sup>*\<^sup>* (s, b) (s', b') \<and> (\<nexists>sb. service_step co d c parse (s', b') sb) \<longrightarrow>
       (rsPhase s' = Finished \<and> (\<forall>i. doneBy (rsPool s') i = sentTo (rsPool s') i) \<and>
        mset (concat (deletedBatches (bTrace b'))) = mset (commits (poTrace (rsPool s'))) \<and>
        (dRetryModel d \<noteq> ScheduledRetryModel \<longrightarrow> commits (poTrace (rsPool s')) = committed (rsPool s')) \<and>
        (\<forall>batch \<in> set (deletedBatches (bTrace b')). 1 \<le> length batch \<and> length batch \<le> 10)) \<or>
       (\<exists>p. rsPhase s' = Crashed p))"
proof (intro conjI allI impI)
  show "\<nexists>f. f 0 = (s, b) \<and> (\<forall>k. service_step co d c parse (f k) (f (Suc k)))"
    using service_terminates assms(1,2) by (metis fst_conv)
  fix s' b'
  assume run: "(service_step co d c parse)\<^sup>*\<^sup>* (s, b) (s', b') \<and> (\<nexists>sb. service_step co d c parse (s', b') sb)"
  with served_run [of co d c parse "(s, b)" "(s', b')"] assms(1,2) have
    r: "served co d c parse (s', b')" "rsCancelled s'" by simp_all
  with service_progress assms(3) run have "\<not> running (rsPhase s')" by blast
  then consider "rsPhase s' = Finished" | p where "rsPhase s' = Crashed p" by (auto simp: running_def)
  then show "(rsPhase s' = Finished \<and> (\<forall>i. doneBy (rsPool s') i = sentTo (rsPool s') i) \<and>
        mset (concat (deletedBatches (bTrace b'))) = mset (commits (poTrace (rsPool s'))) \<and>
        (dRetryModel d \<noteq> ScheduledRetryModel \<longrightarrow> commits (poTrace (rsPool s')) = committed (rsPool s')) \<and>
        (\<forall>batch \<in> set (deletedBatches (bTrace b')). 1 \<le> length batch \<and> length batch \<le> 10)) \<or>
       (\<exists>p. rsPhase s' = Crashed p)"
  proof cases
    case 1
    note inv = served_inv [OF r(1), unfolded service_inv_def prod.case]
    with 1 reached_inv have "pool_inv d (rsPool s')" "set (poWorkers (rsPool s')) \<subseteq> {Gone}"
      by (auto simp: run_inv_def allGone_def)
    with all_gone_all_done have "\<forall>i. doneBy (rsPool s') i = sentTo (rsPool s') i" by blast
    moreover have "commits (poTrace (rsPool s')) = committed (rsPool s')" if "dRetryModel d \<noteq> ScheduledRetryModel"
      using reached_group_inv [OF _ that assms(3)] inv by (auto simp: group_inv_def)
    moreover have "\<forall>batch \<in> set (deletedBatches (bTrace b')). 1 \<le> length batch \<and> length batch \<le> 10"
      using inv by (auto simp: batch_inv_def maxDeleteBatch_def)
    ultimately show ?thesis using finished_deletes [OF r(1) 1 assms(3)] 1 by blast
  qed blast
qed

section \<open>Witness\<close>

definition batchedRoute :: route where
  "batchedRoute = (defaultRoute ''q'' (\<lambda>c s. (HRet None, s)))\<lparr>deleteBatch := True\<rparr>"

definition batchedConsumer :: consumer where
  "batchedConsumer = \<lparr>coClient = quietClient\<lparr>getQueueUrl := \<lambda>t. Inr (Some (Some ''u'')), deleteMessageBatch := Some (\<lambda>t. Inr None)\<rparr>,
     coRoute = batchedRoute, coLog = NewNoOp, coMetrics = None, coScheduler = None, coGlobals = [],
     coRetryTimeout = second\<rparr>"

lemma every_commit_is_deleted_witness:
  "\<exists>d t. runSetup batchedConsumer (\<lambda>t. Inr []) (\<lambda>t. 0) (\<lambda>n. Return 0) [] = (Inr d, t) \<and>
     (\<nexists>f. f 0 = (startRun d True t, startBatcher (batchCapacity d) (poolSize d) []) \<and>
       (\<forall>k. service_step batchedConsumer d exampleCtx (\<lambda>b. zero_envelope) (f k) (f (Suc k))))"
proof -
  obtain d t where d: "runSetup batchedConsumer (\<lambda>t. Inr []) (\<lambda>t. 0) (\<lambda>n. Return 0) [] = (Inr d, t)"
    and conf: "dBatcher d" "dHandler d = (\<lambda>c s. (HRet None, s))" "0 < batchCapacity d"
    by (simp add: runSetup_def batchedConsumer_def batchDeleteClient_def resolveQueueURL_def Let_def batchedRoute_def
        defaultRoute_def route_consts newDispatcher_def batchCapacity_def)
  have "served batchedConsumer d exampleCtx (\<lambda>b. zero_envelope)
      (startRun d True t, startBatcher (batchCapacity d) (poolSize d) [])"
    using d conf unfolding served_def by blast
  moreover have "rsCancelled (startRun d True t)" by (simp add: startRun_def)
  moreover have "polite (dHandler d)" by (simp add: polite_def conf)
  ultimately show ?thesis using every_commit_is_deleted d by blast
qed

end
