(* ===== verification/Broker.thy ===== *)
theory Broker
  imports Service
begin

text \<open>
  The broker (\<open>src/broker/broker.go\<close>, \<open>options.go\<close>): one consumer per route, run concurrently under a
  context of the broker's own, the first error kept and every other consumer stopped, and the wait for
  all of them, bounded by the shutdown timeout when there is one.

  A state of \<open>Run\<close> holds the routes still to be started, what each started consumer is doing (with
  its own run state from \<open>Consumer\<close>, and its delete batcher from \<open>Service\<close> when it has one), the first
  error, and whether the derived context is cancelled; a history flag tells whether the caller cancelled it.
  The consumers share that context: cancelling it cancels the run of every one of them.
\<close>

section \<open>Construction\<close>

record broker =
  bkClient :: "sqs_message sqs_client"
  bkLog :: logger
  bkRoutes :: "route option list"
  bkGlobals :: "middleware list"
  bkRetryTimeout :: duration
  bkShutdownTimeout :: duration

datatype broker_option =
    BrokerLogger "logger option"
  | BrokerRetryTimeout duration
  | BrokerShutdownTimeout duration
  | BrokerMiddleware "middleware option list"

definition brokerRetryTimeout :: duration where "brokerRetryTimeout = 5 * second"

fun applyBroker :: "broker_option \<Rightarrow> broker \<Rightarrow> err + broker" where
  "applyBroker (BrokerLogger l) b = Inr (case l of None \<Rightarrow> b | Some x \<Rightarrow> b\<lparr>bkLog := x\<rparr>)"
| "applyBroker (BrokerRetryTimeout dur) b =
     (if dur \<le>s 0 then Inl (Fmt ''retry timeout must be positive, got %s'' [ArgDur dur])
      else Inr (b\<lparr>bkRetryTimeout := dur\<rparr>))"
| "applyBroker (BrokerShutdownTimeout dur) b =
     (if dur \<le>s 0 then Inl (Fmt ''shutdown timeout must be positive, got %s'' [ArgDur dur])
      else Inr (b\<lparr>bkShutdownTimeout := dur\<rparr>))"
| "applyBroker (BrokerMiddleware mws) b = Inr (b\<lparr>bkGlobals := bkGlobals b @ nonNil mws\<rparr>)"

definition NewBroker :: "sqs_message sqs_client option \<Rightarrow> route option list \<Rightarrow> broker_option option list \<Rightarrow>
    err + broker" where
  "NewBroker client routes opts = (case client of
     None \<Rightarrow> Inl (Sentinel ErrNoSQSClient)
   | Some cl \<Rightarrow>
     if length routes = 0 then Inl (Sentinel ErrNoRoute)
     else applyOptions applyBroker opts
       \<lparr>bkClient = cl, bkLog = NewLogger, bkRoutes = routes, bkGlobals = [],
        bkRetryTimeout = brokerRetryTimeout, bkShutdownTimeout = 0\<rparr>)"

section \<open>Run\<close>

text \<open>The consumer of a route, with the options the broker forwards.\<close>

definition memberConsumer :: "broker \<Rightarrow> route option \<Rightarrow> err + consumer" where
  "memberConsumer b r = NewConsumer (Some (bkClient b)) r
     [Some (WithLogger (Some (bkLog b))), Some (WithRetryTimeout (bkRetryTimeout b)),
      Some (WithGlobalMiddleware (map Some (bkGlobals b)))]"

text \<open>A consumer goroutine: about to call \<open>Run\<close>, inside it, or done with its result.\<close>

datatype member =
    Starting consumer
  | Running consumer dispatcher run_state "deleteBatcher option"
  | Done "err option"

text \<open>\<open>cancel()\<close>, as the consumers see it.\<close>

fun cancelMember :: "member \<Rightarrow> member" where
  "cancelMember (Running c d s bt) = Running c d (s\<lparr>rsCancelled := True\<rparr>) bt"
| "cancelMember m = m"

text \<open>A step of a running consumer, other than the cancellation of its context.\<close>

inductive member_step :: "ctx \<Rightarrow> (string \<Rightarrow> sns_envelope) \<Rightarrow> member \<Rightarrow> member \<Rightarrow> bool" for ctx parse where
  plain: "run_step c d ctx parse s s' \<Longrightarrow> rsCancelled s' = rsCancelled s \<Longrightarrow>
    member_step ctx parse (Running c d s None) (Running c d s' None)"
| batched: "service_step c d ctx parse (s, bt) (s', bt') \<Longrightarrow> rsCancelled s' = rsCancelled s \<Longrightarrow>
    member_step ctx parse (Running c d s (Some bt)) (Running c d s' (Some bt'))"

inductive_cases member_stepE: "member_step ctx parse (Running c d s bt) m"

inductive_simps member_step_rest [simp]: "member_step ctx parse (Done e) m" "member_step ctx parse (Starting c) m"

definition startMember :: "consumer \<Rightarrow> dispatcher \<Rightarrow> bool \<Rightarrow> trace \<Rightarrow> member" where
  "startMember c d cancelled t = Running c d (startRun d cancelled t)
     (if dBatcher d then Some (startBatcher (batchCapacity d) (poolSize d) []) else None)"

datatype broker_phase = Launching | Waiting | Returned "err option"

record broker_state =
  bsTodo :: "route option list"
  bsMembers :: "member list"
  bsFirst :: "err option"
  bsCancelled :: bool
  bsExternal :: bool
  bsPhase :: broker_phase
  bsLogs :: trace

definition setErr :: "err \<Rightarrow> broker_state \<Rightarrow> broker_state" where
  "setErr e st = (if bsFirst st = None then st\<lparr>bsFirst := Some e\<rparr> else st)"

definition cancelAll :: "broker_state \<Rightarrow> broker_state" where
  "cancelAll st = st\<lparr>bsCancelled := True, bsMembers := map cancelMember (bsMembers st)\<rparr>"

text \<open>Recording an error, logging it and cancelling the derived context.\<close>

definition failWith :: "err \<Rightarrow> string \<Rightarrow> (string \<times> log_arg) list \<Rightarrow> broker_state \<Rightarrow> broker_state" where
  "failWith e text args st = (let st = setErr e st in
     cancelAll (st\<lparr>bsLogs := bsLogs st @ [Log LevelError text (args @ [(''error'', LErr e)])]\<rparr>))"

definition crashed :: "member \<Rightarrow> bool" where
  "crashed m = (case m of Running c d s bt \<Rightarrow> (case rsPhase s of Crashed p \<Rightarrow> True | _ \<Rightarrow> False) | _ \<Rightarrow> False)"

text \<open>A panic in any goroutine ends the program, so every step is guarded by \<open>alive\<close>.\<close>

definition alive :: "broker_state \<Rightarrow> bool" where
  "alive st \<longleftrightarrow> \<not> list_ex crashed (bsMembers st)"

inductive broker_step :: "broker \<Rightarrow> ctx \<Rightarrow> (string \<Rightarrow> sns_envelope) \<Rightarrow> broker_state \<Rightarrow> broker_state \<Rightarrow> bool"
  for b ctx parse where
  external: "alive st \<Longrightarrow> \<not> bsExternal st \<Longrightarrow> broker_step b ctx parse st ((cancelAll st)\<lparr>bsExternal := True\<rparr>)"
| launch: "alive st \<Longrightarrow> bsPhase st = Launching \<Longrightarrow> bsTodo st = r # rs \<Longrightarrow> memberConsumer b r = Inr c \<Longrightarrow>
    broker_step b ctx parse st (st\<lparr>bsTodo := rs, bsMembers := bsMembers st @ [Starting c]\<rparr>)"
| launch_error: "alive st \<Longrightarrow> bsPhase st = Launching \<Longrightarrow> bsTodo st = r # rs \<Longrightarrow> memberConsumer b r = Inl e \<Longrightarrow>
    broker_step b ctx parse st ((failWith e ''failed to create consumer'' [] st)\<lparr>bsTodo := [], bsPhase := Waiting\<rparr>)"
| launched: "alive st \<Longrightarrow> bsPhase st = Launching \<Longrightarrow> bsTodo st = [] \<Longrightarrow>
    broker_step b ctx parse st (st\<lparr>bsPhase := Waiting\<rparr>)"
| set_up: "alive st \<Longrightarrow> i < length (bsMembers st) \<Longrightarrow> bsMembers st ! i = Starting c \<Longrightarrow>
    runSetup c rd now rnd [] = (Inr d, t) \<Longrightarrow>
    broker_step b ctx parse st (st\<lparr>bsMembers := (bsMembers st)[i := startMember c d (bsCancelled st) t]\<rparr>)"
| set_up_error: "alive st \<Longrightarrow> i < length (bsMembers st) \<Longrightarrow> bsMembers st ! i = Starting c \<Longrightarrow>
    runSetup c rd now rnd [] = (Inl e, t) \<Longrightarrow>
    broker_step b ctx parse st (failWith e ''consumer stopped with error''
      [(''queue_name'', LStr (queueName (coRoute c)))] (st\<lparr>bsMembers := (bsMembers st)[i := Done (Some e)]\<rparr>))"
| progress: "alive st \<Longrightarrow> i < length (bsMembers st) \<Longrightarrow> member_step ctx parse (bsMembers st ! i) m \<Longrightarrow>
    broker_step b ctx parse st (st\<lparr>bsMembers := (bsMembers st)[i := m]\<rparr>)"
| returned: "alive st \<Longrightarrow> i < length (bsMembers st) \<Longrightarrow> bsMembers st ! i = Running c d s bt \<Longrightarrow>
    rsPhase s = Finished \<Longrightarrow>
    broker_step b ctx parse st (st\<lparr>bsMembers := (bsMembers st)[i := Done None]\<rparr>)"
| all_done: "alive st \<Longrightarrow> bsPhase st = Waiting \<Longrightarrow> \<forall>m \<in> set (bsMembers st). \<exists>e. m = Done e \<Longrightarrow>
    broker_step b ctx parse st (cancelAll (st\<lparr>bsPhase := Returned (bsFirst st)\<rparr>))"
| timeout: "alive st \<Longrightarrow> bsPhase st = Waiting \<Longrightarrow> 0 <s bkShutdownTimeout b \<Longrightarrow>
    broker_step b ctx parse st (cancelAll (st\<lparr>bsPhase := Returned (bsFirst st),
      bsLogs := bsLogs st @ [Log LevelError ''shutdown timeout exceeded waiting for consumers to stop''
        [(''shutdown_timeout'', LDur (sint (bkShutdownTimeout b)))]]\<rparr>))"

definition startBroker :: "broker \<Rightarrow> broker_state" where
  "startBroker b = \<lparr>bsTodo = bkRoutes b, bsMembers = [], bsFirst = None, bsCancelled = False,
     bsExternal = False, bsPhase = Launching, bsLogs = []\<rparr>"

definition brokered :: "broker \<Rightarrow> ctx \<Rightarrow> (string \<Rightarrow> sns_envelope) \<Rightarrow> broker_state \<Rightarrow> bool" where
  "brokered b ctx parse st \<longleftrightarrow> (broker_step b ctx parse)\<^sup>*\<^sup>* (startBroker b) st"

section \<open>The first error\<close>

definition resultOf :: "member \<Rightarrow> err option" where
  "resultOf m = (case m of Done e \<Rightarrow> e | _ \<Rightarrow> None)"

text \<open>A run leaves its polling loop only when its context is cancelled.\<close>

definition late_cancelled :: "run_state \<Rightarrow> bool" where
  "late_cancelled s \<longleftrightarrow> (rsPhase s = Stopping \<or> rsPhase s = Closing \<or> rsPhase s = Finished \<longrightarrow> rsCancelled s)"

lemma late_cancelled_step: "run_step co d c parse s s' \<Longrightarrow> late_cancelled s \<Longrightarrow> late_cancelled s'"
  by (induction rule: run_step.induct) (simp_all add: late_cancelled_def)

lemma late_cancelled_service:
  "service_step co d c parse sb sb' \<Longrightarrow> late_cancelled (fst sb) \<Longrightarrow> late_cancelled (fst sb')"
  by (induction rule: service_step.induct) (simp_all add: late_cancelled_step, simp add: late_cancelled_def)

text \<open>
  What holds throughout: an error is recorded only when some route could not be made a consumer
  or some consumer returned one, and it then cancelled the context; before any error every route is
  started or still to be started; the consumers and the broker agree on whether the context is cancelled.
\<close>

fun member_ok :: "bool \<Rightarrow> member \<Rightarrow> bool" where
  "member_ok cancelled (Starting c) = True"
| "member_ok cancelled (Running c d s bt) = (rsCancelled s = cancelled \<and> late_cancelled s)"
| "member_ok cancelled (Done e) = cancelled"

definition broker_inv :: "broker \<Rightarrow> broker_state \<Rightarrow> bool" where
  "broker_inv b st \<longleftrightarrow>
     (bsFirst st = None \<longrightarrow> (\<forall>m \<in> set (bsMembers st). resultOf m = None) \<and>
        length (bsMembers st) + length (bsTodo st) = length (bkRoutes b)) \<and>
     (\<forall>e. bsFirst st = Some e \<longrightarrow> bsCancelled st \<and>
        (Done (Some e) \<in> set (bsMembers st) \<or> (\<exists>r \<in> set (bkRoutes b). memberConsumer b r = Inl e))) \<and>
     (\<forall>m \<in> set (bsMembers st). member_ok (bsCancelled st) m) \<and>
     set (bsTodo st) \<subseteq> set (bkRoutes b) \<and>
     (bsPhase st \<noteq> Launching \<longrightarrow> bsTodo st = [])"

lemma cancelMember_simps [simp]:
  "resultOf (cancelMember m) = resultOf m" "cancelMember m = Done e \<longleftrightarrow> m = Done e"
  "Done e = cancelMember m \<longleftrightarrow> m = Done e" "cancelMember m = Starting c \<longleftrightarrow> m = Starting c"
  "crashed (cancelMember m) = crashed m"
  by (cases m; auto simp: resultOf_def crashed_def)+

lemma member_ok_cancel: "member_ok x m \<Longrightarrow> member_ok True (cancelMember m)"
  by (cases "(x, m)" rule: member_ok.cases) (auto simp: late_cancelled_def)

lemma cancelAll_simps [simp]:
  "bsMembers (cancelAll st) = map cancelMember (bsMembers st)" "bsCancelled (cancelAll st)"
  "bsTodo (cancelAll st) = bsTodo st" "bsPhase (cancelAll st) = bsPhase st"
  "bsFirst (cancelAll st) = bsFirst st" "bsExternal (cancelAll st) = bsExternal st"
  by (simp_all add: cancelAll_def)

lemma Done_cancelled [simp]: "Done e \<in> cancelMember ` ms \<longleftrightarrow> Done e \<in> ms"
  by (auto simp: image_iff)

lemma start_broker_inv: "broker_inv b (startBroker b)"
  by (simp add: broker_inv_def startBroker_def)

lemma broker_inv_cancel: "broker_inv b st \<Longrightarrow> broker_inv b (cancelAll st)"
  using member_ok_cancel by (auto simp: broker_inv_def)

lemma failWith_simps [simp]:
  "bsMembers (failWith e x as st) = map cancelMember (bsMembers st)" "bsCancelled (failWith e x as st)"
  "bsTodo (failWith e x as st) = bsTodo st" "bsPhase (failWith e x as st) = bsPhase st"
  "bsFirst (failWith e x as st) = (case bsFirst st of None \<Rightarrow> Some e | Some f \<Rightarrow> Some f)"
  "bsExternal (failWith e x as st) = bsExternal st"
  by (simp_all add: failWith_def setErr_def Let_def split: option.split)

lemma set_list_update:
  "i < length xs \<Longrightarrow> y \<in> set (xs[i := x]) \<Longrightarrow> y = x \<or> y \<in> set xs"
  using set_update_subset_insert by fastforce

lemma kept_member:
  assumes "i < length ms" "z \<in> set ms" "z \<noteq> ms ! i"
  shows "z \<in> set (ms[i := x])"
  using assms by (metis in_set_conv_nth length_list_update nth_list_update_neq)

lemma member_at:
  "broker_inv b st \<Longrightarrow> i < length (bsMembers st) \<Longrightarrow> bsMembers st ! i = m \<Longrightarrow> member_ok (bsCancelled st) m"
  using nth_mem [of i "bsMembers st"] by (auto simp: broker_inv_def)

lemma member_step_ok:
  "member_step ctx parse m m' \<Longrightarrow> member_ok cancelled m \<Longrightarrow>
   member_ok cancelled m' \<and> resultOf m' = None \<and> resultOf m = None"
proof (induction rule: member_step.induct)
  case (plain c d s s')
  then show ?case using late_cancelled_step by (auto simp: resultOf_def)
next
  case (batched c d s bt s' bt')
  then show ?case using late_cancelled_service by (fastforce simp: resultOf_def)
qed

lemma broker_inv_update:
  assumes "broker_inv b st" and "i < length (bsMembers st)" and "member_ok (bsCancelled st) x"
    and "resultOf x = None" and "resultOf (bsMembers st ! i) = None"
  shows "broker_inv b (st\<lparr>bsMembers := (bsMembers st)[i := x]\<rparr>)"
proof -
  have "Done (Some e) \<in> set ((bsMembers st)[i := x])" if "Done (Some e) \<in> set (bsMembers st)" for e
  proof -
    have "Done (Some e) \<noteq> bsMembers st ! i" using assms(5) by (auto simp: resultOf_def split: member.splits)
    then show ?thesis by (rule kept_member [OF assms(2) that])
  qed
  with assms(1,3,4) show ?thesis
    unfolding broker_inv_def by (auto dest!: set_list_update [OF assms(2)])
qed

lemma broker_inv_step:
  assumes "broker_step b ctx parse st st'" and "broker_inv b st"
  shows "broker_inv b st'"
  using assms
proof (induction rule: broker_step.induct)
  case (external st)
  from broker_inv_cancel [OF external(3)] show ?case by (simp add: broker_inv_def)
next
  case (launch st r rs c)
  then show ?case by (auto simp: broker_inv_def resultOf_def)
next
  case (launch_error st r rs e)
  then show ?case using member_ok_cancel by (fastforce simp: broker_inv_def split: option.splits)
next
  case (set_up st i c rd now rnd d t)
  have "member_ok (bsCancelled st) (startMember c d (bsCancelled st) t)"
    by (simp add: startMember_def startRun_def late_cancelled_def)
  from broker_inv_update [OF set_up(5,2) this] show ?case
    using set_up(3) by (simp add: resultOf_def startMember_def)
next
  case (set_up_error st i c rd now rnd e t)
  have kept: "Done (Some f) \<in> set ((bsMembers st)[i := Done (Some e)])" if "Done (Some f) \<in> set (bsMembers st)" for f
    using kept_member [OF set_up_error(2) that] set_up_error(3) by force
  have new: "Done (Some e) \<in> set ((bsMembers st)[i := Done (Some e)])"
    using set_up_error(2) by (simp add: set_update_memI)
  have ok: "\<forall>m \<in> set ((bsMembers st)[i := Done (Some e)]). member_ok True (cancelMember m)"
    using set_up_error(5) member_ok_cancel
    by (auto simp: broker_inv_def dest!: set_list_update [OF set_up_error(2)])
  show ?case
    using set_up_error(5) kept new ok by (cases "bsFirst st") (auto simp: broker_inv_def)
next
  case (progress st i m)
  note ok = member_step_ok [OF progress(3) member_at [OF progress(4,2) refl]]
  then show ?case using broker_inv_update [OF progress(4,2)] by simp
next
  case (returned st i c d s bt)
  have "member_ok (bsCancelled st) (Running c d s bt)"
    by (rule member_at [OF returned(5,2,3)])
  then have "member_ok (bsCancelled st) (Done None)" using returned(4) by (auto simp: late_cancelled_def)
  from broker_inv_update [OF returned(5,2) this] show ?case using returned(3) by (simp add: resultOf_def)
next
  case (all_done st)
  have "broker_inv b (st\<lparr>bsPhase := Returned (bsFirst st)\<rparr>)" using all_done by (auto simp: broker_inv_def)
  then show ?case by (rule broker_inv_cancel)
next
  case (timeout st)
  show ?case by (rule broker_inv_cancel) (use timeout in \<open>auto simp: broker_inv_def\<close>)
qed (auto simp: broker_inv_def)

lemma brokered_inv: "brokered b ctx parse st \<Longrightarrow> broker_inv b st"
  unfolding brokered_def
  by (induction rule: rtranclp_induct) (auto intro: start_broker_inv broker_inv_step)

text \<open>How \<open>Run\<close> returns when the wait is not bounded.\<close>

definition return_inv :: "broker \<Rightarrow> broker_state \<Rightarrow> bool" where
  "return_inv b st \<longleftrightarrow>
     (case bsPhase st of
        Returned r \<Rightarrow> r = bsFirst st \<and> (\<forall>m \<in> set (bsMembers st). \<exists>e. m = Done e) \<and>
          (r = None \<and> bkRoutes b \<noteq> [] \<longrightarrow> bsExternal st)
      | _ \<Rightarrow> bsFirst st = None \<and> bsCancelled st \<longrightarrow> bsExternal st)"

lemma return_inv_done:
  assumes "return_inv b st" and "bsPhase st = Returned r" and "i < length (bsMembers st)"
  shows "\<exists>e. bsMembers st ! i = Done e"
  using assms nth_mem by (auto simp: return_inv_def)

lemma all_done_inv:
  assumes "broker_inv b st" and "return_inv b st" and "bsPhase st = Waiting"
    and "\<forall>m \<in> set (bsMembers st). \<exists>e. m = Done e"
  shows "return_inv b (cancelAll (st\<lparr>bsPhase := Returned (bsFirst st)\<rparr>))"
proof -
  have "bsExternal st" if none: "bsFirst st = None" and ne: "bkRoutes b \<noteq> []"
  proof -
    have inv: "\<forall>m \<in> set (bsMembers st). resultOf m = None" "length (bsMembers st) + length (bsTodo st) = length (bkRoutes b)"
      "bsTodo st = []" "\<forall>m \<in> set (bsMembers st). member_ok (bsCancelled st) m"
      using assms(1,3) none by (auto simp: broker_inv_def)
    then obtain m ms where ms: "bsMembers st = m # ms" using ne by (cases "bsMembers st") auto
    then obtain e where "m = Done e" using assms(4) by auto
    then have "bsCancelled st" using inv(4) ms by simp
    then show ?thesis using assms(2,3) none by (simp add: return_inv_def)
  qed
  with assms(4) show ?thesis by (simp add: return_inv_def)
qed

lemma return_inv_step:
  assumes "broker_step b ctx parse st st'" and "broker_inv b st" and "return_inv b st"
    and "\<not> 0 <s bkShutdownTimeout b"
  shows "return_inv b st'"
  using assms
proof (induction rule: broker_step.induct)
  case (set_up st i c rd now rnd d t)
  then show ?case using return_inv_done [OF set_up(6) _ set_up(2)] 
    by (cases "bsPhase st") (simp_all add: return_inv_def)
next
  case (set_up_error st i c rd now rnd e t)
  then show ?case using return_inv_done [OF set_up_error(6) _ set_up_error(2)]
    by (cases "bsPhase st") (auto simp: return_inv_def split: option.split)
next
  case (progress st i m)
  have "bsMembers st ! i \<noteq> Done e" for e using progress(3) by auto
  with progress(5) return_inv_done [OF progress(5) _ progress(2)] show ?case
    by (cases "bsPhase st") (simp_all add: return_inv_def)
next
  case (returned st i c d s bt)
  then show ?case using return_inv_done [OF returned(6) _ returned(2)]
    by (cases "bsPhase st") (simp_all add: return_inv_def)
next
  case (all_done st)
  then show ?case by (intro all_done_inv)
qed (auto simp: return_inv_def split: option.splits broker_phase.splits)

lemma brokered_return:
  assumes "brokered b ctx parse st" and "\<not> 0 <s bkShutdownTimeout b"
  shows "return_inv b st"
  using assms(1) unfolding brokered_def
proof (induction rule: rtranclp_induct)
  case base
  show ?case by (simp add: return_inv_def startBroker_def)
next
  case (step s1 s2)
  then have "brokered b ctx parse s1" by (simp add: brokered_def)
  from return_inv_step [OF step(2) brokered_inv [OF this] step(3) assms(2)] show ?case .
qed

text \<open>
  C31: Without a shutdown timeout \<open>Run\<close> returns only when every consumer it started is done, and what
  it returns explains why: nil means that every route was started, every consumer returned nil and the
  caller's context was cancelled; an error is one a consumer returned, or the one a route was refused
  with. At any time a recorded error has already cancelled the other consumers' context.
\<close>

theorem broker_returns_first_error:
  assumes "brokered b ctx parse st" and "\<not> 0 <s bkShutdownTimeout b" and "bkRoutes b \<noteq> []"
  shows "(bsFirst st \<noteq> None \<longrightarrow> bsCancelled st) \<and>
    (case bsPhase st of
       Returned None \<Rightarrow> bsExternal st \<and> length (bsMembers st) = length (bkRoutes b) \<and> set (bsMembers st) = {Done None}
     | Returned (Some e) \<Rightarrow> (\<forall>m \<in> set (bsMembers st). \<exists>r. m = Done r) \<and>
         (Done (Some e) \<in> set (bsMembers st) \<or> (\<exists>r \<in> set (bkRoutes b). memberConsumer b r = Inl e))
     | _ \<Rightarrow> True)"
proof -
  note inv = brokered_inv [OF assms(1)] and ret = brokered_return [OF assms(1,2)]
  have "bsFirst st \<noteq> None \<longrightarrow> bsCancelled st" using inv by (auto simp: broker_inv_def)
  moreover have "bsExternal st \<and> length (bsMembers st) = length (bkRoutes b) \<and> set (bsMembers st) = {Done None}"
    if "bsPhase st = Returned None"
  proof -
    from that ret have r: "bsFirst st = None" "\<forall>m \<in> set (bsMembers st). \<exists>e. m = Done e" "bsExternal st"
      using assms(3) by (auto simp: return_inv_def)
    then have len: "length (bsMembers st) = length (bkRoutes b)" and res: "\<forall>m \<in> set (bsMembers st). resultOf m = None"
      using inv that by (auto simp: broker_inv_def)
    have "m = Done None" if "m \<in> set (bsMembers st)" for m
      using r(2) res that by (cases m) (auto simp: resultOf_def)
    then have "set (bsMembers st) \<subseteq> {Done None}" by blast
    moreover have "bsMembers st \<noteq> []" using len assms(3) by auto
    ultimately have "set (bsMembers st) = {Done None}" by (cases "bsMembers st") auto
    with r len show ?thesis by simp
  qed
  moreover have "(\<forall>m \<in> set (bsMembers st). \<exists>r. m = Done r) \<and>
         (Done (Some e) \<in> set (bsMembers st) \<or> (\<exists>r \<in> set (bkRoutes b). memberConsumer b r = Inl e))"
    if "bsPhase st = Returned (Some e)" for e
  proof -
    have "bsFirst st = Some e" "\<forall>m \<in> set (bsMembers st). \<exists>r. m = Done r"
      using ret that by (simp_all add: return_inv_def)
    with inv show ?thesis by (auto simp: broker_inv_def)
  qed
  ultimately show ?thesis by (auto split: broker_phase.split option.split)
qed

definition nilRouteBroker :: broker where
  "nilRouteBroker = \<lparr>bkClient = quietClient, bkLog = NewLogger, bkRoutes = [None], bkGlobals = [],
     bkRetryTimeout = second, bkShutdownTimeout = 0\<rparr>"

lemma nilRoute_returns:
  "\<exists>st. brokered nilRouteBroker ctx parse st \<and> bsPhase st = Returned (Some (Sentinel ErrNoRoute))"
proof -
  let ?s0 = "startBroker nilRouteBroker"
  have refused: "memberConsumer nilRouteBroker None = Inl (Sentinel ErrNoRoute)"
    by (simp add: memberConsumer_def NewConsumer_def)
  define s1 where "s1 = (failWith (Sentinel ErrNoRoute) ''failed to create consumer'' [] ?s0)\<lparr>bsTodo := [], bsPhase := Waiting\<rparr>"
  have "broker_step nilRouteBroker ctx parse ?s0 s1"
    unfolding s1_def by (rule broker_step.launch_error [OF _ _ _ refused])
      (simp_all add: startBroker_def alive_def nilRouteBroker_def)
  moreover have "broker_step nilRouteBroker ctx parse s1 (cancelAll (s1\<lparr>bsPhase := Returned (bsFirst s1)\<rparr>))"
    by (rule broker_step.all_done) (simp_all add: s1_def alive_def startBroker_def)
  ultimately have "brokered nilRouteBroker ctx parse (cancelAll (s1\<lparr>bsPhase := Returned (bsFirst s1)\<rparr>))"
    unfolding brokered_def by (meson converse_rtranclp_into_rtranclp rtranclp.rtrancl_refl)
  then show ?thesis
    by (intro exI conjI) (assumption, simp add: s1_def startBroker_def)
qed

lemma broker_returns_first_error_witness:
  "\<exists>st. brokered nilRouteBroker exampleCtx (\<lambda>b. zero_envelope) st \<and> bsFirst st \<noteq> None \<and> bsCancelled st \<and>
     (\<exists>r \<in> set (bkRoutes nilRouteBroker). memberConsumer nilRouteBroker r = Inl (Sentinel ErrNoRoute))"
proof -
  from nilRoute_returns obtain st where st: "brokered nilRouteBroker exampleCtx (\<lambda>b. zero_envelope) st"
    "bsPhase st = Returned (Some (Sentinel ErrNoRoute))" by blast
  have conf: "\<not> 0 <s bkShutdownTimeout nilRouteBroker" "bkRoutes nilRouteBroker \<noteq> []"
    by (simp_all add: nilRouteBroker_def)
  note first = broker_returns_first_error [OF st(1) conf]
  have "memberConsumer nilRouteBroker None = Inl (Sentinel ErrNoRoute)"
    by (simp add: memberConsumer_def NewConsumer_def)
  moreover have "bsFirst st = Some (Sentinel ErrNoRoute)"
    using brokered_return [OF st(1) conf(1)] st(2) by (simp add: return_inv_def)
  ultimately show ?thesis using first st(1) by (auto simp: nilRouteBroker_def)
qed

section \<open>What the broker forwards\<close>

lemma nonNil_Some [simp]: "nonNil (map Some xs) = xs"
  by (induction xs) (simp_all add: nonNil_def)

lemma memberConsumer_Some:
  assumes "0 < sint (bkRetryTimeout b)"
  shows "memberConsumer b (Some r) = Inr \<lparr>coClient = bkClient b, coRoute = r, coLog = bkLog b, coMetrics = None,
     coScheduler = None, coGlobals = bkGlobals b, coRetryTimeout = bkRetryTimeout b\<rparr>"
  using assms by (simp add: memberConsumer_def NewConsumer_def go_sint)

interpretation br: validated_options applyBroker "\<lambda>b. 0 < sint (bkRetryTimeout b) \<and> 0 \<le> sint (bkShutdownTimeout b) \<and>
    bkClient b = cl \<and> bkRoutes b = rs" for cl rs
proof
  fix b opt b'
  assume "0 < sint (bkRetryTimeout b) \<and> 0 \<le> sint (bkShutdownTimeout b) \<and> bkClient b = cl \<and> bkRoutes b = rs"
    "applyBroker opt b = Inr b'"
  then show "0 < sint (bkRetryTimeout b') \<and> 0 \<le> sint (bkShutdownTimeout b') \<and> bkClient b' = cl \<and> bkRoutes b' = rs"
    by (cases opt) (auto simp: go_sint split: if_splits option.splits)
qed

text \<open>
  C36: A broker \<open>New\<close> returns can make a consumer of every route it holds: its options are within
  bounds, so no route but a nil one is refused. The consumer gets the broker's client, logger, global
  middlewares and retry timeout, and neither a metrics recorder nor a scheduler client; so a route of
  the Scheduled retry model never runs under a broker: \<open>Run\<close> of its consumer fails at once.
\<close>

theorem broker_makes_every_consumer:
  assumes "NewBroker (Some cl) routes opts = Inr b"
  shows "routes \<noteq> [] \<and> bkRoutes b = routes \<and> memberConsumer b None = Inl (Sentinel ErrNoRoute) \<and>
    (\<exists>c. memberConsumer b (Some r) = Inr c \<and> coClient c = cl \<and> coRoute c = r \<and> coLog c = bkLog b \<and>
       coGlobals c = bkGlobals b \<and> coRetryTimeout c = bkRetryTimeout b \<and> coMetrics c = None \<and>
       (retryModel r = ScheduledRetryModel \<longrightarrow>
          runSetup c rd now rnd t = (Inl (Sentinel ErrNoSchedulerClient), t)))"
proof -
  let ?b0 = "\<lparr>bkClient = cl, bkLog = NewLogger, bkRoutes = routes, bkGlobals = [],
        bkRetryTimeout = brokerRetryTimeout, bkShutdownTimeout = 0\<rparr>"
  have ne: "routes \<noteq> []" and ok: "applyOptions applyBroker opts ?b0 = Inr b"
    using assms by (auto simp: NewBroker_def split: if_splits)
  have "0 < sint (bkRetryTimeout ?b0)" by (simp add: brokerRetryTimeout_def second_def)
  with br.options_inv [OF _ ok, of cl routes] have b: "0 < sint (bkRetryTimeout b)" "bkClient b = cl" "bkRoutes b = routes"
    by simp_all
  have none: "memberConsumer b None = Inl (Sentinel ErrNoRoute)"
    by (simp add: memberConsumer_def NewConsumer_def)
  show ?thesis
    using ne b(2,3) none memberConsumer_Some [OF b(1), of r] by (simp add: runSetup_def)
qed

lemma broker_makes_every_consumer_witness:
  "\<exists>b c. NewBroker (Some quietClient) [Some (scheduledRoute ''q'' (\<lambda>c s. (HRet None, s)))] [] = Inr b \<and>
     memberConsumer b (Some (scheduledRoute ''q'' (\<lambda>c s. (HRet None, s)))) = Inr c \<and>
     runSetup c (\<lambda>t. Inr []) (\<lambda>t. 0) (\<lambda>n. Return 0) [] = (Inl (Sentinel ErrNoSchedulerClient), [])"
proof -
  let ?r = "scheduledRoute ''q'' (\<lambda>c s. (HRet None, s))"
  obtain b where b: "NewBroker (Some quietClient) [Some ?r] [] = Inr b"
    by (simp add: NewBroker_def)
  have "retryModel ?r = ScheduledRetryModel" by (simp add: scheduledRoute_def)
  with broker_makes_every_consumer [OF b, of ?r "\<lambda>t. Inr []" "\<lambda>t. 0" "\<lambda>n. Return 0" "[]"] b show ?thesis by blast
qed

section \<open>The shutdown timeout\<close>

lemma launch_all:
  assumes "\<forall>r \<in> set rs. r \<noteq> None" and "0 < sint (bkRetryTimeout b)"
    and "bsTodo st = rs" "bsPhase st = Launching" "\<forall>m \<in> set (bsMembers st). \<exists>c. m = Starting c"
  shows "\<exists>cs. (broker_step b ctx parse)\<^sup>*\<^sup>* st (st\<lparr>bsTodo := [], bsMembers := bsMembers st @ map Starting cs\<rparr>) \<and>
    length cs = length rs"
  using assms(1,3-5)
proof (induction rs arbitrary: st)
  case Nil
  then have "st\<lparr>bsTodo := [], bsMembers := bsMembers st @ map Starting []\<rparr> = st" by simp
  then show ?case by (intro exI [of _ "[]"]) simp
next
  case (Cons x rs)
  then obtain r where x: "x = Some r" by auto
  from memberConsumer_Some [OF assms(2), of r] obtain c where c: "memberConsumer b x = Inr c" by (simp add: x)
  have "alive st" using Cons(5) by (auto simp: alive_def list_ex_iff crashed_def)
  from broker_step.launch [OF this Cons(4,3) c]
  have step: "broker_step b ctx parse st (st\<lparr>bsTodo := rs, bsMembers := bsMembers st @ [Starting c]\<rparr>)" .
  let ?st = "st\<lparr>bsTodo := rs, bsMembers := bsMembers st @ [Starting c]\<rparr>"
  from Cons.IH [of ?st] Cons.prems obtain cs where cs: "length cs = length rs"
    "(broker_step b ctx parse)\<^sup>*\<^sup>* ?st (?st\<lparr>bsTodo := [], bsMembers := bsMembers ?st @ map Starting cs\<rparr>)" by auto
  from converse_rtranclp_into_rtranclp [OF step cs(2)] cs(1) show ?case
    by (intro exI [of _ "c # cs"]) simp
qed

text \<open>
  The shutdown timeout runs from the start of \<open>Run\<close>, not from the cancellation: a broker with a
  positive shutdown timeout can return nil while every consumer it started is still at work, although
  the caller never cancelled the context and no consumer failed, whatever its (non-nil) routes are.
\<close>

theorem shutdown_timeout_needs_no_shutdown:
  assumes "0 <s bkShutdownTimeout b" and "0 <s bkRetryTimeout b" and "\<forall>r \<in> set (bkRoutes b). r \<noteq> None"
  shows "\<exists>st cs. brokered b ctx parse st \<and> bsPhase st = Returned None \<and> \<not> bsExternal st \<and>
    bsMembers st = map Starting cs \<and> length cs = length (bkRoutes b)"
proof -
  let ?s0 = "startBroker b"
  have retry: "0 < sint (bkRetryTimeout b)" using assms(2) by (simp add: go_sint)
  have init: "bsTodo ?s0 = bkRoutes b" "bsPhase ?s0 = Launching" "\<forall>m \<in> set (bsMembers ?s0). \<exists>c. m = Starting c"
    by (simp_all add: startBroker_def)
  from launch_all [OF assms(3) retry init] obtain cs where cs: "length cs = length (bkRoutes b)"
    "(broker_step b ctx parse)\<^sup>*\<^sup>* ?s0 (?s0\<lparr>bsTodo := [], bsMembers := map Starting cs\<rparr>)"
    by (auto simp: startBroker_def)
  define s1 where "s1 = ?s0\<lparr>bsTodo := [], bsMembers := map Starting cs\<rparr>"
  have alive: "alive s1" by (auto simp: alive_def s1_def list_ex_iff crashed_def)
  then have "broker_step b ctx parse s1 (s1\<lparr>bsPhase := Waiting\<rparr>)"
    by (rule broker_step.launched) (simp_all add: s1_def startBroker_def)
  moreover have "broker_step b ctx parse (s1\<lparr>bsPhase := Waiting\<rparr>)
      (cancelAll ((s1\<lparr>bsPhase := Waiting\<rparr>)\<lparr>bsPhase := Returned (bsFirst (s1\<lparr>bsPhase := Waiting\<rparr>)),
      bsLogs := bsLogs (s1\<lparr>bsPhase := Waiting\<rparr>) @ [Log LevelError ''shutdown timeout exceeded waiting for consumers to stop''
        [(''shutdown_timeout'', LDur (sint (bkShutdownTimeout b)))]]\<rparr>))"
    using alive assms(1) by (intro broker_step.timeout) (simp_all add: alive_def)
  ultimately have "(broker_step b ctx parse)\<^sup>*\<^sup>* s1 (cancelAll ((s1\<lparr>bsPhase := Waiting\<rparr>)\<lparr>bsPhase := Returned (bsFirst (s1\<lparr>bsPhase := Waiting\<rparr>)),
      bsLogs := bsLogs (s1\<lparr>bsPhase := Waiting\<rparr>) @ [Log LevelError ''shutdown timeout exceeded waiting for consumers to stop''
        [(''shutdown_timeout'', LDur (sint (bkShutdownTimeout b)))]]\<rparr>))"
    by (meson converse_rtranclp_into_rtranclp rtranclp.rtrancl_refl)
  from rtranclp_trans [OF cs(2) [folded s1_def] this] cs(1) show ?thesis
    unfolding brokered_def by (intro exI [of _ cs] exI conjI) (assumption, simp_all add: s1_def startBroker_def)
qed

lemma shutdown_timeout_needs_no_shutdown_witness:
  "\<exists>b st. NewBroker (Some quietClient) [Some (scheduledRoute ''q'' (\<lambda>c s. (HRet None, s)))]
       [Some (BrokerShutdownTimeout 30000000000)] = Inr b \<and>
     brokered b exampleCtx (\<lambda>b. zero_envelope) st \<and> bsPhase st = Returned None \<and> \<not> bsExternal st \<and>
     length (bsMembers st) = 1"
proof -
  obtain b where b: "NewBroker (Some quietClient) [Some (scheduledRoute ''q'' (\<lambda>c s. (HRet None, s)))]
       [Some (BrokerShutdownTimeout 30000000000)] = Inr b"
    and conf: "0 <s bkShutdownTimeout b" "0 <s bkRetryTimeout b"
      "bkRoutes b = [Some (scheduledRoute ''q'' (\<lambda>c s. (HRet None, s)))]"
    by (simp add: NewBroker_def brokerRetryTimeout_def second_def go_sint)
  from shutdown_timeout_needs_no_shutdown [OF conf(1,2), of exampleCtx "\<lambda>b. zero_envelope"] b conf(3)
  show ?thesis by fastforce
qed

section \<open>Stopping\<close>

text \<open>
  What is asked of the routes with batched deletes: their handlers record no client calls of their own, and
  the sizes of their pool and buffers do not overflow the capacity of the batcher's channel.
\<close>

definition batched_ok :: "broker \<Rightarrow> bool" where
  "batched_ok b \<longleftrightarrow> (\<forall>r c rd now rnd d t. r \<in> set (bkRoutes b) \<and> memberConsumer b r = Inr c \<and>
     runSetup c rd now rnd [] = (Inr d, t) \<and> dBatcher d \<longrightarrow> 0 < batchCapacity d \<and> polite (dHandler d))"

text \<open>Every consumer at work is in a state its own program reaches.\<close>

fun member_reached :: "broker \<Rightarrow> ctx \<Rightarrow> (string \<Rightarrow> sns_envelope) \<Rightarrow> member \<Rightarrow> bool" where
  "member_reached b ctx parse (Starting c) = (\<exists>r \<in> set (bkRoutes b). memberConsumer b r = Inr c)"
| "member_reached b ctx parse (Running c d s None) = reached c d ctx parse s"
| "member_reached b ctx parse (Running c d s (Some bt)) = (served c d ctx parse (s, bt) \<and> polite (dHandler d))"
| "member_reached b ctx parse (Done e) = True"

definition members_reached :: "broker \<Rightarrow> ctx \<Rightarrow> (string \<Rightarrow> sns_envelope) \<Rightarrow> broker_state \<Rightarrow> bool" where
  "members_reached b ctx parse st \<longleftrightarrow> (\<forall>m \<in> set (bsMembers st). member_reached b ctx parse m)"

lemma cancel_reached:
  assumes "reached c d ctx parse s" shows "reached c d ctx parse (s\<lparr>rsCancelled := True\<rparr>)"
proof (cases "rsCancelled s")
  case True
  then have "s\<lparr>rsCancelled := True\<rparr> = s" by simp
  with assms show ?thesis by simp
qed (rule reached_next [OF assms run_step.cancel])

lemma served_late:
  assumes "served c d ctx parse sb" shows "late_cancelled (fst sb)"
proof -
  from assms obtain cancelled t where
    "(service_step c d ctx parse)\<^sup>*\<^sup>* (startRun d cancelled t, startBatcher (batchCapacity d) (poolSize d) []) sb"
    by (auto simp: served_def)
  then show ?thesis
    by (induction rule: rtranclp_induct) (auto simp: late_cancelled_def startRun_def dest: late_cancelled_service)
qed

lemma cancel_served:
  assumes "served c d ctx parse (s, bt)" shows "served c d ctx parse (s\<lparr>rsCancelled := True\<rparr>, bt)"
proof (cases "rsCancelled s")
  case True
  then have "s\<lparr>rsCancelled := True\<rparr> = s" by simp
  with assms show ?thesis by simp
next
  case False
  show ?thesis
  proof (cases "rsPhase s = Finished")
    case True
    with served_late [OF assms] have "rsCancelled s" by (simp add: late_cancelled_def)
    with False show ?thesis by simp
  next
    case nf: False
    from service_step.consume [OF run_step.cancel [OF False], of "[]" bt bt] nf
    have "service_step c d ctx parse (s, bt) (s\<lparr>rsCancelled := True\<rparr>, bt)" by simp
    then show ?thesis by (rule served_next [OF assms])
  qed
qed

lemma cancelMember_reached: "member_reached b ctx parse m \<Longrightarrow> member_reached b ctx parse (cancelMember m)"
  by (cases "(b, ctx, parse, m)" rule: member_reached.cases) (simp_all add: cancel_reached cancel_served)

lemma members_reached_cancel: "members_reached b ctx parse st \<Longrightarrow> members_reached b ctx parse (cancelAll st)"
  using cancelMember_reached by (auto simp: members_reached_def)

lemma members_reached_update:
  "members_reached b ctx parse st \<Longrightarrow> i < length (bsMembers st) \<Longrightarrow> member_reached b ctx parse m \<Longrightarrow>
   members_reached b ctx parse (st\<lparr>bsMembers := (bsMembers st)[i := m]\<rparr>)"
  by (auto simp: members_reached_def dest!: set_list_update)

lemma member_step_reached:
  "member_step ctx parse m m' \<Longrightarrow> member_reached b ctx parse m \<Longrightarrow> member_reached b ctx parse m'"
  by (induction rule: member_step.induct) (auto intro: reached_next served_next)

lemma start_reached:
  assumes "batched_ok b" and "member_reached b ctx parse (Starting c)" and "runSetup c rd now rnd [] = (Inr d, t)"
  shows "member_reached b ctx parse (startMember c d x t)"
proof (cases "dBatcher d")
  case True
  from assms(2) obtain r where "r \<in> set (bkRoutes b)" "memberConsumer b r = Inr c" by auto
  with assms(1,3) True have "0 < batchCapacity d" "polite (dHandler d)" unfolding batched_ok_def by blast+
  with True assms(3) have "served c d ctx parse (startRun d x t, startBatcher (batchCapacity d) (poolSize d) [])"
    unfolding served_def by blast
  with True \<open>polite (dHandler d)\<close> show ?thesis by (simp add: startMember_def)
next
  case False
  moreover from assms(3) have "reached c d ctx parse (startRun d x t)" unfolding reached_def by blast
  ultimately show ?thesis by (simp add: startMember_def)
qed

lemma members_reached_step:
  assumes "broker_step b ctx parse st st'" and "batched_ok b" and "broker_inv b st" and "members_reached b ctx parse st"
  shows "members_reached b ctx parse st'"
  using assms
proof (induction rule: broker_step.induct)
  case (external st)
  from members_reached_cancel [OF external(5)] show ?case by (simp add: members_reached_def)
next
  case (launch st r rs c)
  then show ?case by (auto simp: members_reached_def broker_inv_def)
next
  case (launch_error st r rs e)
  then show ?case using cancelMember_reached by (auto simp: members_reached_def)
next
  case (set_up st i c rd now rnd d t)
  then have "member_reached b ctx parse (Starting c)" using nth_mem by (fastforce simp: members_reached_def)
  from members_reached_update [OF set_up(7,2) start_reached [OF set_up(5) this set_up(4)]] show ?case .
next
  case (set_up_error st i c rd now rnd e t)
  from members_reached_update [OF set_up_error(7,2), of "Done (Some e)"] cancelMember_reached show ?case
    by (auto simp: members_reached_def)
next
  case (progress st i m)
  then have "member_reached b ctx parse (bsMembers st ! i)" by (simp add: members_reached_def)
  from members_reached_update [OF progress(6,2) member_step_reached [OF progress(3) this]] show ?case .
next
  case (returned st i c d s bt)
  from members_reached_update [OF returned(7,2)] show ?case by simp
next
  case (all_done st)
  then show ?case using members_reached_cancel [of b ctx parse "st\<lparr>bsPhase := Returned (bsFirst st)\<rparr>"]
    by (simp add: members_reached_def)
next
  case (timeout st)
  show ?case by (rule members_reached_cancel) (use timeout in \<open>simp add: members_reached_def\<close>)
qed (simp add: members_reached_def)

lemma brokered_members: "brokered b ctx parse st \<Longrightarrow> batched_ok b \<Longrightarrow> members_reached b ctx parse st"
  unfolding brokered_def
proof (induction rule: rtranclp_induct)
  case base
  show ?case by (simp add: members_reached_def startBroker_def)
next
  case (step s1 s2)
  then show ?case using members_reached_step brokered_inv by (auto simp: brokered_def)
qed

text \<open>The measure: what is still to be launched, and for each consumer how far its own program is.\<close>

fun memberRank :: "member \<Rightarrow> nat \<times> (nat \<times> nat \<times> nat) \<times> nat \<times> nat" where
  "memberRank (Starting c) = (2, (0, 0, 0), 0, 0)"
| "memberRank (Running c d s None) = (1, runRank s, 0, 0)"
| "memberRank (Running c d s (Some bt)) = (1, serviceRank (s, bt))"
| "memberRank (Done e) = (0, (0, 0, 0), 0, 0)"

definition memberOrder :: "(member \<times> member) set" where
  "memberOrder = inv_image (less_than <*lex*> (less_than <*lex*> less_than <*lex*> less_than) <*lex*> less_than <*lex*> less_than) memberRank"

fun launchRank :: "broker_phase \<Rightarrow> nat" where
  "launchRank Launching = 2"
| "launchRank Waiting = 1"
| "launchRank (Returned r) = 0"

definition brokerRank :: "broker_state \<Rightarrow> nat \<times> nat \<times> member list" where
  "brokerRank st = (if bsExternal st then 0 else 1, length (bsTodo st) + launchRank (bsPhase st), bsMembers st)"

abbreviation brokerOrder :: "((nat \<times> nat \<times> member list) \<times> nat \<times> nat \<times> member list) set" where
  "brokerOrder \<equiv> less_than <*lex*> less_than <*lex*> listrel1 memberOrder"

lemma wf_brokerOrder: "wf brokerOrder"
  unfolding memberOrder_def by (intro wf_lex_prod wf_less_than) (simp add: wf_lex_prod)

lemma running_rank: "(Done e, Running c d s bt) \<in> memberOrder" "(Running c d s bt, Starting c') \<in> memberOrder"
  "(Done e, Starting c') \<in> memberOrder"
  by (cases bt; simp add: memberOrder_def)+

lemma member_decreases:
  assumes "member_step ctx parse m m'" and "member_reached b ctx parse m" and "member_ok True m"
  shows "(m', m) \<in> memberOrder"
  using assms
proof (induction rule: member_step.induct)
  case (plain c d s s')
  with cancelled_step [OF plain(1)] reached_inv show ?case by (simp add: memberOrder_def)
next
  case (batched c d s bt s' bt')
  with service_decreases [OF batched(1)] served_inv show ?case by (fastforce simp: memberOrder_def)
qed

lemma listrel1_update:
  assumes "i < length ms" and "(m', ms ! i) \<in> r"
  shows "(ms[i := m'], ms) \<in> listrel1 r"
  by (rule listrel1I [OF assms(2) upd_conv_take_nth_drop [OF assms(1)] id_take_nth_drop [OF assms(1)]])

lemma cancel_cancelled: "\<forall>m \<in> set ms. member_ok True m \<Longrightarrow> map cancelMember ms = ms"
proof (rule map_idI)
  fix m assume "\<forall>m \<in> set ms. member_ok True m" "m \<in> set ms"
  then show "cancelMember m = m" by (cases m) auto
qed

lemma broker_decreases:
  assumes "broker_step b ctx parse st st'" and "broker_inv b st" and "members_reached b ctx parse st" and "bsCancelled st"
  shows "(brokerRank st', brokerRank st) \<in> brokerOrder \<and> bsCancelled st'"
  using assms
proof (induction rule: broker_step.induct)
  case (set_up st i c rd now rnd d t)
  from listrel1_update [OF set_up(2), of "startMember c d (bsCancelled st) t" memberOrder] set_up(3,7) running_rank(2)
  show ?case by (simp add: brokerRank_def startMember_def)
next
  case (set_up_error st i c rd now rnd e t)
  have "map cancelMember ((bsMembers st)[i := Done (Some e)]) = (bsMembers st)[i := Done (Some e)]"
    using set_up_error(5,7) by (intro cancel_cancelled) (auto simp: broker_inv_def dest!: set_list_update [OF set_up_error(2)])
  with listrel1_update [OF set_up_error(2), of "Done (Some e)" memberOrder] set_up_error(3) running_rank(3)
  show ?case by (simp add: brokerRank_def)
next
  case (progress st i m)
  have "member_reached b ctx parse (bsMembers st ! i)" using progress(2,5) by (simp add: members_reached_def)
  from member_decreases [OF progress(3) this] member_at [OF progress(4,2) refl] progress(6)
  have "(m, bsMembers st ! i) \<in> memberOrder" by simp
  from listrel1_update [OF progress(2) this] progress(6) show ?case by (simp add: brokerRank_def)
next
  case (returned st i c d s bt)
  from listrel1_update [OF returned(2), of "Done None" memberOrder] returned(3,7) running_rank(1)
  show ?case by (simp add: brokerRank_def)
qed (simp_all add: brokerRank_def)

lemma broker_run:
  assumes "(broker_step b ctx parse)\<^sup>*\<^sup>* st st'" and "brokered b ctx parse st" and "batched_ok b" and "bsCancelled st"
  shows "brokered b ctx parse st' \<and> bsCancelled st'"
  using assms(1)
proof (induction rule: rtranclp_induct)
  case (step x y)
  then have x: "brokered b ctx parse x" "bsCancelled x" by simp_all
  from broker_decreases [OF step(2) brokered_inv [OF x(1)] brokered_members [OF x(1) assms(3)] x(2)] x(1) step(2)
  show ?case unfolding brokered_def by (meson rtranclp.rtrancl_into_rtrancl)
qed (use assms in simp)

lemma broker_terminates:
  assumes "brokered b ctx parse (f 0)" and "batched_ok b" and "bsCancelled (f 0)"
    and "\<And>k. broker_step b ctx parse (f k) (f (Suc k))"
  shows False
proof -
  have inv: "brokered b ctx parse (f k) \<and> bsCancelled (f k)" for k
  proof (induction k)
    case (Suc k)
    then have k: "brokered b ctx parse (f k)" "bsCancelled (f k)" by simp_all
    from broker_run [OF r_into_rtranclp [of "broker_step b ctx parse", OF assms(4)] k(1) assms(2) k(2)] show ?case .
  qed (use assms in simp)
  have "(f (Suc k), f k) \<in> inv_image brokerOrder brokerRank" for k
  proof -
    have k: "brokered b ctx parse (f k)" "bsCancelled (f k)" using inv by simp_all
    from broker_decreases [OF assms(4) brokered_inv [OF k(1)] brokered_members [OF k(1) assms(2)] k(2)]
    show ?thesis by simp
  qed
  moreover have "wf (inv_image brokerOrder brokerRank)" by (rule wf_inv_image [OF wf_brokerOrder])
  ultimately show False unfolding wf_iff_no_infinite_down_chain by blast
qed

text \<open>A consumer at work can take a step, or has returned from its run, or has panicked.\<close>

lemma running_cases:
  obtains "running ph" | "ph = Finished" | p where "ph = Crashed p"
  by (cases ph) (auto simp: running_def)

lemma member_progress:
  assumes "member_reached b ctx parse m" and "member_ok True m" and "\<not> crashed m"
  shows "(\<exists>m'. member_step ctx parse m m') \<or> (\<exists>c. m = Starting c) \<or> (\<exists>e. m = Done e) \<or>
    (\<exists>c d s bt. m = Running c d s bt \<and> rsPhase s = Finished)"
proof (cases m)
  case (Running c d s bt)
  show ?thesis
  proof (cases rule: running_cases [of "rsPhase s"])
    case 1
    show ?thesis
    proof (cases bt)
      case None
      with assms(1,2) Running have r: "reached c d ctx parse s" "rsCancelled s" by simp_all
      from cancelled_progress [OF r 1] obtain s' where s': "run_step c d ctx parse s s'" by blast
      from cancelled_step [OF s' r(2) reached_inv [OF r(1)]] r(2) have "rsCancelled s' = rsCancelled s" by simp
      from member_step.plain [OF s' this] Running None show ?thesis by blast
    next
      case (Some b')
      with assms(1,2) Running have r: "served c d ctx parse (s, b')" "rsCancelled s" "polite (dHandler d)" by simp_all
      from service_progress [OF r(1,2) 1 r(3)] obtain s' b'' where s': "service_step c d ctx parse (s, b') (s', b'')" by auto
      from service_decreases [OF s'] served_inv [OF r(1)] r(2) have "rsCancelled s' = rsCancelled s" by simp
      from member_step.batched [OF s' this] Running Some show ?thesis by blast
    qed
  next
    case 2
    with Running show ?thesis by blast
  next
    case (3 p)
    with Running assms(3) show ?thesis by (simp add: crashed_def)
  qed
qed simp_all

lemma broker_progress:
  assumes "brokered b ctx parse st" and "batched_ok b" and "bsCancelled st" and "alive st"
    and "\<nexists>st'. broker_step b ctx parse st st'"
  shows "(\<forall>m \<in> set (bsMembers st). \<exists>e. m = Done e) \<and> (\<exists>r. bsPhase st = Returned r)"
proof
  note inv = brokered_inv [OF assms(1)] and reach = brokered_members [OF assms(1,2)]
  show all: "\<forall>m \<in> set (bsMembers st). \<exists>e. m = Done e"
  proof
    fix m assume "m \<in> set (bsMembers st)"
    then obtain i where i: "i < length (bsMembers st)" "bsMembers st ! i = m" by (auto simp: in_set_conv_nth)
    have m: "member_reached b ctx parse m" "member_ok True m" "\<not> crashed m"
      using \<open>m \<in> set (bsMembers st)\<close> reach inv assms(3,4)
      by (auto simp: members_reached_def broker_inv_def alive_def list_ex_iff)
    have "\<not> member_step ctx parse m m'" for m'
      using broker_step.progress [OF assms(4) i(1)] i(2) assms(5) by blast
    moreover have "m \<noteq> Starting c" for c
    proof
      assume c: "m = Starting c"
      obtain r t where "runSetup c (\<lambda>t. Inr []) (\<lambda>t. 0) (\<lambda>n. Return 0) [] = (r, t)" by force
      then show False
        using broker_step.set_up [OF assms(4) i(1) i(2) [unfolded c]] broker_step.set_up_error [OF assms(4) i(1) i(2) [unfolded c]]
          assms(5) by (cases r) blast+
    qed
    moreover have "\<not> (m = Running c d s bt \<and> rsPhase s = Finished)" for c d s bt
      using broker_step.returned [OF assms(4) i(1)] i(2) assms(5) by blast
    ultimately show "\<exists>e. m = Done e" using member_progress [OF m] by blast
  qed
  have "bsPhase st \<noteq> Waiting" using broker_step.all_done [OF assms(4) _ all] assms(5) by blast
  moreover have "bsPhase st \<noteq> Launching"
  proof
    assume l: "bsPhase st = Launching"
    show False
    proof (cases "bsTodo st")
      case Nil
      with broker_step.launched [OF assms(4) l] assms(5) show False by blast
    next
      case (Cons r rs)
      with broker_step.launch [OF assms(4) l] broker_step.launch_error [OF assms(4) l] assms(5)
      show False by (cases "memberConsumer b r") blast+
    qed
  qed
  ultimately show "\<exists>r. bsPhase st = Returned r" by (cases "bsPhase st") auto
qed

text \<open>Every consumer is one of a route of the broker, and an error it is done with comes from its setup.\<close>

fun memberOf :: "broker \<Rightarrow> member \<Rightarrow> bool" where
  "memberOf b (Starting c) = (\<exists>r \<in> set (bkRoutes b). memberConsumer b r = Inr c)"
| "memberOf b (Running c d s bt) = (\<exists>r \<in> set (bkRoutes b). memberConsumer b r = Inr c \<and>
     (\<exists>rd now rnd t. runSetup c rd now rnd [] = (Inr d, t)) \<and> (dBatcher d \<longleftrightarrow> bt \<noteq> None))"
| "memberOf b (Done None) = True"
| "memberOf b (Done (Some e)) = (\<exists>r \<in> set (bkRoutes b). \<exists>c rd now rnd t. memberConsumer b r = Inr c \<and>
     runSetup c rd now rnd [] = (Inl e, t))"

lemma memberOf_cancel [simp]: "memberOf b (cancelMember m) = memberOf b m"
  by (cases m) simp_all

lemma memberOf_at:
  "\<forall>m \<in> set (bsMembers st). memberOf b m \<Longrightarrow> i < length (bsMembers st) \<Longrightarrow> bsMembers st ! i = m \<Longrightarrow> memberOf b m"
  using nth_mem by blast

lemma memberOf_update:
  "\<forall>m \<in> set (bsMembers st). memberOf b m \<Longrightarrow> i < length (bsMembers st) \<Longrightarrow> memberOf b x \<Longrightarrow>
   \<forall>m \<in> set ((bsMembers st)[i := x]). memberOf b m"
  by (auto dest: set_list_update)

lemma memberOf_step:
  assumes "broker_step b ctx parse st st'" and "broker_inv b st" and "\<forall>m \<in> set (bsMembers st). memberOf b m"
  shows "\<forall>m \<in> set (bsMembers st'). memberOf b m"
  using assms
proof (induction rule: broker_step.induct)
  case (launch st r rs c)
  then show ?case by (auto simp: broker_inv_def)
next
  case (set_up st i c rd now rnd d t)
  from memberOf_at [OF set_up(6,2,3)] set_up(4) have "memberOf b (startMember c d (bsCancelled st) t)"
    by (auto simp: startMember_def)
  from memberOf_update [OF set_up(6,2) this] show ?case by simp
next
  case (set_up_error st i c rd now rnd e t)
  from memberOf_at [OF set_up_error(6,2,3)] set_up_error(4) have "memberOf b (Done (Some e))" by simp blast
  from memberOf_update [OF set_up_error(6,2) this] show ?case by simp
next
  case (progress st i m)
  from memberOf_at [OF progress(5,2) refl] have "memberOf b (bsMembers st ! i)" .
  with progress(3) have "memberOf b m" by (cases rule: member_step.cases) auto
  from memberOf_update [OF progress(5,2) this] show ?case by simp
next
  case (returned st i c d s bt)
  from memberOf_update [OF returned(6,2), of "Done None"] show ?case by simp
qed simp_all

lemma brokered_members_of:
  assumes "brokered b ctx parse st" and "m \<in> set (bsMembers st)"
  shows "memberOf b m"
proof -
  from assms(1) have "\<forall>m \<in> set (bsMembers st). memberOf b m"
    unfolding brokered_def
  proof (induction rule: rtranclp_induct)
    case base
    show ?case by (simp add: startBroker_def)
  next
    case (step x y)
    have "brokered b ctx parse x" using step(1) by (simp add: brokered_def)
    from memberOf_step [OF step(2) brokered_inv [OF this] step(3)] show ?case .
  qed
  with assms(2) show ?thesis by blast
qed

lemma broker_rests:
  assumes "brokered b ctx parse st" and "batched_ok b" and "bsCancelled st"
    and "(broker_step b ctx parse)\<^sup>*\<^sup>* st st'" and "\<nexists>st''. broker_step b ctx parse st' st''"
  shows "(\<exists>m \<in> set (bsMembers st'). crashed m) \<or>
    ((\<forall>m \<in> set (bsMembers st'). \<exists>e. m = Done e) \<and>
     (\<exists>r. bsPhase st' = Returned r \<and> (\<not> 0 <s bkShutdownTimeout b \<longrightarrow> r = bsFirst st')))"
proof (cases "alive st'")
  case True
  have r: "brokered b ctx parse st'" "bsCancelled st'" using broker_run [OF assms(4,1-3)] by blast+
  from broker_progress [OF r(1) assms(2) r(2) True] assms(5) obtain x where
    x: "\<forall>m \<in> set (bsMembers st'). \<exists>e. m = Done e" "bsPhase st' = Returned x" by blast
  moreover have "x = bsFirst st'" if "\<not> 0 <s bkShutdownTimeout b"
    using brokered_return [OF r(1) that] x(2) by (simp add: return_inv_def)
  ultimately show ?thesis by blast
qed (auto simp: alive_def list_ex_iff)

text \<open>
  C8: The broker stops. Once its context is cancelled, by the caller or because a consumer failed, the whole
  program, the broker with all its pollers, workers, delete senders and the backpressure between them, has no
  infinite run and no deadlock: it comes to rest only when a goroutine has panicked, or every consumer is
  done and \<open>Run\<close> has returned, without a shutdown timeout with the first error that was recorded.
\<close>

theorem broker_stops:
  assumes "brokered b ctx parse st" and "batched_ok b" and "bsCancelled st \<or> bsFirst st \<noteq> None"
  shows "(\<nexists>f. f 0 = st \<and> (\<forall>k. broker_step b ctx parse (f k) (f (Suc k)))) \<and>
    (\<forall>st'. (broker_step b ctx parse)\<^sup>*\<^sup>* st st' \<and> (\<nexists>st''. broker_step b ctx parse st' st'') \<longrightarrow>
       (\<exists>m \<in> set (bsMembers st'). crashed m) \<or>
       ((\<forall>m \<in> set (bsMembers st'). \<exists>e. m = Done e) \<and>
        (\<exists>r. bsPhase st' = Returned r \<and> (\<not> 0 <s bkShutdownTimeout b \<longrightarrow> r = bsFirst st'))))"
proof (intro conjI allI impI)
  have c: "bsCancelled st" using assms(3) brokered_inv [OF assms(1)] by (auto simp: broker_inv_def)
  show "\<nexists>f. f 0 = st \<and> (\<forall>k. broker_step b ctx parse (f k) (f (Suc k)))"
    using broker_terminates assms(1,2) c by metis
  show "(\<exists>m \<in> set (bsMembers st'). crashed m) \<or> ((\<forall>m \<in> set (bsMembers st'). \<exists>e. m = Done e) \<and>
        (\<exists>r. bsPhase st' = Returned r \<and> (\<not> 0 <s bkShutdownTimeout b \<longrightarrow> r = bsFirst st')))"
    if "(broker_step b ctx parse)\<^sup>*\<^sup>* st st' \<and> (\<nexists>st''. broker_step b ctx parse st' st'')" for st'
    using broker_rests [OF assms(1,2) c] that by blast
qed

definition batchedBroker :: broker where
  "batchedBroker = \<lparr>bkClient = coClient batchedConsumer, bkLog = NewLogger, bkRoutes = [Some batchedRoute],
     bkGlobals = [], bkRetryTimeout = second, bkShutdownTimeout = 0\<rparr>"

lemma batchedBroker_ok: "batched_ok batchedBroker"
proof -
  have "0 < batchCapacity d \<and> dHandler d = (\<lambda>c s. (HRet None, s))"
    if "memberConsumer batchedBroker (Some batchedRoute) = Inr c" "runSetup c rd now rnd [] = (Inr d, t)" for c rd now rnd d t
  proof -
    have "0 < sint (bkRetryTimeout batchedBroker)" by (simp add: batchedBroker_def second_def)
    with that(1) have c: "c = \<lparr>coClient = coClient batchedConsumer, coRoute = batchedRoute, coLog = NewLogger,
        coMetrics = None, coScheduler = None, coGlobals = [], coRetryTimeout = second\<rparr>"
      by (simp add: memberConsumer_Some) (simp add: batchedBroker_def)
    show ?thesis
      using that(2) unfolding c
      by (auto simp: runSetup_def batchedConsumer_def batchDeleteClient_def resolveQueueURL_def Let_def batchedRoute_def
        defaultRoute_def route_consts newDispatcher_def batchCapacity_def)
  qed
  then show ?thesis by (force simp: batched_ok_def polite_def batchedBroker_def)
qed

lemma broker_stops_witness:
  "\<exists>st. brokered batchedBroker exampleCtx (\<lambda>b. zero_envelope) st \<and> bsTodo st = [Some batchedRoute] \<and>
     (\<nexists>f. f 0 = st \<and> (\<forall>k. broker_step batchedBroker exampleCtx (\<lambda>b. zero_envelope) (f k) (f (Suc k))))"
proof -
  let ?st = "(cancelAll (startBroker batchedBroker))\<lparr>bsExternal := True\<rparr>"
  have "broker_step batchedBroker exampleCtx (\<lambda>b. zero_envelope) (startBroker batchedBroker) ?st"
    by (rule broker_step.external) (simp_all add: alive_def startBroker_def)
  then have "brokered batchedBroker exampleCtx (\<lambda>b. zero_envelope) ?st" unfolding brokered_def by blast
  from broker_stops [OF this batchedBroker_ok] this show ?thesis
    by (intro exI [of _ ?st]) (simp add: startBroker_def batchedBroker_def)
qed

end
