(* ===== verification/Producer.thy ===== *)
theory Producer
  imports Clients
begin

text \<open>
  The package \<open>producer\<close> (\<open>src/producer/producer.go\<close>, \<open>options.go\<close>, \<open>arn.go\<close>): building a
  producer, resolving the FIFO identifiers of a message with the configured generators, and
  publishing one message or a batch to SNS.

  The SNS client and the id generators are interfaces: functions of the events so far. A generator
  may also panic, as a composite generator with an overflowing suffix range does. Every call of
  either is an event, so the theorems can say which calls were made and in which order.
\<close>

section \<open>Types\<close>

text \<open>
  The answers of an \<open>SNSClient\<close>: \<open>Publish\<close> yields an output that may be nil, with a message id
  that may be nil; \<open>PublishBatch\<close> yields the accepted (id, message id) and the refused
  (id, code, text) entries, or a nil output.
\<close>

type_synonym batch_response =
  "(string option \<times> string option) list \<times> (string option \<times> string option \<times> string option) list"

record sns_client =
  snsPublish :: "trace \<Rightarrow> err + string option option"
  snsPublishBatch :: "trace \<Rightarrow> err + batch_response option"

type_synonym id_generator = "trace \<Rightarrow> string gomap \<Rightarrow> (err + string) outcome"

record publish_input =
  piAttributes :: "string gomap"
  piTopicARN :: string
  piMessage :: string
  piGroupID :: string
  piDeduplicationID :: string

record producer =
  pClient :: sns_client
  groupIDGen :: "id_generator option"
  dedupIDGen :: "id_generator option"

record publish_batch_entry =
  peAttributes :: "string gomap"
  peID :: string
  peMessage :: string
  peGroupID :: string
  peDeduplicationID :: string

text \<open>The batch holds pointers, so an entry may be nil.\<close>

record publish_batch_input =
  pbTopicARN :: string
  pbMessages :: "publish_batch_entry option list"

text \<open>The entries SNS accepted (entry id, message id) and those it refused (entry id, error).\<close>

record publish_batch_output =
  Successful :: "(string \<times> string) list"
  Failed :: "(string \<times> err) list"

definition maxBatchSize :: nat where "maxBatchSize = 10"

section \<open>Construction\<close>

datatype producer_option =
    WithGroupIDGenerator "id_generator option"
  | WithDeduplicationIDGenerator "id_generator option"

fun applyProducer :: "producer_option \<Rightarrow> producer \<Rightarrow> producer" where
  "applyProducer (WithGroupIDGenerator gen) p = (if gen \<noteq> None then p\<lparr>groupIDGen := gen\<rparr> else p)"
| "applyProducer (WithDeduplicationIDGenerator gen) p = (if gen \<noteq> None then p\<lparr>dedupIDGen := gen\<rparr> else p)"

definition NewProducer :: "sns_client option \<Rightarrow> producer_option option list \<Rightarrow> err + producer" where
  "NewProducer client opts = (case client of
     None \<Rightarrow> Inl (Sentinel ErrNoSNSClient)
   | Some cl \<Rightarrow> Inr (applySubs applyProducer opts
       \<lparr>pClient = cl, groupIDGen = None, dedupIDGen = None\<rparr>))"

section \<open>Identifiers and attributes\<close>

definition isFIFOTopic :: "string \<Rightarrow> bool" where
  "isFIFOTopic arn = hasSuffix arn ''.fifo''"

definition BuildTopicARN :: "string \<Rightarrow> string \<Rightarrow> string \<Rightarrow> string" where
  "BuildTopicARN region account name = ''arn:aws:sns:'' @ region @ '':'' @ account @ '':'' @ name"

text \<open>One of the two blocks of \<open>resolveIDs\<close>: an id that is missing is generated, if it can be.\<close>

definition generateID :: "string \<Rightarrow> id_generator option \<Rightarrow> string gomap \<Rightarrow> string \<Rightarrow> trace \<Rightarrow> string step" where
  "generateID role gen attrs ident t = (case gen of
     None \<Rightarrow> (Return (Inr ident), t)
   | Some g \<Rightarrow>
     if ident \<noteq> [] then (Return (Inr ident), t)
     else (let t = t @ [CallGenerate role attrs] in
       case g t attrs of
         Panic p \<Rightarrow> (Panic p, t)
       | Return (Inl e) \<Rightarrow> (Return (Inl (FmtW (''failed to generate '' @ role @ '' id: '') e)), t)
       | Return (Inr s) \<Rightarrow> (Return (Inr s), t)))"

definition resolveIDs :: "producer \<Rightarrow> bool \<Rightarrow> string \<Rightarrow> string \<Rightarrow> string gomap \<Rightarrow> trace \<Rightarrow> (string \<times> string) step" where
  "resolveIDs p fifo groupID dedupID attrs t =
     (if \<not> fifo then (Return (Inr (groupID, dedupID)), t)
      else andThen (generateID ''group'' (groupIDGen p) attrs groupID t) (\<lambda>g t.
           andThen (generateID ''deduplication'' (dedupIDGen p) attrs dedupID t) (\<lambda>d t.
           (Return (Inr (g, d)), t))))"

definition messageAttributes :: "string gomap \<Rightarrow> attr_value gomap" where
  "messageAttributes attrs =
     fold (\<lambda>(k, v) ma. store k \<lparr>dataType = ''String'', stringValue = v\<rparr> ma) attrs []"

text \<open>An optional field is set only when the text is not empty.\<close>

definition nonEmpty :: "string \<Rightarrow> string option" where
  "nonEmpty s = (if s \<noteq> [] then Some s else None)"

section \<open>Publish\<close>

definition publishRequest :: "publish_input \<Rightarrow> string \<Rightarrow> string \<Rightarrow> publish_request" where
  "publishRequest inp groupID dedupID =
     \<lparr>prMessage = piMessage inp, prTopicArn = piTopicARN inp,
      prMessageGroupId = nonEmpty groupID, prMessageDeduplicationId = nonEmpty dedupID,
      prMessageAttributes = (if 0 < length (piAttributes inp) then messageAttributes (piAttributes inp) else [])\<rparr>"

definition Publish :: "producer \<Rightarrow> publish_input option \<Rightarrow> trace \<Rightarrow> string step" where
  "Publish p input t = (case input of
     None \<Rightarrow> (Return (Inl (Sentinel ErrEmptyInput)), t)
   | Some inp \<Rightarrow>
     if piMessage inp = [] then (Return (Inl (Sentinel ErrEmptyInput)), t)
     else andThen (resolveIDs p (isFIFOTopic (piTopicARN inp)) (piGroupID inp) (piDeduplicationID inp)
                     (piAttributes inp) t)
       (\<lambda>(groupID, dedupID) t.
         let t = t @ [CallPublish (publishRequest inp groupID dedupID)] in
         case snsPublish (pClient p) t of
           Inl e \<Rightarrow> (Return (Inl (FmtW (''failed to publish message to topic '' @ piTopicARN inp @ '': '') e)), t)
         | Inr out \<Rightarrow> (Return (Inr (case out of Some (Some ident) \<Rightarrow> ident | _ \<Rightarrow> [])), t)))"

section \<open>PublishBatch\<close>

definition batchEntry :: "publish_batch_entry \<Rightarrow> string \<Rightarrow> string \<Rightarrow> batch_request_entry" where
  "batchEntry msg groupID dedupID =
     \<lparr>brId = peID msg, brMessage = peMessage msg,
      brMessageGroupId = nonEmpty groupID, brMessageDeduplicationId = nonEmpty dedupID,
      brMessageAttributes = (if 0 < length (peAttributes msg) then messageAttributes (peAttributes msg) else [])\<rparr>"

text \<open>The loop over the messages; dereferencing a nil entry panics.\<close>

fun batchEntries :: "producer \<Rightarrow> bool \<Rightarrow> publish_batch_entry option list \<Rightarrow> batch_request_entry list \<Rightarrow>
    trace \<Rightarrow> batch_request_entry list step" where
  "batchEntries p fifo [] entries t = (Return (Inr entries), t)"
| "batchEntries p fifo (None # msgs) entries t = (Panic nilDeref, t)"
| "batchEntries p fifo (Some msg # msgs) entries t =
     andThen (resolveIDs p fifo (peGroupID msg) (peDeduplicationID msg) (peAttributes msg) t)
       (\<lambda>(groupID, dedupID) t. batchEntries p fifo msgs (entries @ [batchEntry msg groupID dedupID]) t)"

definition batchEntryError :: "string option \<Rightarrow> string option \<Rightarrow> err" where
  "batchEntryError code text = Fmt ''%s: %s'' [ArgStr (toString code), ArgStr (toString text)]"

definition mapBatchOutput :: "batch_response option \<Rightarrow> publish_batch_output" where
  "mapBatchOutput out = (case out of
     None \<Rightarrow> \<lparr>Successful = [], Failed = []\<rparr>
   | Some (succ, fails) \<Rightarrow>
     \<lparr>Successful = map (\<lambda>(i, m). (toString i, toString m)) succ,
      Failed = map (\<lambda>(i, code, text). (toString i, batchEntryError code text)) fails\<rparr>)"

text \<open>The call itself, once every entry is built.\<close>

definition publishEntries :: "producer \<Rightarrow> string \<Rightarrow> batch_request_entry list \<Rightarrow> trace \<Rightarrow> publish_batch_output step" where
  "publishEntries p arn entries t =
     (let t = t @ [CallPublishBatch arn entries] in
      case snsPublishBatch (pClient p) t of
        Inl e \<Rightarrow> (Return (Inl (FmtW (''failed to publish batch to topic '' @ arn @ '': '') e)), t)
      | Inr out \<Rightarrow> (Return (Inr (mapBatchOutput out)), t))"

definition PublishBatch :: "producer \<Rightarrow> publish_batch_input option \<Rightarrow> trace \<Rightarrow> publish_batch_output step" where
  "PublishBatch p input t = (case input of
     None \<Rightarrow> (Return (Inl (Sentinel ErrEmptyInput)), t)
   | Some inp \<Rightarrow>
     if length (pbMessages inp) = 0 then (Return (Inl (Sentinel ErrEmptyInput)), t)
     else if maxBatchSize < length (pbMessages inp) then (Return (Inl (Sentinel ErrMaxBatchSize)), t)
     else andThen (batchEntries p (isFIFOTopic (pbTopicARN inp)) (pbMessages inp) [] t)
       (publishEntries p (pbTopicARN inp)))"

section \<open>Attributes and identifiers\<close>

lemma fold_store_lookup:
  "wf_map m \<Longrightarrow> lookup (fold (\<lambda>(k, v) a. store k (f v) a) m acc) k =
     (case lookup m k of None \<Rightarrow> lookup acc k | Some v \<Rightarrow> Some (f v))"
proof (induction m arbitrary: acc)
  case (Cons p m)
  obtain k' v' where p: "p = (k', v')" by force
  from Cons.prems have "wf_map m" "k' \<notin> fst ` set m" by (simp_all add: wf_map_def p)
  then show ?case
    using Cons.IH [of "store k' (f v') acc"]
    by (cases "k = k'") (simp_all add: p map_of_eq_None_iff [THEN iffD2] split: option.split)
qed simp

lemma lookup_messageAttributes:
  "wf_map attrs \<Longrightarrow> lookup (messageAttributes attrs) k =
     map_option (\<lambda>v. \<lparr>dataType = ''String'', stringValue = v\<rparr>) (lookup attrs k)"
  unfolding messageAttributes_def by (subst fold_store_lookup) (simp_all split: option.split)

text \<open>Events that are calls of an id generator on the given attributes.\<close>

definition generates :: "string gomap \<Rightarrow> event \<Rightarrow> bool" where
  "generates attrs e \<longleftrightarrow> e = CallGenerate ''group'' attrs \<or> e = CallGenerate ''deduplication'' attrs"

text \<open>
  What an id becomes: kept when it was given or there is no generator, otherwise the answer of the
  generator to one recorded call.
\<close>

definition resolvedBy :: "string \<Rightarrow> id_generator option \<Rightarrow> string gomap \<Rightarrow> string \<Rightarrow> trace \<Rightarrow> trace \<Rightarrow> string \<Rightarrow> bool" where
  "resolvedBy role gen attrs ident t t' s \<longleftrightarrow>
     (if ident \<noteq> [] \<or> gen = None then s = ident \<and> t' = t
      else t' = t @ [CallGenerate role attrs] \<and> the gen t' attrs = Return (Inr s))"

lemma generateID_Inr:
  "generateID role gen attrs ident t = (Return (Inr s), t') \<longleftrightarrow> resolvedBy role gen attrs ident t t' s"
  by (cases gen) (auto simp: generateID_def resolvedBy_def Let_def split: outcome.splits sum.splits)

lemma generateID_trace:
  "snd (generateID role gen attrs ident t) = t \<or>
   snd (generateID role gen attrs ident t) = t @ [CallGenerate role attrs]"
  by (auto simp: generateID_def Let_def split: option.splits outcome.splits sum.splits if_splits)

lemma resolveIDs_Inr:
  "resolveIDs p True g d attrs t = (Return (Inr (g', d')), t') \<longleftrightarrow>
    (\<exists>t1. resolvedBy ''group'' (groupIDGen p) attrs g t t1 g' \<and>
       resolvedBy ''deduplication'' (dedupIDGen p) attrs d t1 t' d')"
  by (auto simp: resolveIDs_def andThen_Inr_iff generateID_Inr)

lemma resolveIDs_plain [simp]: "resolveIDs p False g d attrs t = (Return (Inr (g, d)), t)"
  by (simp add: resolveIDs_def)

lemma andThen_trace:
  assumes "andThen s k = (r, t')"
  obtains x t where "s = (Return (Inr x), t)" "k x t = (r, t')"
  | "snd s = t'" "\<And>x. fst s \<noteq> Return (Inr x)"
  using assms by (cases "(s, k)" rule: andThen.cases) auto

lemma resolveIDs_trace:
  assumes "resolveIDs p fifo g d attrs t = (r, t')"
  shows "\<exists>es. t' = t @ es \<and> (\<forall>e \<in> set es. generates attrs e)"
proof (cases fifo)
  case True
  with assms have "andThen (generateID ''group'' (groupIDGen p) attrs g t) (\<lambda>g t.
      andThen (generateID ''deduplication'' (dedupIDGen p) attrs d t) (\<lambda>d t. (Return (Inr (g, d)), t))) = (r, t')"
    by (simp add: resolveIDs_def)
  then show ?thesis
  proof (cases rule: andThen_trace)
    case (1 g' t1)
    from 1(2) have "t' = snd (generateID ''deduplication'' (dedupIDGen p) attrs d t1)"
      by (cases rule: andThen_trace) auto
    then have "t' = t1 \<or> t' = t1 @ [CallGenerate ''deduplication'' attrs]"
      using generateID_trace [of "''deduplication''" "dedupIDGen p" attrs d t1] by blast
    moreover have "t1 = t \<or> t1 = t @ [CallGenerate ''group'' attrs]"
      using generateID_trace [of "''group''" "groupIDGen p" attrs g t] 1(1) by (metis snd_conv)
    ultimately show ?thesis by (auto simp: generates_def)
  next
    case 2
    then have "t' = t \<or> t' = t @ [CallGenerate ''group'' attrs]"
      using generateID_trace [of "''group''" "groupIDGen p" attrs g t] by metis
    then show ?thesis by (auto simp: generates_def)
  qed
qed (use assms in simp)

section \<open>Publishing\<close>

fun publishes :: "trace \<Rightarrow> publish_request list" where
  "publishes [] = []"
| "publishes (CallPublish r # t) = r # publishes t"
| "publishes (e # t) = publishes t"

fun batchCalls :: "trace \<Rightarrow> (string \<times> batch_request_entry list) list" where
  "batchCalls [] = []"
| "batchCalls (CallPublishBatch arn es # t) = (arn, es) # batchCalls t"
| "batchCalls (e # t) = batchCalls t"

lemma publishes_append [simp]: "publishes (s @ t) = publishes s @ publishes t"
  by (induction s rule: publishes.induct) simp_all

lemma batchCalls_append [simp]: "batchCalls (s @ t) = batchCalls s @ batchCalls t"
  by (induction s rule: batchCalls.induct) simp_all

lemma generates_readers:
  "\<forall>e \<in> set es. \<exists>attrs. generates attrs e \<Longrightarrow> publishes es = [] \<and> batchCalls es = []"
proof (induction es)
  case (Cons e es)
  then obtain attrs where "generates attrs e" by (meson list.set_intros(1))
  then have "\<exists>role. e = CallGenerate role attrs" unfolding generates_def by blast
  with Cons show ?case by fastforce
qed simp

text \<open>A publish that passes the guards, by the outcome of the identifiers.\<close>

lemma Publish_resolved:
  assumes "piMessage inp \<noteq> []"
    and "resolveIDs p (isFIFOTopic (piTopicARN inp)) (piGroupID inp) (piDeduplicationID inp) (piAttributes inp) t =
      (Return (Inr (g, d)), t1)"
  shows "snd (Publish p (Some inp) t) = t1 @ [CallPublish (publishRequest inp g d)]"
    "fst (Publish p (Some inp) t) = (case snsPublish (pClient p) (t1 @ [CallPublish (publishRequest inp g d)]) of
       Inl e \<Rightarrow> Return (Inl (FmtW (''failed to publish message to topic '' @ piTopicARN inp @ '': '') e))
     | Inr out \<Rightarrow> Return (Inr (case out of Some (Some ident) \<Rightarrow> ident | _ \<Rightarrow> [])))"
  using assms by (simp_all add: Publish_def Let_def split: sum.split)

lemma Publish_unresolved:
  assumes "piMessage inp \<noteq> []"
    and "resolveIDs p (isFIFOTopic (piTopicARN inp)) (piGroupID inp) (piDeduplicationID inp) (piAttributes inp) t = (r, t1)"
    and "\<And>x. r \<noteq> Return (Inr x)"
  shows "snd (Publish p (Some inp) t) = t1" "fst (Publish p (Some inp) t) \<noteq> Return (Inr y)"
proof -
  obtain e where "r = Return (Inl e) \<or> (\<exists>x. r = Panic x)"
    using assms(3) by (cases r) (metis sum.exhaust_sel, blast)
  then show "snd (Publish p (Some inp) t) = t1" "fst (Publish p (Some inp) t) \<noteq> Return (Inr y)"
    using assms(1,2) by (auto simp: Publish_def)
qed

lemma resolved_ids:
  assumes "resolveIDs p fifo g d attrs t = (Return (Inr (g', d')), t')"
  shows "\<not> fifo \<longrightarrow> g' = g \<and> d' = d \<and> t' = t"
    "g \<noteq> [] \<longrightarrow> g' = g" "d \<noteq> [] \<longrightarrow> d' = d"
    "fifo \<and> g = [] \<and> groupIDGen p = Some gen \<longrightarrow>
       gen (t @ [CallGenerate ''group'' attrs]) attrs = Return (Inr g')"
    "fifo \<and> d = [] \<and> dedupIDGen p = Some gen \<longrightarrow> gen t' attrs = Return (Inr d')"
proof -
  have r: "\<exists>t1. resolvedBy ''group'' (groupIDGen p) attrs g t t1 g' \<and>
       resolvedBy ''deduplication'' (dedupIDGen p) attrs d t1 t' d'" if fifo
    using assms that resolveIDs_Inr by simp
  show "\<not> fifo \<longrightarrow> g' = g \<and> d' = d \<and> t' = t" using assms by auto
  then show "g \<noteq> [] \<longrightarrow> g' = g" "d \<noteq> [] \<longrightarrow> d' = d"
    using r by (cases fifo; auto simp: resolvedBy_def)+
  show "fifo \<and> g = [] \<and> groupIDGen p = Some gen \<longrightarrow>
       gen (t @ [CallGenerate ''group'' attrs]) attrs = Return (Inr g')"
    "fifo \<and> d = [] \<and> dedupIDGen p = Some gen \<longrightarrow> gen t' attrs = Return (Inr d')"
    using r by (auto simp: resolvedBy_def)
qed

lemma Publish_once:
  assumes "Publish p (Some inp) t = (Return (Inr ident), t')"
  shows "\<exists>es g d. t' = t @ es @ [CallPublish (publishRequest inp g d)] \<and>
    (\<forall>e \<in> set es. generates (piAttributes inp) e) \<and>
    resolveIDs p (isFIFOTopic (piTopicARN inp)) (piGroupID inp) (piDeduplicationID inp) (piAttributes inp) t =
      (Return (Inr (g, d)), t @ es) \<and>
    (piGroupID inp \<noteq> [] \<longrightarrow> g = piGroupID inp) \<and>
    (\<exists>out. snsPublish (pClient p) t' = Inr out \<and> ident = (case out of Some (Some i) \<Rightarrow> i | _ \<Rightarrow> []))"
proof -
  let ?ids = "resolveIDs p (isFIFOTopic (piTopicARN inp)) (piGroupID inp) (piDeduplicationID inp) (piAttributes inp) t"
  have msg: "piMessage inp \<noteq> []" using assms by (auto simp: Publish_def)
  obtain r t1 where ids: "?ids = (r, t1)" by force
  obtain g d where r: "r = Return (Inr (g, d))"
    using Publish_unresolved(2) [OF msg ids] assms by (metis fst_conv prod.exhaust)
  note ids = ids [unfolded r]
  from resolveIDs_trace [OF ids] obtain es where es: "t1 = t @ es" "\<forall>e \<in> set es. generates (piAttributes inp) e"
    by blast
  have t': "t' = t @ es @ [CallPublish (publishRequest inp g d)]"
    using Publish_resolved(1) [OF msg ids] assms es(1) by simp
  have "\<exists>out. snsPublish (pClient p) t' = Inr out \<and> ident = (case out of Some (Some i) \<Rightarrow> i | _ \<Rightarrow> [])"
    using Publish_resolved(2) [OF msg ids] assms es(1) t' by (auto split: sum.splits)
  with t' es(2) ids es(1) resolved_ids(2) [OF ids] show ?thesis by blast
qed

text \<open>
  C32: A message that is published is the message it was given: a successful \<open>Publish\<close> makes exactly
  one SNS call, with the same text, topic and attributes (as \<open>String\<close> values); an id that was given
  is sent unchanged, on a standard topic nothing is generated, and on a FIFO topic a missing id is
  what the configured generator answered. The id returned is the one SNS assigned.
\<close>

theorem publish_sends_the_message:
  assumes "Publish p (Some inp) t = (Return (Inr ident), t')" and "wf_map (piAttributes inp)"
  shows "\<exists>es req. t' = t @ es @ [CallPublish req] \<and> (\<forall>e \<in> set es. generates (piAttributes inp) e) \<and>
    prMessage req = piMessage inp \<and> prTopicArn req = piTopicARN inp \<and>
    (\<forall>k. lookup (prMessageAttributes req) k =
       map_option (\<lambda>v. \<lparr>dataType = ''String'', stringValue = v\<rparr>) (lookup (piAttributes inp) k)) \<and>
    (piGroupID inp \<noteq> [] \<longrightarrow> prMessageGroupId req = Some (piGroupID inp)) \<and>
    (piDeduplicationID inp \<noteq> [] \<longrightarrow> prMessageDeduplicationId req = Some (piDeduplicationID inp)) \<and>
    (\<not> isFIFOTopic (piTopicARN inp) \<longrightarrow> es = [] \<and> prMessageGroupId req = nonEmpty (piGroupID inp) \<and>
       prMessageDeduplicationId req = nonEmpty (piDeduplicationID inp)) \<and>
    (\<forall>gen. isFIFOTopic (piTopicARN inp) \<and> piGroupID inp = [] \<and> groupIDGen p = Some gen \<longrightarrow>
       (\<exists>g. gen (t @ [CallGenerate ''group'' (piAttributes inp)]) (piAttributes inp) = Return (Inr g) \<and>
          prMessageGroupId req = nonEmpty g)) \<and>
    (\<forall>gen. isFIFOTopic (piTopicARN inp) \<and> piDeduplicationID inp = [] \<and> dedupIDGen p = Some gen \<longrightarrow>
       (\<exists>d. gen (t @ es) (piAttributes inp) = Return (Inr d) \<and>
          prMessageDeduplicationId req = nonEmpty d)) \<and>
    (\<exists>out. snsPublish (pClient p) t' = Inr out \<and> ident = (case out of Some (Some i) \<Rightarrow> i | _ \<Rightarrow> []))"
proof -
  from Publish_once [OF assms(1)] obtain es g d where t': "t' = t @ es @ [CallPublish (publishRequest inp g d)]"
    and es: "\<forall>e \<in> set es. generates (piAttributes inp) e"
    and ids: "resolveIDs p (isFIFOTopic (piTopicARN inp)) (piGroupID inp) (piDeduplicationID inp) (piAttributes inp) t =
      (Return (Inr (g, d)), t @ es)"
    and out: "\<exists>out. snsPublish (pClient p) t' = Inr out \<and> ident = (case out of Some (Some i) \<Rightarrow> i | _ \<Rightarrow> [])"
    by blast
  let ?req = "publishRequest inp g d"
  have attrs: "lookup (prMessageAttributes ?req) k =
      map_option (\<lambda>v. \<lparr>dataType = ''String'', stringValue = v\<rparr>) (lookup (piAttributes inp) k)" for k
    using assms(2) by (simp add: publishRequest_def lookup_messageAttributes)
  note res = resolved_ids [OF ids]
  have req: "prMessage ?req = piMessage inp" "prTopicArn ?req = piTopicARN inp"
    "prMessageGroupId ?req = nonEmpty g" "prMessageDeduplicationId ?req = nonEmpty d"
    by (simp_all add: publishRequest_def)
  show ?thesis
  proof (intro exI [of _ es] exI [of _ ?req] conjI)
    show "piGroupID inp \<noteq> [] \<longrightarrow> prMessageGroupId ?req = Some (piGroupID inp)"
      "piDeduplicationID inp \<noteq> [] \<longrightarrow> prMessageDeduplicationId ?req = Some (piDeduplicationID inp)"
      using res(2,3) by (simp_all add: publishRequest_def nonEmpty_def)
    show "\<not> isFIFOTopic (piTopicARN inp) \<longrightarrow> es = [] \<and> prMessageGroupId ?req = nonEmpty (piGroupID inp) \<and>
       prMessageDeduplicationId ?req = nonEmpty (piDeduplicationID inp)"
      using res(1) by (simp add: publishRequest_def)
    show "\<forall>gen. isFIFOTopic (piTopicARN inp) \<and> piGroupID inp = [] \<and> groupIDGen p = Some gen \<longrightarrow>
       (\<exists>g'. gen (t @ [CallGenerate ''group'' (piAttributes inp)]) (piAttributes inp) = Return (Inr g') \<and>
          prMessageGroupId ?req = nonEmpty g')"
      using res(4) by (auto simp: publishRequest_def)
    show "\<forall>gen. isFIFOTopic (piTopicARN inp) \<and> piDeduplicationID inp = [] \<and> dedupIDGen p = Some gen \<longrightarrow>
       (\<exists>d'. gen (t @ es) (piAttributes inp) = Return (Inr d') \<and> prMessageDeduplicationId ?req = nonEmpty d')"
      using res(5) by (auto simp: publishRequest_def)
  qed (use t' es out attrs req in blast)+
qed

definition exampleProducer :: producer where
  "exampleProducer = \<lparr>pClient = \<lparr>snsPublish = (\<lambda>t. Inr (Some (Some ''mid''))), snsPublishBatch = (\<lambda>t. Inr None)\<rparr>,
     groupIDGen = Some (\<lambda>t m. Return (Inr ''g1'')), dedupIDGen = None\<rparr>"

definition exampleInput :: publish_input where
  "exampleInput = \<lparr>piAttributes = [(''k'', ''v'')], piTopicARN = ''t.fifo'', piMessage = ''hi'',
     piGroupID = [], piDeduplicationID = ''d''\<rparr>"

lemma examplePublish:
  "Publish exampleProducer (Some exampleInput) [] = (Return (Inr ''mid''),
     [CallGenerate ''group'' [(''k'', ''v'')], CallPublish (publishRequest exampleInput ''g1'' ''d'')])"
  by (simp add: Publish_def exampleProducer_def exampleInput_def resolveIDs_def generateID_def Let_def
      isFIFOTopic_def hasSuffix_def)

lemma publish_sends_the_message_witness:
  "wf_map (piAttributes exampleInput) \<and> (\<exists>es req. snd (Publish exampleProducer (Some exampleInput) []) = es @ [CallPublish req] \<and>
     prMessage req = ''hi'' \<and> prMessageDeduplicationId req = Some ''d'')"
proof -
  have wf: "wf_map (piAttributes exampleInput)" by (simp add: exampleInput_def wf_map_def)
  have "\<exists>es req. snd (Publish exampleProducer (Some exampleInput) []) = es @ [CallPublish req] \<and>
     prMessage req = piMessage exampleInput \<and>
     (piDeduplicationID exampleInput \<noteq> [] \<longrightarrow> prMessageDeduplicationId req = Some (piDeduplicationID exampleInput))"
    using publish_sends_the_message [OF examplePublish wf] by (metis append_Nil examplePublish snd_conv)
  with wf show ?thesis by (simp add: exampleInput_def)
qed

section \<open>Batches\<close>

text \<open>The request of \<open>Publish\<close> for one entry, and the input a message of a batch makes.\<close>

definition entryRequest :: "string \<Rightarrow> batch_request_entry \<Rightarrow> publish_request" where
  "entryRequest arn e = \<lparr>prMessage = brMessage e, prTopicArn = arn, prMessageGroupId = brMessageGroupId e,
     prMessageDeduplicationId = brMessageDeduplicationId e, prMessageAttributes = brMessageAttributes e\<rparr>"

definition singleInput :: "string \<Rightarrow> publish_batch_entry \<Rightarrow> publish_input" where
  "singleInput arn msg = \<lparr>piAttributes = peAttributes msg, piTopicARN = arn, piMessage = peMessage msg,
     piGroupID = peGroupID msg, piDeduplicationID = peDeduplicationID msg\<rparr>"

lemma entryRequest_batchEntry:
  "entryRequest arn (batchEntry msg g d) = publishRequest (singleInput arn msg) g d"
  by (simp add: entryRequest_def batchEntry_def publishRequest_def singleInput_def)

definition generated :: "trace \<Rightarrow> trace \<Rightarrow> bool" where
  "generated t t' \<longleftrightarrow> (\<exists>es. t' = t @ es \<and> (\<forall>e \<in> set es. \<exists>attrs. generates attrs e))"

lemma generated_refl [simp]: "generated t t"
  by (simp add: generated_def)

lemma generated_trans: "generated t t1 \<Longrightarrow> generated t1 t2 \<Longrightarrow> generated t t2"
  unfolding generated_def by (metis append.assoc Un_iff set_append)

lemma generated_readers: "generated t t' \<Longrightarrow> publishes t' = publishes t \<and> batchCalls t' = batchCalls t"
  using generates_readers by (auto simp: generated_def)

lemma resolveIDs_generated: "resolveIDs p fifo g d attrs t = (r, t') \<Longrightarrow> generated t t'"
  using resolveIDs_trace by (fastforce simp: generated_def)

text \<open>The entry a message becomes, resolved at some point between the start and the call.\<close>

definition resolvedEntry :: "producer \<Rightarrow> bool \<Rightarrow> trace \<Rightarrow> publish_batch_entry option \<Rightarrow> batch_request_entry \<Rightarrow> bool" where
  "resolvedEntry p fifo t m e \<longleftrightarrow> (\<exists>msg ti ti' g d. m = Some msg \<and> generated t ti \<and>
     resolveIDs p fifo (peGroupID msg) (peDeduplicationID msg) (peAttributes msg) ti = (Return (Inr (g, d)), ti') \<and>
     e = batchEntry msg g d)"

lemma resolvedEntry_later: "generated t t1 \<Longrightarrow> resolvedEntry p fifo t1 m e \<Longrightarrow> resolvedEntry p fifo t m e"
  unfolding resolvedEntry_def using generated_trans by blast

lemma batchEntries_generated: "batchEntries p fifo msgs acc t = (r, t') \<Longrightarrow> generated t t'"
proof (induction p fifo msgs acc t rule: batchEntries.induct)
  case (3 p fifo msg msgs entries t)
  let ?ids = "resolveIDs p fifo (peGroupID msg) (peDeduplicationID msg) (peAttributes msg) t"
  obtain r1 t1 where ids: "?ids = (r1, t1)" by force
  note g = resolveIDs_generated [OF ids]
  from 3(2) show ?case unfolding batchEntries.simps
  proof (cases rule: andThen_trace)
    case (1 x t2)
    obtain g' d' where x: "x = (g', d')" by force
    have "batchEntries p fifo msgs (entries @ [batchEntry msg g' d']) t2 = (r, t')"
      using 1(2) x by simp
    from 3(1) [OF 1(1) x [symmetric] this] resolveIDs_generated [OF 1(1)] show ?thesis
      by (rule generated_trans [rotated])
  next
    case 2
    then show ?thesis using g ids by simp
  qed
qed auto

lemma batchEntries_Inr:
  "batchEntries p fifo msgs acc t = (Return (Inr entries), t') \<Longrightarrow>
   \<exists>new. entries = acc @ new \<and> list_all2 (resolvedEntry p fifo t) msgs new"
proof (induction p fifo msgs acc t rule: batchEntries.induct)
  case (3 p fifo msg msgs acc t)
  let ?ids = "resolveIDs p fifo (peGroupID msg) (peDeduplicationID msg) (peAttributes msg) t"
  from 3(2) obtain g d t1 where ids: "?ids = (Return (Inr (g, d)), t1)"
    and rest: "batchEntries p fifo msgs (acc @ [batchEntry msg g d]) t1 = (Return (Inr entries), t')"
    by (auto simp: andThen_Inr_iff)
  from 3(1) [OF ids refl rest] obtain new where new: "entries = (acc @ [batchEntry msg g d]) @ new"
    "list_all2 (resolvedEntry p fifo t1) msgs new" by blast
  have "list_all2 (resolvedEntry p fifo t) msgs new"
    using new(2) resolvedEntry_later [OF resolveIDs_generated [OF ids]] by (rule list_all2_mono)
  moreover have "resolvedEntry p fifo t (Some msg) (batchEntry msg g d)"
    unfolding resolvedEntry_def using ids generated_refl by blast
  ultimately show ?case using new(1) by auto
qed auto

lemma publishEntries_result:
  assumes "publishEntries p arn entries t = (r, t')"
  shows "t' = t @ [CallPublishBatch arn entries]"
    "case snsPublishBatch (pClient p) t' of
        Inl e \<Rightarrow> \<exists>text. r = Return (Inl (FmtW text e))
      | Inr resp \<Rightarrow> r = Return (Inr (mapBatchOutput resp))"
  using assms by (auto simp: publishEntries_def Let_def split: sum.splits)

text \<open>
  C33: A batch is its messages, published together: a successful \<open>PublishBatch\<close> makes one SNS call
  whose entries stand in the order of the messages, each with its message's id; and each non-empty
  entry is the very request \<open>Publish\<close> would have made for that message on the same topic, at a
  point where only generators have been called since the batch began.
\<close>

theorem batch_is_its_messages:
  assumes "PublishBatch p (Some inp) t = (Return (Inr out), t')"
  shows "\<exists>t1 entries. generated t t1 \<and> t' = t1 @ [CallPublishBatch (pbTopicARN inp) entries] \<and>
    list_all2 (\<lambda>m e. \<exists>msg ti. m = Some msg \<and> brId e = peID msg \<and> generated t ti \<and>
        (peMessage msg \<noteq> [] \<longrightarrow> (\<exists>ti'. generated ti ti' \<and>
           snd (Publish p (Some (singleInput (pbTopicARN inp) msg)) ti) =
             ti' @ [CallPublish (entryRequest (pbTopicARN inp) e)])))
      (pbMessages inp) entries"
proof -
  let ?fifo = "isFIFOTopic (pbTopicARN inp)"
  from assms obtain entries t1 where es: "batchEntries p ?fifo (pbMessages inp) [] t = (Return (Inr entries), t1)"
    and t': "t' = t1 @ [CallPublishBatch (pbTopicARN inp) entries]"
    by (auto simp: PublishBatch_def andThen_Inr_iff dest: publishEntries_result(1) split: if_splits)
  have "list_all2 (resolvedEntry p ?fifo t) (pbMessages inp) entries"
    using batchEntries_Inr [OF es] by simp
  then have "list_all2 (\<lambda>m e. \<exists>msg ti. m = Some msg \<and> brId e = peID msg \<and> generated t ti \<and>
        (peMessage msg \<noteq> [] \<longrightarrow> (\<exists>ti'. generated ti ti' \<and>
           snd (Publish p (Some (singleInput (pbTopicARN inp) msg)) ti) =
             ti' @ [CallPublish (entryRequest (pbTopicARN inp) e)]))) (pbMessages inp) entries"
  proof (rule list_all2_mono)
    fix m e
    assume "resolvedEntry p ?fifo t m e"
    then obtain msg ti ti' g d where m: "m = Some msg" "generated t ti" "e = batchEntry msg g d"
      and ids: "resolveIDs p ?fifo (peGroupID msg) (peDeduplicationID msg) (peAttributes msg) ti = (Return (Inr (g, d)), ti')"
      unfolding resolvedEntry_def by blast
    let ?inp = "singleInput (pbTopicARN inp) msg"
    have "snd (Publish p (Some ?inp) ti) = ti' @ [CallPublish (entryRequest (pbTopicARN inp) e)]"
      if "peMessage msg \<noteq> []"
      using Publish_resolved(1) [of ?inp p ti g d ti'] that ids
      by (simp add: m(3) entryRequest_batchEntry) (simp add: singleInput_def)
    moreover have "brId e = peID msg" by (simp add: m(3) batchEntry_def)
    ultimately show "\<exists>msg ti. m = Some msg \<and> brId e = peID msg \<and> generated t ti \<and>
        (peMessage msg \<noteq> [] \<longrightarrow> (\<exists>ti'. generated ti ti' \<and>
           snd (Publish p (Some (singleInput (pbTopicARN inp) msg)) ti) =
             ti' @ [CallPublish (entryRequest (pbTopicARN inp) e)]))"
      using m(1,2) resolveIDs_generated [OF ids] by blast
  qed
  with t' batchEntries_generated [OF es] show ?thesis by blast
qed

definition exampleBatch :: publish_batch_input where
  "exampleBatch = \<lparr>pbTopicARN = ''t.fifo'', pbMessages =
     [Some \<lparr>peAttributes = [], peID = ''1'', peMessage = ''a'', peGroupID = [], peDeduplicationID = []\<rparr>]\<rparr>"

lemma examplePublishBatch:
  "PublishBatch exampleProducer (Some exampleBatch) [] = (Return (Inr \<lparr>Successful = [], Failed = []\<rparr>),
     [CallGenerate ''group'' [], CallPublishBatch ''t.fifo''
       [batchEntry (the (pbMessages exampleBatch ! 0)) ''g1'' []]])"
  by (simp add: PublishBatch_def exampleProducer_def exampleBatch_def resolveIDs_def generateID_def Let_def
      isFIFOTopic_def hasSuffix_def maxBatchSize_def mapBatchOutput_def publishEntries_def)

lemma batch_is_its_messages_witness:
  "\<exists>t1 entries. snd (PublishBatch exampleProducer (Some exampleBatch) []) =
     t1 @ [CallPublishBatch ''t.fifo'' entries] \<and> length entries = 1"
proof -
  from batch_is_its_messages [OF examplePublishBatch] obtain t1 entries where
    "snd (PublishBatch exampleProducer (Some exampleBatch) []) = t1 @ [CallPublishBatch (pbTopicARN exampleBatch) entries]"
    "length (pbMessages exampleBatch) = length entries"
    unfolding examplePublishBatch snd_conv by (blast dest: list_all2_lengthD)
  then show ?thesis by (simp add: exampleBatch_def)
qed

text \<open>
  C34: A batch is all or nothing on the library's side. An absent or empty batch and one of more than
  ten messages are refused with their sentinels and nothing is called; otherwise either no SNS call
  is made and the batch does not succeed (a generator failed, or a nil entry panicked), or exactly
  one call is made, with one entry per message, and its answer or its error is what is returned.
\<close>

theorem batch_all_or_nothing:
  assumes "PublishBatch p input t = (r, t')"
  shows "(input = None \<or> pbMessages (the input) = [] \<longrightarrow> r = Return (Inl (Sentinel ErrEmptyInput)) \<and> t' = t) \<and>
    (input \<noteq> None \<and> 10 < length (pbMessages (the input)) \<longrightarrow> r = Return (Inl (Sentinel ErrMaxBatchSize)) \<and> t' = t) \<and>
    ((generated t t' \<and> (\<forall>out. r \<noteq> Return (Inr out))) \<or>
     (\<exists>inp t1 entries. input = Some inp \<and> generated t t1 \<and>
        t' = t1 @ [CallPublishBatch (pbTopicARN inp) entries] \<and>
        length entries = length (pbMessages inp) \<and> 1 \<le> length entries \<and> length entries \<le> 10 \<and>
        (case snsPublishBatch (pClient p) t' of
           Inl e \<Rightarrow> \<exists>text. r = Return (Inl (FmtW text e))
         | Inr resp \<Rightarrow> r = Return (Inr (mapBatchOutput resp)))))"
proof (cases "\<exists>inp. input = Some inp \<and> pbMessages inp \<noteq> [] \<and> length (pbMessages inp) \<le> 10")
  case False
  with assms show ?thesis
    by (cases input) (auto simp: PublishBatch_def maxBatchSize_def split: if_splits)
next
  case True
  then obtain inp where inp: "input = Some inp" "pbMessages inp \<noteq> []" "length (pbMessages inp) \<le> 10" by blast
  let ?es = "batchEntries p (isFIFOTopic (pbTopicARN inp)) (pbMessages inp) [] t"
  obtain r1 t1 where es: "?es = (r1, t1)" by force
  show ?thesis
  proof (cases "\<exists>entries. r1 = Return (Inr entries)")
    case False
    then have "generated t t' \<and> (\<forall>out. r \<noteq> Return (Inr out))"
      using assms es inp batchEntries_generated [OF es]
      by (cases "(?es, (undefined :: batch_request_entry list \<Rightarrow> trace \<Rightarrow> publish_batch_output step))" rule: andThen.cases)
        (auto simp: PublishBatch_def maxBatchSize_def)
    with inp show ?thesis by simp
  next
    case True
    then obtain entries where r1: "r1 = Return (Inr entries)" by blast
    note es = es [unfolded r1]
    have len: "length entries = length (pbMessages inp)"
      using batchEntries_Inr [OF es] by (auto dest: list_all2_lengthD)
    let ?t = "t1 @ [CallPublishBatch (pbTopicARN inp) entries]"
    have run: "t' = ?t" "case snsPublishBatch (pClient p) ?t of
           Inl e \<Rightarrow> \<exists>text. r = Return (Inl (FmtW text e))
         | Inr resp \<Rightarrow> r = Return (Inr (mapBatchOutput resp))"
      using assms inp es publishEntries_result [of p "pbTopicARN inp" entries t1 r t']
      by (auto simp: PublishBatch_def maxBatchSize_def)
    have "1 \<le> length entries" using inp(2) len by (cases entries) auto
    with inp len run batchEntries_generated [OF es] show ?thesis by auto
  qed
qed

lemma batch_all_or_nothing_witness:
  "\<exists>t1 entries. snd (PublishBatch exampleProducer (Some exampleBatch) []) =
     t1 @ [CallPublishBatch ''t.fifo'' entries] \<and> length entries = length (pbMessages exampleBatch)"
  using batch_all_or_nothing [OF examplePublishBatch]
  unfolding examplePublishBatch snd_conv by (auto simp: exampleBatch_def)

section \<open>Topics\<close>

lemma hasSuffix_append:
  assumes "length suf < length (c # n)" "c \<notin> set suf"
  shows "hasSuffix (x @ c # n) suf \<longleftrightarrow> hasSuffix n suf"
  using assms by (simp add: hasSuffix_def Suc_diff_le less_Suc_eq_le)

lemma hasSuffix_short:
  assumes "length n < length suf" "c \<notin> set suf"
  shows "\<not> hasSuffix (x @ c # n) suf"
proof
  assume "hasSuffix (x @ c # n) suf"
  then obtain p where p: "x @ c # n = p @ suf" by (auto simp: hasSuffix_iff)
  then have "rev n @ c # rev x = rev suf @ rev p" by (metis append_Cons append_assoc append_Nil rev.simps(2) rev_append)
  then have "(rev suf @ rev p) ! length (rev n) = c" by (metis nth_append_length)
  then have "rev suf ! length n = c" using assms(1) by (simp add: nth_append)
  then have "c \<in> set (rev suf)" using assms(1) by (metis length_rev nth_mem)
  with assms(2) show False by simp
qed

lemma fifo_name: "isFIFOTopic (x @ CHR '':'' # n) \<longleftrightarrow> (\<exists>p. n = p @ ''.fifo'')"
proof (cases "length ''.fifo'' \<le> length n")
  case True
  then show ?thesis
    unfolding isFIFOTopic_def hasSuffix_iff [of n "''.fifo''", symmetric]
    by (intro hasSuffix_append) simp_all
next
  case False
  then have "\<not> isFIFOTopic (x @ CHR '':'' # n)"
    unfolding isFIFOTopic_def by (intro hasSuffix_short) simp_all
  with False show ?thesis by auto
qed

text \<open>
  An ARN built from its parts keeps them: it is FIFO exactly when the topic's name ends in
  \<open>.fifo\<close>, whatever region and account are, and as long as neither contains a colon two such ARNs are
  equal only when all three parts are.
\<close>

theorem topic_arn_keeps_its_parts:
  "(isFIFOTopic (BuildTopicARN region account name) \<longleftrightarrow> (\<exists>p. name = p @ ''.fifo'')) \<and>
   (CHR '':'' \<notin> set (region @ account @ region' @ account') \<longrightarrow>
      (BuildTopicARN region account name = BuildTopicARN region' account' name' \<longleftrightarrow>
       region = region' \<and> account = account' \<and> name = name'))"
proof
  have "BuildTopicARN region account name = (''arn:aws:sns:'' @ region @ '':'' @ account) @ CHR '':'' # name"
    by (simp add: BuildTopicARN_def)
  then show "isFIFOTopic (BuildTopicARN region account name) \<longleftrightarrow> (\<exists>p. name = p @ ''.fifo'')"
    by (metis fifo_name)
  show "CHR '':'' \<notin> set (region @ account @ region' @ account') \<longrightarrow>
      (BuildTopicARN region account name = BuildTopicARN region' account' name' \<longleftrightarrow>
       region = region' \<and> account = account' \<and> name = name')"
    by (auto simp: BuildTopicARN_def append_sep_inject)
qed

lemma topic_arn_keeps_its_parts_witness:
  "isFIFOTopic (BuildTopicARN ''eu-west-1'' ''123'' ''orders.fifo'') \<and>
   BuildTopicARN ''eu-west-1'' ''12'' ''3'' \<noteq> BuildTopicARN ''eu-west-1'' ''1'' ''23''"
proof
  have "''orders.fifo'' = ''orders'' @ ''.fifo''" by simp
  then show "isFIFOTopic (BuildTopicARN ''eu-west-1'' ''123'' ''orders.fifo'')"
    using topic_arn_keeps_its_parts by metis
  show "BuildTopicARN ''eu-west-1'' ''12'' ''3'' \<noteq> BuildTopicARN ''eu-west-1'' ''1'' ''23''"
    using topic_arn_keeps_its_parts [of "''eu-west-1''" "''12''" "''3''" "''eu-west-1''" "''1''" "''23''"]
    by simp
qed

end
