(* ===== verification/Typed.thy ===== *)
theory Typed
  imports Producer Middleware Go_Json
begin

text \<open>
  The package \<open>typed\<close> (\<open>src/typed/typed.go\<close>, \<open>codec.go\<close>, \<open>producer.go\<close>): a codec between values
  and bytes, the handler wrapper that decodes a message's body before calling a typed function, and
  the producer that encodes a value before publishing it.

  The locale \<open>lawful_codec\<close> is the contract the package states for a codec, that decoding undoes
  encoding on the values it supports. \<open>JSONCodec\<close> works through \<open>encoding/json\<close>, whose behaviour at a
  Go type is a pair of functions; it is shown lawful at \<open>string\<close>, on valid UTF-8.
\<close>

section \<open>Codecs\<close>

text \<open>\<open>Encode\<close>, and \<open>Decode\<close> with the value it leaves when it fails.\<close>

record 'v codec =
  encode :: "'v \<Rightarrow> err + string"
  decode :: "string \<Rightarrow> 'v \<times> err option"

locale lawful_codec =
  fixes cdc :: "'v codec" and supported :: "'v \<Rightarrow> bool"
  assumes round_trip: "supported v \<Longrightarrow> \<exists>b. encode cdc v = Inr b \<and> b \<noteq> [] \<and> decode cdc b = (v, None)"
begin

lemma encode_inject:
  assumes "supported v" "supported w" "encode cdc v = encode cdc w"
  shows "v = w"
  using round_trip [OF assms(1)] round_trip [OF assms(2)] assms(3) by auto

end

text \<open>\<open>JSONCodec[T]\<close> through \<open>json.Marshal\<close> and \<open>json.Unmarshal\<close> at \<open>T\<close>.\<close>

definition JSONCodec :: "('v \<Rightarrow> err + string) \<Rightarrow> (string \<Rightarrow> 'v \<times> err option) \<Rightarrow> 'v codec" where
  "JSONCodec marshal unmarshal = \<lparr>encode = marshal,
     decode = (\<lambda>data. case unmarshal data of
       (out, Some e) \<Rightarrow> (out, Some e)
     | (out, None) \<Rightarrow> (out, None))\<rparr>"

text \<open>\<open>encoding/json\<close> at \<open>string\<close>: the encoder, and a decoder of the texts it writes.\<close>

definition marshalString :: "string \<Rightarrow> err + string" where
  "marshalString s = Inr (encString s)"

definition unmarshalString :: "string \<Rightarrow> string \<times> err option" where
  "unmarshalString data = (case readString data of
     Some (s, []) \<Rightarrow> (s, None) | _ \<Rightarrow> ([], Some (External ''invalid JSON string'')))"

abbreviation stringCodec :: "string codec" where
  "stringCodec \<equiv> JSONCodec marshalString unmarshalString"

interpretation js: lawful_codec stringCodec validUTF8
proof
  fix v :: string
  assume "validUTF8 v"
  then have "readString (encString v) = Some (v, [])"
    using readString_encString [of v "[]"] by simp
  then show "\<exists>b. encode stringCodec v = Inr b \<and> b \<noteq> [] \<and> decode stringCodec b = (v, None)"
    by (simp add: JSONCodec_def marshalString_def unmarshalString_def) (simp add: encString_def)
qed

section \<open>The typed handler\<close>

text \<open>The state's message is the one the handler is called with; it is not nil in the consumer.\<close>

definition WrapHandler :: "'v codec \<Rightarrow> (ctx \<Rightarrow> 'v \<Rightarrow> hstate \<Rightarrow> hresult \<times> hstate) \<Rightarrow> handler" where
  "WrapHandler cdc fn c s = (case cur s of
     None \<Rightarrow> (HPanic nilDeref, s)
   | Some msg \<Rightarrow> (case decode cdc (Body msg) of
       (v, Some e) \<Rightarrow> (HRet (Some e), s)
     | (v, None) \<Rightarrow> fn c v s))"

section \<open>The typed producer\<close>

record 'v typed_producer =
  tpProducer :: producer
  tpCodec :: "'v codec"

definition newTypedProducer :: "producer \<Rightarrow> 'v codec \<Rightarrow> 'v typed_producer" where
  "newTypedProducer p cdc = \<lparr>tpProducer = p, tpCodec = cdc\<rparr>"

record publish_config =
  pcAttributes :: "string gomap"
  pcGroupID :: string
  pcDeduplicationID :: string

datatype publish_option =
    WithGroupID string
  | WithDeduplicationID string
  | WithAttributes "string gomap"

fun applyPublish :: "publish_option \<Rightarrow> publish_config \<Rightarrow> publish_config" where
  "applyPublish (WithGroupID i) c = c\<lparr>pcGroupID := i\<rparr>"
| "applyPublish (WithDeduplicationID i) c = c\<lparr>pcDeduplicationID := i\<rparr>"
| "applyPublish (WithAttributes m) c = c\<lparr>pcAttributes := m\<rparr>"

definition publishConfig :: "publish_option option list \<Rightarrow> publish_config" where
  "publishConfig opts = applySubs applyPublish opts \<lparr>pcAttributes = [], pcGroupID = [], pcDeduplicationID = []\<rparr>"

definition typedPublish :: "'v typed_producer \<Rightarrow> string \<Rightarrow> 'v \<Rightarrow> publish_option option list \<Rightarrow> trace \<Rightarrow> string step" where
  "typedPublish tp topicARN v opts t = (case encode (tpCodec tp) v of
     Inl e \<Rightarrow> (Return (Inl e), t)
   | Inr encoded \<Rightarrow> (let cfg = publishConfig opts in
       Publish (tpProducer tp) (Some \<lparr>piAttributes = pcAttributes cfg, piTopicARN = topicARN,
         piMessage = encoded, piGroupID = pcGroupID cfg, piDeduplicationID = pcDeduplicationID cfg\<rparr>) t))"

section \<open>From a value to a value\<close>

lemma typedPublish_sent:
  assumes "typedPublish tp arn v opts t = (Return (Inr ident), t')"
  shows "\<exists>b es req. encode (tpCodec tp) v = Inr b \<and> t' = t @ es @ [CallPublish req] \<and>
    prMessage req = b \<and> prTopicArn req = arn \<and>
    (pcGroupID (publishConfig opts) \<noteq> [] \<longrightarrow> prMessageGroupId req = Some (pcGroupID (publishConfig opts)))"
proof -
  obtain b where b: "encode (tpCodec tp) v = Inr b"
    using assms by (cases "encode (tpCodec tp) v") (auto simp: typedPublish_def)
  define inp where "inp = \<lparr>piAttributes = pcAttributes (publishConfig opts), piTopicARN = arn, piMessage = b,
     piGroupID = pcGroupID (publishConfig opts), piDeduplicationID = pcDeduplicationID (publishConfig opts)\<rparr>"
  have pub: "Publish (tpProducer tp) (Some inp) t = (Return (Inr ident), t')"
    using assms b by (simp add: typedPublish_def inp_def Let_def)
  from Publish_once [OF pub] obtain es g d where es: "t' = t @ es @ [CallPublish (publishRequest inp g d)]"
    "piGroupID inp \<noteq> [] \<longrightarrow> g = piGroupID inp" by blast
  then show ?thesis using b
    by (intro exI [of _ b] exI [of _ es] exI [of _ "publishRequest inp g d"])
      (simp add: publishRequest_def nonEmpty_def inp_def)
qed

text \<open>
  C35: A typed value arrives as it was sent. With a codec that keeps the package's law, the value a
  successful \<open>Publish\<close> put on the topic is the value the typed handler is called with when a message
  with that text as its body is delivered, with the handler's context, state and result unchanged;
  and a value that cannot be encoded is refused before anything is called.
\<close>

theorem typed_value_arrives:
  assumes "lawful_codec (tpCodec tp) supported" and "supported v"
    and "typedPublish tp arn v opts t = (Return (Inr ident), t')"
  shows "\<exists>es req. t' = t @ es @ [CallPublish req] \<and> prTopicArn req = arn \<and>
    (\<forall>fn c s msg. cur s = Some msg \<and> Body msg = prMessage req \<longrightarrow> WrapHandler (tpCodec tp) fn c s = fn c v s)"
proof -
  from lawful_codec.round_trip [OF assms(1,2)] obtain b where
    b: "encode (tpCodec tp) v = Inr b" "decode (tpCodec tp) b = (v, None)" by blast
  with typedPublish_sent [OF assms(3)] obtain es req where
    "t' = t @ es @ [CallPublish req]" "prMessage req = b" "prTopicArn req = arn" by auto
  with b(2) show ?thesis
    by (intro exI [of _ es] exI [of _ req]) (simp add: WrapHandler_def)
qed

lemma typed_value_arrives_witness:
  "\<exists>req :: publish_request. WrapHandler stringCodec (\<lambda>c v s. (if v = ''hi'' then HRet None else HPanic v, s)) \<lparr>spanCtx = None\<rparr>
     \<lparr>cur = Some (example_message\<lparr>original := (original example_message)\<lparr>smBody := Some (prMessage req)\<rparr>\<rparr>),
      htrace = []\<rparr> = (HRet None,
     \<lparr>cur = Some (example_message\<lparr>original := (original example_message)\<lparr>smBody := Some (prMessage req)\<rparr>\<rparr>),
      htrace = []\<rparr>)"
proof -
  let ?tp = "newTypedProducer (exampleProducer\<lparr>groupIDGen := None\<rparr>) stringCodec"
  have valid: "validUTF8 ''hi''" by (simp add: validUTF8.simps)
  have "\<exists>t'. typedPublish ?tp ''t'' ''hi'' [] [] = (Return (Inr ''mid''), t')"
    by (simp add: typedPublish_def newTypedProducer_def JSONCodec_def marshalString_def Publish_def
        exampleProducer_def resolveIDs_def isFIFOTopic_def hasSuffix_def Let_def encString_def)
  then obtain t' where sent: "typedPublish ?tp ''t'' ''hi'' [] [] = (Return (Inr ''mid''), t')" by blast
  have law: "lawful_codec (tpCodec ?tp) validUTF8"
    using js.lawful_codec_axioms by (simp add: newTypedProducer_def)
  from typed_value_arrives [OF law valid sent] obtain req :: publish_request where req:
    "\<forall>fn c s msg. cur s = Some msg \<and> Body msg = prMessage req \<longrightarrow> WrapHandler (tpCodec ?tp) fn c s = fn c ''hi'' s"
    by blast
  have "Body (example_message\<lparr>original := (original example_message)\<lparr>smBody := Some (prMessage req)\<rparr>\<rparr>) = prMessage req"
    by (simp add: Body_def)
  then show ?thesis using req by (intro exI [of _ req]) (simp add: newTypedProducer_def)
qed

end
