(* ===== verification/Client.thy ===== *)
theory Client
  imports Producer
begin

text \<open>
  The package \<open>client\<close> (\<open>src/client/client.go\<close>, \<open>options.go\<close>, \<open>ping.go\<close>): building an AWS client with a
  connectivity check. \<open>validate\<close> is a loop over an unsigned counter; it is a partial function here,
  since it need not return. The three constructors have one shape: the options, then the check through
  a read-only list call of their API, which is code outside \<open>src/\<close> and answers as a function of the
  calls made so far. Whether the caller's context is cancelled is such a function too.
\<close>

section \<open>Options\<close>

record client_options =
  pingTimeout :: duration
  pingRetryLimit :: "64 word"
  connectivityCheck :: bool

definition newClientOptions :: client_options where
  "newClientOptions = \<lparr>pingTimeout = 3 * second, pingRetryLimit = 2, connectivityCheck = True\<rparr>"

datatype client_option =
    WithPingTimeout duration
  | WithPingRetryLimit "64 word"
  | WithoutConnectivityCheck

fun applyClient :: "client_option \<Rightarrow> client_options \<Rightarrow> err + client_options" where
  "applyClient (WithPingTimeout dur) o' =
     (if dur \<le>s 0 then Inl (Fmt ''ping timeout must be positive, got %s'' [ArgDur dur])
      else Inr (o'\<lparr>pingTimeout := dur\<rparr>))"
| "applyClient (WithPingRetryLimit n) o' = Inr (o'\<lparr>pingRetryLimit := n\<rparr>)"
| "applyClient WithoutConnectivityCheck o' = Inr (o'\<lparr>connectivityCheck := False\<rparr>)"

definition buildClientOptions :: "client_option option list \<Rightarrow> err + client_options" where
  "buildClientOptions opts = applyOptions applyClient opts newClientOptions"

section \<open>The connectivity check\<close>

text \<open>
  \<^verbatim>\<open>for attempt := uint(0); attempt <= cfg.retryLimit; attempt++\<close>: \<open>None\<close> when the loop never ends.
  \<open>ctxErr\<close> is \<open>ctx.Err()\<close> and \<open>ping\<close> the request, which the timeout bounds.
\<close>

partial_function (option) validateLoop :: "(trace \<Rightarrow> err option) \<Rightarrow> (trace \<Rightarrow> err option) \<Rightarrow> 64 word \<Rightarrow>
    64 word \<Rightarrow> err option \<Rightarrow> trace \<Rightarrow> (err option \<times> trace) option" where
  "validateLoop ctxErr ping limit attempt lastErr t =
     (if attempt \<le> limit then
        (case ctxErr t of
           Some e \<Rightarrow> Some (Some (wrapS ErrPingFailed e), t)
         | None \<Rightarrow>
           (case ping (t @ [CallPing]) of
              None \<Rightarrow> Some (None, t @ [CallPing])
            | Some e \<Rightarrow> validateLoop ctxErr ping limit (attempt + 1) (Some e) (t @ [CallPing])))
      else Some (wrapErr (Some (Sentinel ErrPingFailed)) lastErr, t))"

definition validate :: "(trace \<Rightarrow> err option) \<Rightarrow> client_options \<Rightarrow> (trace \<Rightarrow> err option) \<Rightarrow> trace \<Rightarrow>
    (err option \<times> trace) option" where
  "validate ctxErr cfg ping t = validateLoop ctxErr ping (pingRetryLimit cfg) 0 None t"

section \<open>The constructors\<close>

text \<open>An API: the operations a component uses of it, and its read-only list call.\<close>

record 'a aws_api =
  apiClient :: 'a
  apiList :: "trace \<Rightarrow> err option"

definition newClient :: "(trace \<Rightarrow> err option) \<Rightarrow> 'a aws_api \<Rightarrow> client_option option list \<Rightarrow> trace \<Rightarrow>
    ((err + 'a) \<times> trace) option" where
  "newClient ctxErr api opts t = (case buildClientOptions opts of
     Inl e \<Rightarrow> Some (Inl e, t)
   | Inr cfg \<Rightarrow>
     if connectivityCheck cfg then
       (case validate ctxErr cfg (apiList api) t of
          None \<Rightarrow> None
        | Some (Some e, t) \<Rightarrow> Some (Inl e, t)
        | Some (None, t) \<Rightarrow> Some (Inr (apiClient api), t))
     else Some (Inr (apiClient api), t))"

definition newSQS :: "(trace \<Rightarrow> err option) \<Rightarrow> 'm sqs_client aws_api \<Rightarrow> client_option option list \<Rightarrow> trace \<Rightarrow>
    ((err + 'm sqs_client) \<times> trace) option" where
  "newSQS = newClient"

definition newSNS :: "(trace \<Rightarrow> err option) \<Rightarrow> sns_client aws_api \<Rightarrow> client_option option list \<Rightarrow> trace \<Rightarrow>
    ((err + sns_client) \<times> trace) option" where
  "newSNS = newClient"

definition newScheduler :: "(trace \<Rightarrow> err option) \<Rightarrow> scheduler_client aws_api \<Rightarrow> client_option option list \<Rightarrow> trace \<Rightarrow>
    ((err + scheduler_client) \<times> trace) option" where
  "newScheduler = newClient"

text \<open>The exported constructors: \<open>fromConfig\<close> is the SDK's \<open>NewFromConfig\<close> of the API.\<close>

definition NewSQS :: "(trace \<Rightarrow> err option) \<Rightarrow> ('cfg \<Rightarrow> 'm sqs_client aws_api) \<Rightarrow> 'cfg \<Rightarrow> client_option option list \<Rightarrow>
    trace \<Rightarrow> ((err + 'm sqs_client) \<times> trace) option" where
  [simp]: "NewSQS ctxErr fromConfig cfg opts = newSQS ctxErr (fromConfig cfg) opts"

definition NewSNS :: "(trace \<Rightarrow> err option) \<Rightarrow> ('cfg \<Rightarrow> sns_client aws_api) \<Rightarrow> 'cfg \<Rightarrow> client_option option list \<Rightarrow>
    trace \<Rightarrow> ((err + sns_client) \<times> trace) option" where
  [simp]: "NewSNS ctxErr fromConfig cfg opts = newSNS ctxErr (fromConfig cfg) opts"

definition NewScheduler :: "(trace \<Rightarrow> err option) \<Rightarrow> ('cfg \<Rightarrow> scheduler_client aws_api) \<Rightarrow> 'cfg \<Rightarrow>
    client_option option list \<Rightarrow> trace \<Rightarrow> ((err + scheduler_client) \<times> trace) option" where
  [simp]: "NewScheduler ctxErr fromConfig cfg opts = newScheduler ctxErr (fromConfig cfg) opts"

section \<open>The loop\<close>

definition pings :: "nat \<Rightarrow> trace" where
  "pings k = replicate k CallPing"

lemma pings_Suc: "t @ [CallPing] @ pings k = t @ pings (Suc k)"
  by (simp add: pings_def)

text \<open>
  The outcome of a check of at most \<open>n\<close> attempts from \<open>t\<close>: after \<open>k\<close> failed attempts, either the next
  one succeeds, or the context is found cancelled, or no attempt is left.
\<close>

definition checkOutcome :: "(trace \<Rightarrow> err option) \<Rightarrow> (trace \<Rightarrow> err option) \<Rightarrow> nat \<Rightarrow> trace \<Rightarrow>
    err option \<Rightarrow> trace \<Rightarrow> bool" where
  "checkOutcome ctxErr ping n t r t' \<longleftrightarrow> (\<exists>k. k \<le> n \<and>
     (\<forall>j < k. ctxErr (t @ pings j) = None \<and> ping (t @ pings (Suc j)) \<noteq> None) \<and>
     (case r of
        None \<Rightarrow> k < n \<and> ctxErr (t @ pings k) = None \<and> t' = t @ pings (Suc k) \<and> ping t' = None
      | Some e \<Rightarrow> errIs e ErrPingFailed \<and> t' = t @ pings k \<and> (ctxErr t' \<noteq> None \<or> k = n)))"

lemma checkOutcome_more:
  assumes "ctxErr t = None" and "ping (t @ [CallPing]) \<noteq> None"
    and "checkOutcome ctxErr ping n (t @ [CallPing]) r t'"
  shows "checkOutcome ctxErr ping (Suc n) t r t'"
proof -
  from assms(3) obtain k where k: "k \<le> n"
    "\<forall>j < k. ctxErr (t @ pings (Suc j)) = None \<and> ping (t @ pings (Suc (Suc j))) \<noteq> None"
    "case r of
        None \<Rightarrow> k < n \<and> ctxErr (t @ pings (Suc k)) = None \<and> t' = t @ pings (Suc (Suc k)) \<and> ping t' = None
      | Some e \<Rightarrow> errIs e ErrPingFailed \<and> t' = t @ pings (Suc k) \<and> (ctxErr t' \<noteq> None \<or> k = n)"
    unfolding checkOutcome_def append_assoc pings_Suc by blast
  have "ctxErr (t @ pings j) = None \<and> ping (t @ pings (Suc j)) \<noteq> None" if "j < Suc k" for j
    using k(2) assms(1,2) that by (cases j) (simp_all add: pings_def)
  with k(1,3) show ?thesis
    unfolding checkOutcome_def by (intro exI [of _ "Suc k"]) (auto split: option.splits)
qed

lemma validateLoop_returns:
  assumes "n = Suc (unat limit) - unat attempt" and "limit \<noteq> - 1" and "attempt \<le> limit + 1"
    and "attempt = 0 \<longrightarrow> lastErr = None" and "lastErr = None \<longrightarrow> attempt \<le> limit"
  shows "\<exists>r t'. validateLoop ctxErr ping limit attempt lastErr t = Some (r, t') \<and> checkOutcome ctxErr ping n t r t'"
  using assms
proof (induction n arbitrary: attempt lastErr t)
  case 0
  have top: "unat (limit + 1) = Suc (unat limit)"
    using 0(2) by (metis add.commute add_eq_0_iff unatSuc)
  have "\<not> attempt \<le> limit" using 0(1) by (simp add: word_le_nat_alt)
  moreover from this 0(5) obtain e where "lastErr = Some e" by auto
  ultimately show ?case
    by (subst validateLoop.simps) (auto simp: checkOutcome_def pings_def)
next
  case (Suc n)
  then have le: "attempt \<le> limit" by (simp add: word_le_nat_alt)
  have "attempt \<noteq> - 1"
  proof
    assume "attempt = - 1"
    with le Suc.prems(2) show False by (simp add: word_order.extremum_unique)
  qed
  then have up: "unat (attempt + 1) = Suc (unat attempt)" by (metis add.commute add_eq_0_iff unatSuc)
  have top: "unat (limit + 1) = Suc (unat limit)"
    using Suc.prems(2) by (metis add.commute add_eq_0_iff unatSuc)
  show ?case
  proof (cases "ctxErr t")
    case (Some e)
    with le show ?thesis
      by (subst validateLoop.simps) (auto simp: checkOutcome_def pings_def intro!: exI [of _ 0])
  next
    case ctx: None
    show ?thesis
    proof (cases "ping (t @ [CallPing])")
      case None
      with le ctx show ?thesis
        by (subst validateLoop.simps) (auto simp: checkOutcome_def pings_def intro!: exI [of _ 0])
    next
      case (Some e)
      have "attempt + 1 \<le> limit + 1" using le up top by (simp add: word_le_nat_alt)
      moreover have "attempt + 1 \<noteq> 0" using up by auto
      moreover have "n = Suc (unat limit) - unat (attempt + 1)" using Suc.prems(1) up by simp
      ultimately obtain r t' where ih: "validateLoop ctxErr ping limit (attempt + 1) (Some e) (t @ [CallPing]) = Some (r, t')"
        "checkOutcome ctxErr ping n (t @ [CallPing]) r t'"
        using Suc.IH [of "attempt + 1" "Some e" "t @ [CallPing]"] Suc.prems(2) by auto
      moreover have "validateLoop ctxErr ping limit attempt lastErr t =
          validateLoop ctxErr ping limit (attempt + 1) (Some e) (t @ [CallPing])"
        using le ctx Some by (subst validateLoop.simps) simp
      moreover have "checkOutcome ctxErr ping (Suc n) t r t'"
        using ctx Some ih(2) by (intro checkOutcome_more) simp_all
      ultimately show ?thesis by auto
    qed
  qed
qed

text \<open>With the largest retry limit the counter wraps before it passes it.\<close>

lemma validateLoop_max:
  assumes "validateLoop ctxErr ping limit attempt lastErr t = Some y"
  shows "limit = - 1 \<longrightarrow> \<not> ((\<forall>t. ctxErr t = None) \<and> (\<forall>t. ping t \<noteq> None))"
proof (rule validateLoop.raw_induct [where P = "\<lambda>ctxErr ping limit attempt lastErr t y.
    limit = - 1 \<longrightarrow> \<not> ((\<forall>t. ctxErr t = None) \<and> (\<forall>t. ping t \<noteq> None))", OF _ assms])
  fix f ctxErr ping limit attempt lastErr t y
  assume IH: "\<And>ctxErr ping limit attempt lastErr t y. f ctxErr ping limit attempt lastErr t = Some y \<Longrightarrow>
      limit = - 1 \<longrightarrow> \<not> ((\<forall>t. ctxErr t = None) \<and> (\<forall>t. ping t \<noteq> None))"
    and eq: "(if attempt \<le> (limit :: 64 word) then
        (case ctxErr t of
           None \<Rightarrow>
           (case ping (t @ [CallPing]) of
              None \<Rightarrow> Some (None, t @ [CallPing])
            | Some e \<Rightarrow> f ctxErr ping limit (attempt + 1) (Some e) (t @ [CallPing]))
         | Some e \<Rightarrow> Some (Some (wrapS ErrPingFailed e), t))
      else Some (wrapErr (Some (Sentinel ErrPingFailed)) lastErr, t)) = Some y"
  show "limit = - 1 \<longrightarrow> \<not> ((\<forall>t. ctxErr t = None) \<and> (\<forall>t. ping t \<noteq> None))"
  proof (intro impI notI)
    assume max: "limit = - 1" and never: "(\<forall>t. ctxErr t = None) \<and> (\<forall>t. ping t \<noteq> None)"
    then obtain e where "ctxErr t = None" "ping (t @ [CallPing]) = Some e" by fastforce
    with eq max have "f ctxErr ping limit (attempt + 1) (Some e) (t @ [CallPing]) = Some y" by simp
    with IH max never show False by blast
  qed
qed

lemma validateLoop_error:
  assumes "validateLoop ctxErr ping limit attempt lastErr t = Some y"
  shows "\<forall>e. fst y = Some e \<longrightarrow> errIs e ErrPingFailed"
proof (rule validateLoop.raw_induct [where P = "\<lambda>ctxErr ping limit attempt lastErr t y.
    \<forall>e. fst y = Some e \<longrightarrow> errIs e ErrPingFailed", OF _ assms])
  fix f ctxErr ping limit attempt lastErr t y
  assume IH: "\<And>ctxErr ping limit attempt lastErr t y. f ctxErr ping limit attempt lastErr t = Some y \<Longrightarrow>
      \<forall>e. fst y = Some e \<longrightarrow> errIs e ErrPingFailed"
    and eq: "(if attempt \<le> (limit :: 64 word) then
        (case ctxErr t of
           None \<Rightarrow>
           (case ping (t @ [CallPing]) of
              None \<Rightarrow> Some (None, t @ [CallPing])
            | Some e \<Rightarrow> f ctxErr ping limit (attempt + 1) (Some e) (t @ [CallPing]))
         | Some e \<Rightarrow> Some (Some (wrapS ErrPingFailed e), t))
      else Some (wrapErr (Some (Sentinel ErrPingFailed)) lastErr, t)) = Some y"
  have "errIs e ErrPingFailed" if "wrapErr (Some (Sentinel ErrPingFailed)) lastErr = Some e" for e
    using that by (cases lastErr) auto
  then show "\<forall>e. fst y = Some e \<longrightarrow> errIs e ErrPingFailed"
    using eq IH by (auto split: if_splits option.splits)
qed

text \<open>
  C37: The connectivity check returns for every retry limit but the largest: it makes at most one
  attempt more than the limit, stops at the first that succeeds, makes none once the context is
  cancelled, and its error matches \<open>ErrPingFailed\<close>. With the largest limit the unsigned counter never
  passes it, and a check that always fails under a context that is never cancelled does not return.
\<close>

theorem ping_loop_returns:
  "(pingRetryLimit cfg \<noteq> - 1 \<longrightarrow> (\<exists>r t' k. validate ctxErr cfg ping t = Some (r, t') \<and>
      k \<le> Suc (unat (pingRetryLimit cfg)) \<and>
      (\<forall>j < k. ctxErr (t @ replicate j CallPing) = None) \<and>
      (case r of
         None \<Rightarrow> t' = t @ replicate k CallPing \<and> 0 < k \<and> ping t' = None \<and>
           (\<forall>j < k - 1. ping (t @ replicate (Suc j) CallPing) \<noteq> None)
       | Some e \<Rightarrow> t' = t @ replicate k CallPing \<and> errIs e ErrPingFailed \<and>
           (\<forall>j < k. ping (t @ replicate (Suc j) CallPing) \<noteq> None) \<and>
           (ctxErr t' \<noteq> None \<or> k = Suc (unat (pingRetryLimit cfg)))))) \<and>
   (pingRetryLimit cfg = - 1 \<and> (\<forall>t. ctxErr t = None) \<and> (\<forall>t. ping t \<noteq> None) \<longrightarrow>
      validate ctxErr cfg ping t = None)"
proof (intro conjI impI)
  assume max: "pingRetryLimit cfg = - 1 \<and> (\<forall>t. ctxErr t = None) \<and> (\<forall>t. ping t \<noteq> None)"
  show "validate ctxErr cfg ping t = None"
  proof (cases "validate ctxErr cfg ping t")
    case (Some y)
    then show ?thesis using validateLoop_max max unfolding validate_def by blast
  qed
next
  let ?n = "Suc (unat (pingRetryLimit cfg))"
  assume "pingRetryLimit cfg \<noteq> - 1"
  then obtain r t' where v: "validate ctxErr cfg ping t = Some (r, t')" "checkOutcome ctxErr ping ?n t r t'"
    using validateLoop_returns [of ?n "pingRetryLimit cfg" 0 None ctxErr ping t] unfolding validate_def by auto
  from v(2) obtain k where k: "k \<le> ?n" "\<forall>j < k. ctxErr (t @ pings j) = None \<and> ping (t @ pings (Suc j)) \<noteq> None"
    and r: "case r of
        None \<Rightarrow> k < ?n \<and> ctxErr (t @ pings k) = None \<and> t' = t @ pings (Suc k) \<and> ping t' = None
      | Some e \<Rightarrow> errIs e ErrPingFailed \<and> t' = t @ pings k \<and> (ctxErr t' \<noteq> None \<or> k = ?n)"
    unfolding checkOutcome_def by blast
  show "\<exists>r t' k. validate ctxErr cfg ping t = Some (r, t') \<and> k \<le> ?n \<and>
      (\<forall>j < k. ctxErr (t @ replicate j CallPing) = None) \<and>
      (case r of
         None \<Rightarrow> t' = t @ replicate k CallPing \<and> 0 < k \<and> ping t' = None \<and>
           (\<forall>j < k - 1. ping (t @ replicate (Suc j) CallPing) \<noteq> None)
       | Some e \<Rightarrow> t' = t @ replicate k CallPing \<and> errIs e ErrPingFailed \<and>
           (\<forall>j < k. ping (t @ replicate (Suc j) CallPing) \<noteq> None) \<and>
           (ctxErr t' \<noteq> None \<or> k = ?n))"
  proof (cases r)
    case None
    with r k show ?thesis using v(1) unfolding pings_def
      by (intro exI [of _ r] exI [of _ t'] exI [of _ "Suc k"]) (auto simp: less_Suc_eq)
  next
    case (Some e)
    with r k show ?thesis using v(1) unfolding pings_def
      by (intro exI [of _ r] exI [of _ t'] exI [of _ k]) auto
  qed
qed

lemma ping_loop_returns_witness:
  "(\<exists>r t'. validate (\<lambda>t. None) newClientOptions (\<lambda>t. Some (External ''refused'')) [] = Some (r, t')) \<and>
   validate (\<lambda>t. None) (newClientOptions\<lparr>pingRetryLimit := - 1\<rparr>) (\<lambda>t. Some (External ''refused'')) [] = None"
proof
  have "pingRetryLimit newClientOptions \<noteq> - 1" by (simp add: newClientOptions_def)
  then show "\<exists>r t'. validate (\<lambda>t. None) newClientOptions (\<lambda>t. Some (External ''refused'')) [] = Some (r, t')"
    using ping_loop_returns [of newClientOptions "\<lambda>t. None" "\<lambda>t. Some (External ''refused'')" "[]"] by blast
  show "validate (\<lambda>t. None) (newClientOptions\<lparr>pingRetryLimit := - 1\<rparr>) (\<lambda>t. Some (External ''refused'')) [] = None"
    using ping_loop_returns [of "newClientOptions\<lparr>pingRetryLimit := - 1\<rparr>" "\<lambda>t. None" "\<lambda>t. Some (External ''refused'')" "[]"]
    by simp
qed

section \<open>What a constructor returns\<close>

interpretation cl: validated_options applyClient "\<lambda>o'. 0 < sint (pingTimeout o')"
proof
  fix c opt c'
  assume "0 < sint (pingTimeout c)" "applyClient opt c = Inr c'"
  then show "0 < sint (pingTimeout c')" by (cases opt) (auto simp: go_sint split: if_splits)
qed

text \<open>
  A constructor returns a client or an error, with the two sentinels it documents: an option that
  is refused makes no call and matches \<open>ErrInvalidOption\<close>; without the connectivity check nothing is
  called and the client is returned; with it the client is returned exactly when an attempt succeeded,
  and otherwise the error matches \<open>ErrPingFailed\<close>. The time budget it checks under is positive.
\<close>

theorem constructor_outcome:
  assumes "newClient ctxErr api opts t = Some (r, t')"
  shows "case buildClientOptions opts of
      Inl e \<Rightarrow> r = Inl e \<and> errIs e ErrInvalidOption \<and> t' = t
    | Inr cfg \<Rightarrow> 0 < sint (pingTimeout cfg) \<and>
        (if connectivityCheck cfg
         then (\<exists>res. validate ctxErr cfg (apiList api) t = Some (res, t') \<and>
           (case res of None \<Rightarrow> r = Inr (apiClient api)
            | Some e \<Rightarrow> r = Inl e \<and> errIs e ErrPingFailed))
         else r = Inr (apiClient api) \<and> t' = t)"
proof (cases "buildClientOptions opts")
  case (Inl e)
  with assms applyOptions_error [of applyClient opts newClientOptions e] show ?thesis
    by (simp add: newClient_def buildClientOptions_def)
next
  case (Inr cfg)
  have "0 < sint (pingTimeout newClientOptions)" by (simp add: newClientOptions_def second_def)
  with cl.options_inv [OF _ Inr [unfolded buildClientOptions_def]] have "0 < sint (pingTimeout cfg)" by blast
  show ?thesis
  proof (cases "connectivityCheck cfg")
    case check: True
    with assms Inr obtain res t1 where v: "validate ctxErr cfg (apiList api) t = Some (res, t1)"
      by (cases "validate ctxErr cfg (apiList api) t") (auto simp: newClient_def)
    have "\<forall>e. res = Some e \<longrightarrow> errIs e ErrPingFailed"
      using validateLoop_error [OF v [unfolded validate_def]] by simp
    with assms Inr check v \<open>0 < sint (pingTimeout cfg)\<close> show ?thesis
      by (cases res) (simp_all add: newClient_def)
  next
    case False
    with assms Inr \<open>0 < sint (pingTimeout cfg)\<close> show ?thesis by (simp add: newClient_def)
  qed
qed

lemma constructor_outcome_witness:
  "newSQS (\<lambda>t. None) \<lparr>apiClient = quietClient, apiList = \<lambda>t. None\<rparr> [Some WithoutConnectivityCheck] [] =
     Some (Inr quietClient, [])"
proof -
  let ?api = "\<lparr>apiClient = quietClient, apiList = \<lambda>t. None\<rparr>"
  have run: "newClient (\<lambda>t. None) ?api [Some WithoutConnectivityCheck] [] = Some (Inr quietClient, [])"
    by (simp add: newClient_def buildClientOptions_def newClientOptions_def)
  from constructor_outcome [OF run] run show ?thesis by (simp add: newSQS_def)
qed

end
