(* ===== verification/Conn.thy ===== *)
theory Conn
  imports Errors
begin

text \<open>
  The package \<open>conn\<close> (\<open>src/conn/conn.go\<close>, \<open>options.go\<close>): from functional options to the list of
  overrides handed to the AWS SDK's configuration loader, which is code outside \<open>src/\<close> and a function
  from that list to a configuration or an error.
\<close>

record conn_options =
  region :: string
  accessKey :: string
  secretKey :: string
  sessionToken :: string
  profile :: string
  endpoint :: string
  retryCount :: go_int

definition newConnOptions :: conn_options where
  "newConnOptions = \<lparr>region = [], accessKey = [], secretKey = [], sessionToken = [], profile = [],
     endpoint = [], retryCount = 10\<rparr>"

definition hasStaticCredentials :: "conn_options \<Rightarrow> bool" where
  "hasStaticCredentials o' \<longleftrightarrow> accessKey o' \<noteq> [] \<and> secretKey o' \<noteq> []"

datatype conn_option =
    WithRegion string
  | WithAccessKey string string
  | WithSessionToken string
  | WithProfile string
  | WithEndpoint string
  | WithRetryCount "64 word"

text \<open>Every option succeeds; \<open>int(n)\<close> keeps the 64 bits of an unsigned count.\<close>

fun applyConn :: "conn_option \<Rightarrow> conn_options \<Rightarrow> err + conn_options" where
  "applyConn (WithRegion r) o' = Inr (o'\<lparr>region := r\<rparr>)"
| "applyConn (WithAccessKey k s) o' = Inr (o'\<lparr>accessKey := k, secretKey := s\<rparr>)"
| "applyConn (WithSessionToken tok) o' = Inr (o'\<lparr>sessionToken := tok\<rparr>)"
| "applyConn (WithProfile p) o' = Inr (o'\<lparr>profile := p\<rparr>)"
| "applyConn (WithEndpoint url) o' = Inr (o'\<lparr>endpoint := url\<rparr>)"
| "applyConn (WithRetryCount n) o' = Inr (o'\<lparr>retryCount := n\<rparr>)"

text \<open>The overrides of \<open>awsconfig\<close>: region, retryer with its attempts, credentials, profile, endpoint.\<close>

datatype load_option =
    LoadRegion string
  | LoadRetryer go_int
  | LoadStaticCredentials string string string
  | LoadProfile string
  | LoadEndpoint string

definition buildLoadOptions :: "conn_options \<Rightarrow> load_option list" where
  "buildLoadOptions o' = [LoadRegion (region o'), LoadRetryer (retryCount o')] @
     (if hasStaticCredentials o' then [LoadStaticCredentials (accessKey o') (secretKey o') (sessionToken o')]
      else if profile o' \<noteq> [] then [LoadProfile (profile o')] else []) @
     (if endpoint o' \<noteq> [] then [LoadEndpoint (endpoint o')] else [])"

definition NewConn :: "(load_option list \<Rightarrow> err + 'cfg) \<Rightarrow> conn_option option list \<Rightarrow> err + 'cfg" where
  "NewConn load opts = (case applyOptions applyConn opts newConnOptions of
     Inl e \<Rightarrow> Inl e
   | Inr o' \<Rightarrow>
     if region o' = [] then Inl (Sentinel ErrEmptyRegion)
     else load (buildLoadOptions o'))"

section \<open>What is loaded\<close>

text \<open>The field an option sets.\<close>

fun regionIn :: "conn_option \<Rightarrow> string option" where
  "regionIn (WithRegion r) = Some r" | "regionIn _ = None"

fun keysIn :: "conn_option \<Rightarrow> (string \<times> string) option" where
  "keysIn (WithAccessKey k s) = Some (k, s)" | "keysIn _ = None"

fun tokenIn :: "conn_option \<Rightarrow> string option" where
  "tokenIn (WithSessionToken tok) = Some tok" | "tokenIn _ = None"

fun profileIn :: "conn_option \<Rightarrow> string option" where
  "profileIn (WithProfile p) = Some p" | "profileIn _ = None"

fun endpointIn :: "conn_option \<Rightarrow> string option" where
  "endpointIn (WithEndpoint u) = Some u" | "endpointIn _ = None"

fun countIn :: "conn_option \<Rightarrow> go_int option" where
  "countIn (WithRetryCount n) = Some n" | "countIn _ = None"

definition settle :: "conn_option option list \<Rightarrow> conn_options \<Rightarrow> conn_options" where
  "settle opts o' = (let ks = lastOf keysIn (accessKey o', secretKey o') opts in
     \<lparr>region = lastOf regionIn (region o') opts, accessKey = fst ks, secretKey = snd ks,
      sessionToken = lastOf tokenIn (sessionToken o') opts, profile = lastOf profileIn (profile o') opts,
      endpoint = lastOf endpointIn (endpoint o') opts, retryCount = lastOf countIn (retryCount o') opts\<rparr>)"

lemma settle_options: "applyOptions applyConn opts o' = Inr (settle opts o')"
proof (induction opts arbitrary: o')
  case Nil
  show ?case by (cases o') (simp add: settle_def)
next
  case (Cons x opts)
  show ?case
  proof (cases x)
    case None
    with Cons show ?thesis by (simp add: settle_def)
  next
    case (Some opt)
    with Cons show ?thesis by (cases opt) (simp_all add: settle_def)
  qed
qed

text \<open>
  A connection is loaded with exactly what was asked for last. Whatever the number and order of
  options, each setting has the value of the last option that sets it; without a region nothing is
  loaded and the error is \<open>ErrEmptyRegion\<close>; static credentials are loaded exactly when the last
  \<open>WithAccessKey\<close> gave both parts, and then no profile is, whichever option came first.
\<close>

theorem connection_uses_last_options:
  assumes "o' = settle opts newConnOptions"
  shows "NewConn load opts = (if lastOf regionIn [] opts = [] then Inl (Sentinel ErrEmptyRegion)
      else load (buildLoadOptions o')) \<and>
    (LoadStaticCredentials k s tok \<in> set (buildLoadOptions o') \<longleftrightarrow>
       lastOf keysIn ([], []) opts = (k, s) \<and> k \<noteq> [] \<and> s \<noteq> [] \<and> tok = lastOf tokenIn [] opts) \<and>
    (LoadProfile p \<in> set (buildLoadOptions o') \<longleftrightarrow>
       p = lastOf profileIn [] opts \<and> p \<noteq> [] \<and> (\<nexists>k s tok. LoadStaticCredentials k s tok \<in> set (buildLoadOptions o'))) \<and>
    (LoadEndpoint u \<in> set (buildLoadOptions o') \<longleftrightarrow> u = lastOf endpointIn [] opts \<and> u \<noteq> []) \<and>
    (LoadRetryer n \<in> set (buildLoadOptions o') \<longleftrightarrow> n = lastOf countIn 10 opts)"
proof -
  have o': "region o' = lastOf regionIn [] opts" "(accessKey o', secretKey o') = lastOf keysIn ([], []) opts"
    "sessionToken o' = lastOf tokenIn [] opts" "profile o' = lastOf profileIn [] opts"
    "endpoint o' = lastOf endpointIn [] opts" "retryCount o' = lastOf countIn 10 opts"
    by (simp_all add: assms settle_def newConnOptions_def Let_def)
  have "NewConn load opts = (if region o' = [] then Inl (Sentinel ErrEmptyRegion) else load (buildLoadOptions o'))"
    by (simp add: NewConn_def settle_options assms)
  then show ?thesis
    unfolding o' [symmetric] by (auto simp: buildLoadOptions_def hasStaticCredentials_def)
qed

lemma connection_uses_last_options_witness:
  "NewConn Inr [Some (WithAccessKey ''ak'' ''sk''), Some (WithRegion ''eu-west-1''), None, Some (WithProfile ''dev'')] =
     Inr [LoadRegion ''eu-west-1'', LoadRetryer 10, LoadStaticCredentials ''ak'' ''sk'' []]"
  using connection_uses_last_options [OF refl, of Inr
      "[Some (WithAccessKey ''ak'' ''sk''), Some (WithRegion ''eu-west-1''), None, Some (WithProfile ''dev'')]"]
  by (simp add: settle_def newConnOptions_def buildLoadOptions_def hasStaticCredentials_def)

end
