(* ===== verification/Collectors.thy ===== *)
theory Collectors
  imports Middleware
begin

text \<open>
  How the observing middlewares are configured: the options of \<open>Metrics\<close> and the registration of its
  Prometheus collectors (\<open>src/middleware/metrics.go\<close>), and the options of \<open>OTel\<close> (\<open>otel.go\<close>).

  A collector is allocated by a \<open>New\<dots>Vec\<close> call; its address is the field \<open>ident\<close>, so that two collectors
  of the same description are still different objects. The registry is code outside \<open>src/\<close>: a state
  and a function answering \<open>Register\<close>. \<open>lawful_registry\<close> states what its documentation promises of it.
\<close>

section \<open>Options\<close>

text \<open>
  Unlike the other packages, neither loader skips a nil option: calling it panics. A nil interface
  value inside an option is \<open>None\<close>.
\<close>

fun callOptions :: "('o \<Rightarrow> 'c \<Rightarrow> 'c) \<Rightarrow> 'o option list \<Rightarrow> 'c \<Rightarrow> 'c outcome" where
  "callOptions f [] cfg = Return cfg"
| "callOptions f (None # opts) cfg = Panic nilDeref"
| "callOptions f (Some opt # opts) cfg = callOptions f opts (f opt cfg)"

datatype 'r metrics_option = WithMetricsRegisterer "'r option"

record 'r metrics_config =
  registerer :: "'r option"

fun applyMetrics :: "'r metrics_option \<Rightarrow> 'r metrics_config \<Rightarrow> 'r metrics_config" where
  "applyMetrics (WithMetricsRegisterer r) cfg = (if r \<noteq> None then cfg\<lparr>registerer := r\<rparr> else cfg)"

text \<open>\<open>def\<close> is \<open>prometheus.DefaultRegisterer\<close>, a variable that a program may have set to nil.\<close>

definition loadMetricsConfig :: "'r option \<Rightarrow> 'r metrics_option option list \<Rightarrow> 'r metrics_config outcome" where
  "loadMetricsConfig def opts = (case callOptions applyMetrics opts \<lparr>registerer = def\<rparr> of
     Panic p \<Rightarrow> Panic p
   | Return cfg \<Rightarrow> Return (if registerer cfg = None then cfg\<lparr>registerer := def\<rparr> else cfg))"

datatype 'tp otel_option = WithTracerProvider "'tp option" | WithLinkFromContext

record 'tp otel_config =
  tracerProvider :: 'tp
  linkFromContext :: bool

fun applyOTel :: "'tp otel_option \<Rightarrow> 'tp otel_config \<Rightarrow> 'tp otel_config" where
  "applyOTel (WithTracerProvider tp) cfg = (case tp of None \<Rightarrow> cfg | Some p \<Rightarrow> cfg\<lparr>tracerProvider := p\<rparr>)"
| "applyOTel WithLinkFromContext cfg = cfg\<lparr>linkFromContext := True\<rparr>"

text \<open>\<open>global\<close> is what \<open>otel.GetTracerProvider\<close> returns, never nil.\<close>

definition loadOTelConfig :: "'tp \<Rightarrow> 'tp otel_option option list \<Rightarrow> 'tp otel_config outcome" where
  "loadOTelConfig global opts = callOptions applyOTel opts \<lparr>tracerProvider = global, linkFromContext = False\<rparr>"

lemma callOptions_Return:
  "callOptions f (map Some opts) cfg = Return (fold f opts cfg)"
  by (induction opts arbitrary: cfg) simp_all

lemma callOptions_nil:
  "None \<in> set opts \<Longrightarrow> callOptions f opts cfg = Panic nilDeref"
  by (induction f opts cfg rule: callOptions.induct) auto

section \<open>Registration\<close>

datatype collector_kind = CounterVec | HistogramVec | GaugeVec

record collector =
  kind :: collector_kind
  fqName :: string
  helpText :: string
  labelNames :: "string list"
  ident :: nat

text \<open>An error of \<open>Register\<close>: \<open>AlreadyRegisteredError\<close> with the existing collector, or another one.\<close>

datatype register_error = AlreadyRegistered collector | OtherRegisterError string

type_synonym 's registry = "collector \<Rightarrow> 's \<Rightarrow> register_error option \<times> 's"

definition registerCounterVec :: "'s registry \<Rightarrow> collector \<Rightarrow> 's \<Rightarrow> collector \<times> 's" where
  "registerCounterVec reg c st = (case reg c st of
     (Some (AlreadyRegistered existing), st') \<Rightarrow> (if kind existing = CounterVec then existing else c, st')
   | (_, st') \<Rightarrow> (c, st'))"

definition registerHistogramVec :: "'s registry \<Rightarrow> collector \<Rightarrow> 's \<Rightarrow> collector \<times> 's" where
  "registerHistogramVec reg h st = (case reg h st of
     (Some (AlreadyRegistered existing), st') \<Rightarrow> (if kind existing = HistogramVec then existing else h, st')
   | (_, st') \<Rightarrow> (h, st'))"

definition registerGaugeVec :: "'s registry \<Rightarrow> collector \<Rightarrow> 's \<Rightarrow> collector \<times> 's" where
  "registerGaugeVec reg g st = (case reg g st of
     (Some (AlreadyRegistered existing), st') \<Rightarrow> (if kind existing = GaugeVec then existing else g, st')
   | (_, st') \<Rightarrow> (g, st'))"

definition metricDLQ :: string where "metricDLQ = ''loafer_messages_dlq_total''"

text \<open>The six collectors as \<open>Metrics\<close> describes them, allocated at \<open>n\<close>.\<close>

definition receivedVec :: "nat \<Rightarrow> collector" where
  "receivedVec n = \<lparr>kind = CounterVec, fqName = metricReceived, helpText = ''Total messages received'',
     labelNames = [''route''], ident = n\<rparr>"

definition processedVec :: "nat \<Rightarrow> collector" where
  "processedVec n = \<lparr>kind = CounterVec, fqName = metricProcessed, helpText = ''Total messages processed'',
     labelNames = [''route'', ''status''], ident = n\<rparr>"

definition errorsVec :: "nat \<Rightarrow> collector" where
  "errorsVec n = \<lparr>kind = CounterVec, fqName = metricErrors, helpText = ''Total message processing errors'',
     labelNames = [''route''], ident = n\<rparr>"

definition durationVec :: "nat \<Rightarrow> collector" where
  "durationVec n = \<lparr>kind = HistogramVec, fqName = metricDuration, helpText = ''Message processing duration'',
     labelNames = [''route''], ident = n\<rparr>"

definition inflightVec :: "nat \<Rightarrow> collector" where
  "inflightVec n = \<lparr>kind = GaugeVec, fqName = metricInflight, helpText = ''Messages currently being processed'',
     labelNames = [''route''], ident = n\<rparr>"

definition dlqVec :: "nat \<Rightarrow> collector" where
  "dlqVec n = \<lparr>kind = CounterVec, fqName = metricDLQ,
     helpText = ''Total messages observed as exhausted (receive count reached maxReceiveCount; redriven by AWS SQS)'',
     labelNames = [''route''], ident = n\<rparr>"

text \<open>The collectors the returned middleware updates.\<close>

record metric_collectors =
  mcReceived :: collector
  mcProcessed :: collector
  mcErrors :: collector
  mcDuration :: collector
  mcInflight :: collector

definition metricsCollectors :: "'s registry \<Rightarrow> nat \<Rightarrow> 's \<Rightarrow> metric_collectors \<times> 's" where
  "metricsCollectors reg n st =
     (let (received, st) = registerCounterVec reg (receivedVec n) st;
          (processed, st) = registerCounterVec reg (processedVec (n + 1)) st;
          (errorsTotal, st) = registerCounterVec reg (errorsVec (n + 2)) st;
          (duration, st) = registerHistogramVec reg (durationVec (n + 3)) st;
          (inflight, st) = registerGaugeVec reg (inflightVec (n + 4)) st;
          (_, st) = registerCounterVec reg (dlqVec (n + 5)) st
      in (\<lparr>mcReceived = received, mcProcessed = processed, mcErrors = errorsTotal,
           mcDuration = duration, mcInflight = inflight\<rparr>, st))"

lemmas vec_defs = receivedVec_def processedVec_def errorsVec_def durationVec_def inflightVec_def dlqVec_def

section \<open>A lawful registry\<close>

text \<open>Two collectors with the same description; only their addresses may differ.\<close>

definition same_desc :: "collector \<Rightarrow> collector \<Rightarrow> bool" where
  "same_desc c c' \<longleftrightarrow> c\<lparr>ident := 0\<rparr> = c'\<lparr>ident := 0\<rparr>"

text \<open>
  What the registry documents: a collector whose name is new is registered, and gathered from then
  on; one whose name, help text and labels are those of a registered collector is refused with an
  \<open>AlreadyRegisteredError\<close> that holds the registered one (whatever its kind); another use of a
  registered name is refused with another error. \<open>gathered\<close> are the collectors a state holds.
\<close>

definition lawful_registry :: "'s registry \<Rightarrow> ('s \<Rightarrow> collector set) \<Rightarrow> bool" where
  "lawful_registry reg gathered \<longleftrightarrow> (\<forall>c st.
     ((\<forall>ex \<in> gathered st. fqName ex \<noteq> fqName c) \<longrightarrow>
        fst (reg c st) = None \<and> gathered (snd (reg c st)) = insert c (gathered st)) \<and>
     (\<forall>ex \<in> gathered st. fqName ex = fqName c \<longrightarrow>
        reg c st = (if helpText ex = helpText c \<and> labelNames ex = labelNames c
                    then (Some (AlreadyRegistered ex), st)
                    else (Some (OtherRegisterError (fqName c)), st))))"

text \<open>A state in which the names of the library's collectors are not used for anything else.\<close>

definition metric_vecs :: "collector list" where
  "metric_vecs = [receivedVec 0, processedVec 0, errorsVec 0, durationVec 0, inflightVec 0, dlqVec 0]"

definition no_clash :: "collector set \<Rightarrow> bool" where
  "no_clash S \<longleftrightarrow> (\<forall>v \<in> set metric_vecs. \<forall>ex \<in> S. fqName ex = fqName v \<longrightarrow> same_desc ex v)"

lemma same_desc_iff:
  "same_desc c c' \<longleftrightarrow> kind c = kind c' \<and> fqName c = fqName c' \<and> helpText c = helpText c' \<and> labelNames c = labelNames c'"
  by (cases c; cases c') (auto simp: same_desc_def)

definition registerVec :: "collector_kind \<Rightarrow> 's registry \<Rightarrow> collector \<Rightarrow> 's \<Rightarrow> collector \<times> 's" where
  "registerVec k reg c st = (case reg c st of
     (Some (AlreadyRegistered existing), st') \<Rightarrow> (if kind existing = k then existing else c, st')
   | (_, st') \<Rightarrow> (c, st'))"

lemma register_kinds:
  "registerCounterVec = registerVec CounterVec" "registerHistogramVec = registerVec HistogramVec"
  "registerGaugeVec = registerVec GaugeVec"
  by (intro ext; simp add: registerCounterVec_def registerHistogramVec_def registerGaugeVec_def registerVec_def)+

text \<open>The description of a name in use, as a function of the state.\<close>

definition holds :: "collector set \<Rightarrow> collector \<Rightarrow> collector \<Rightarrow> bool" where
  "holds S v c \<longleftrightarrow> c \<in> S \<and> same_desc c v"

lemma registerVec_known:
  assumes law: "lawful_registry reg gathered" and "ex \<in> gathered st" and "same_desc ex c" and "k = kind c"
  shows "registerVec k reg c st = (ex, st)"
  using assms unfolding lawful_registry_def registerVec_def by (auto simp: same_desc_iff)

lemma metric_names_distinct: "inj_on fqName (set metric_vecs)"
proof -
  have "map fqName metric_vecs = [metricReceived, metricProcessed, metricErrors, metricDuration, metricInflight, metricDLQ]"
    by (simp add: metric_vecs_def vec_defs)
  moreover have "distinct \<dots>" by (simp add: metric_names metricDLQ_def)
  ultimately have "distinct (map fqName metric_vecs)" by simp
  then show ?thesis by (simp add: distinct_map)
qed

lemma registerVec_step:
  assumes law: "lawful_registry reg gathered" and nc: "no_clash (gathered st)"
    and v: "v \<in> set metric_vecs" "same_desc c v" "k = kind c"
  obtains ex st' where "registerVec k reg c st = (ex, st')" "holds (gathered st') v ex"
    "gathered st \<subseteq> gathered st'" "no_clash (gathered st')"
proof (cases "\<exists>ex \<in> gathered st. fqName ex = fqName c")
  case True
  then obtain ex where ex: "ex \<in> gathered st" "fqName ex = fqName c" by blast
  with nc v have d: "same_desc ex v" unfolding no_clash_def by (simp add: same_desc_iff)
  with v(2) have "same_desc ex c" by (simp add: same_desc_iff)
  from registerVec_known [OF law ex(1) this v(3)] show ?thesis
    using that ex(1) d nc by (simp add: holds_def)
next
  case False
  then have "fst (reg c st) = None" "gathered (snd (reg c st)) = insert c (gathered st)"
    using law unfolding lawful_registry_def by blast+
  then obtain st' where st': "reg c st = (None, st')" "gathered st' = insert c (gathered st)"
    by (metis prod.collapse)
  have "no_clash (gathered st')"
    unfolding no_clash_def
  proof (intro ballI impI)
    fix w ex assume w: "w \<in> set metric_vecs" and "ex \<in> gathered st'" and n: "fqName ex = fqName w"
    then consider "ex = c" | "ex \<in> gathered st" using st'(2) by blast
    then show "same_desc ex w"
    proof cases
      case 1
      with n v have "fqName v = fqName w" by (simp add: same_desc_iff)
      with w v(1) have "v = w" using metric_names_distinct by (metis inj_onD)
      with 1 v(2) show ?thesis by simp
    next
      case 2
      with nc w n show ?thesis by (simp add: no_clash_def)
    qed
  qed
  then show ?thesis using that [of c st'] st' v by (auto simp: registerVec_def holds_def)
qed

lemma vec_kinds: "kind (receivedVec n) = CounterVec" "kind (processedVec n) = CounterVec" "kind (errorsVec n) = CounterVec"
    "kind (durationVec n) = HistogramVec" "kind (inflightVec n) = GaugeVec" "kind (dlqVec n) = CounterVec"
  by (simp_all add: vec_defs)

lemma vec_descs: "same_desc (receivedVec n) (receivedVec 0)" "same_desc (processedVec n) (processedVec 0)"
    "same_desc (errorsVec n) (errorsVec 0)" "same_desc (durationVec n) (durationVec 0)"
    "same_desc (inflightVec n) (inflightVec 0)" "same_desc (dlqVec n) (dlqVec 0)"
  by (simp_all add: same_desc_iff vec_defs)

lemma vec_mem: "receivedVec 0 \<in> set metric_vecs" "processedVec 0 \<in> set metric_vecs" "errorsVec 0 \<in> set metric_vecs"
    "durationVec 0 \<in> set metric_vecs" "inflightVec 0 \<in> set metric_vecs" "dlqVec 0 \<in> set metric_vecs"
  by (simp_all add: metric_vecs_def)

lemma holds_mono: "holds S v c \<Longrightarrow> S \<subseteq> S' \<Longrightarrow> holds S' v c"
  by (auto simp: holds_def)

lemma holds_known: "holds S v c \<Longrightarrow> same_desc c' v \<Longrightarrow> same_desc c c'"
  by (simp add: holds_def same_desc_iff)

text \<open>Registering all six: what a state holds afterwards, and that a second time changes nothing.\<close>

definition holds_metrics :: "collector set \<Rightarrow> metric_collectors \<Rightarrow> bool" where
  "holds_metrics S mc \<longleftrightarrow> holds S (receivedVec 0) (mcReceived mc) \<and> holds S (processedVec 0) (mcProcessed mc) \<and>
     holds S (errorsVec 0) (mcErrors mc) \<and> holds S (durationVec 0) (mcDuration mc) \<and>
     holds S (inflightVec 0) (mcInflight mc)"

lemma metrics_registered:
  assumes law: "lawful_registry reg gathered" and nc: "no_clash (gathered st)"
  obtains mc st' d where "metricsCollectors reg n st = (mc, st')" "holds_metrics (gathered st') mc"
    "holds (gathered st') (dlqVec 0) d" "gathered st \<subseteq> gathered st'"
proof -
  note step = registerVec_step [OF law]
  from step [OF nc vec_mem(1) vec_descs(1) vec_kinds(1) [symmetric]] obtain c1 s1 where
    1: "registerVec CounterVec reg (receivedVec n) st = (c1, s1)" "holds (gathered s1) (receivedVec 0) c1"
      "gathered st \<subseteq> gathered s1" "no_clash (gathered s1)" .
  from step [OF 1(4) vec_mem(2) vec_descs(2) vec_kinds(2) [symmetric]] obtain c2 s2 where
    2: "registerVec CounterVec reg (processedVec (n + 1)) s1 = (c2, s2)" "holds (gathered s2) (processedVec 0) c2"
      "gathered s1 \<subseteq> gathered s2" "no_clash (gathered s2)" .
  from step [OF 2(4) vec_mem(3) vec_descs(3) vec_kinds(3) [symmetric]] obtain c3 s3 where
    3: "registerVec CounterVec reg (errorsVec (n + 2)) s2 = (c3, s3)" "holds (gathered s3) (errorsVec 0) c3"
      "gathered s2 \<subseteq> gathered s3" "no_clash (gathered s3)" .
  from step [OF 3(4) vec_mem(4) vec_descs(4) vec_kinds(4) [symmetric]] obtain c4 s4 where
    4: "registerVec HistogramVec reg (durationVec (n + 3)) s3 = (c4, s4)" "holds (gathered s4) (durationVec 0) c4"
      "gathered s3 \<subseteq> gathered s4" "no_clash (gathered s4)" .
  from step [OF 4(4) vec_mem(5) vec_descs(5) vec_kinds(5) [symmetric]] obtain c5 s5 where
    5: "registerVec GaugeVec reg (inflightVec (n + 4)) s4 = (c5, s5)" "holds (gathered s5) (inflightVec 0) c5"
      "gathered s4 \<subseteq> gathered s5" "no_clash (gathered s5)" .
  from step [OF 5(4) vec_mem(6) vec_descs(6) vec_kinds(6) [symmetric]] obtain c6 s6 where
    6: "registerVec CounterVec reg (dlqVec (n + 5)) s5 = (c6, s6)" "holds (gathered s6) (dlqVec 0) c6"
      "gathered s5 \<subseteq> gathered s6" "no_clash (gathered s6)" .
  let ?mc = "\<lparr>mcReceived = c1, mcProcessed = c2, mcErrors = c3, mcDuration = c4, mcInflight = c5\<rparr>"
  have "metricsCollectors reg n st = (?mc, s6)"
    unfolding metricsCollectors_def register_kinds by (simp only: Let_def 1(1) 2(1) 3(1) 4(1) 5(1) 6(1) prod.case)
  moreover have "gathered s1 \<subseteq> gathered s6" "gathered s2 \<subseteq> gathered s6" "gathered s3 \<subseteq> gathered s6"
    "gathered s4 \<subseteq> gathered s6" "gathered st \<subseteq> gathered s6"
    using 1(3) 2(3) 3(3) 4(3) 5(3) 6(3) by blast+
  moreover from this have "holds_metrics (gathered s6) ?mc"
    unfolding holds_metrics_def using 1(2) 2(2) 3(2) 4(2) 5(2) 6(3) by (simp add: holds_mono)
  ultimately show ?thesis using that 6(2) by blast
qed

lemma metrics_again:
  assumes law: "lawful_registry reg gathered" and h: "holds_metrics (gathered st) mc" "holds (gathered st) (dlqVec 0) d"
  shows "metricsCollectors reg n st = (mc, st)"
proof -
  have known: "registerVec (kind c) reg c st = (ex, st)" if "holds (gathered st) v ex" "same_desc c v" for v ex c
    using registerVec_known [OF law _ holds_known [OF that] refl] that(1) by (simp add: holds_def)
  note h' = h(1) [unfolded holds_metrics_def]
  have "registerVec CounterVec reg (receivedVec n) st = (mcReceived mc, st)"
    using known [of "receivedVec 0" "mcReceived mc" "receivedVec n"] h' by (simp add: vec_kinds vec_descs)
  moreover have "registerVec CounterVec reg (processedVec (n + 1)) st = (mcProcessed mc, st)"
    using known [of "processedVec 0" "mcProcessed mc" "processedVec (n + 1)"] h' by (simp add: vec_kinds vec_descs)
  moreover have "registerVec CounterVec reg (errorsVec (n + 2)) st = (mcErrors mc, st)"
    using known [of "errorsVec 0" "mcErrors mc" "errorsVec (n + 2)"] h' by (simp add: vec_kinds vec_descs)
  moreover have "registerVec HistogramVec reg (durationVec (n + 3)) st = (mcDuration mc, st)"
    using known [of "durationVec 0" "mcDuration mc" "durationVec (n + 3)"] h' by (simp add: vec_kinds vec_descs)
  moreover have "registerVec GaugeVec reg (inflightVec (n + 4)) st = (mcInflight mc, st)"
    using known [of "inflightVec 0" "mcInflight mc" "inflightVec (n + 4)"] h' by (simp add: vec_kinds vec_descs)
  moreover have "registerVec CounterVec reg (dlqVec (n + 5)) st = (d, st)"
    using known [of "dlqVec 0" d "dlqVec (n + 5)"] h(2) by (simp add: vec_kinds vec_descs)
  ultimately show ?thesis unfolding metricsCollectors_def register_kinds by (simp only: Let_def prod.case) simp
qed

text \<open>
  Every \<open>Metrics\<close> middleware made on one lawful registry, whose names are not used for
  anything else, updates the same five collectors: making one never fails, the collectors it gets are
  registered (so what it counts is gathered) under the names, kinds and labels of the documentation,
  and making another later, whatever addresses its own collectors have, yields the same collectors and
  leaves the registry as it is, so that no route's counts are lost.
\<close>

theorem metrics_share_collectors:
  assumes "lawful_registry reg gathered" and "no_clash (gathered st)"
  shows "\<exists>mc st'. metricsCollectors reg n st = (mc, st') \<and> holds_metrics (gathered st') mc \<and>
    gathered st \<subseteq> gathered st' \<and> (\<forall>n'. metricsCollectors reg n' st' = (mc, st'))"
  using metrics_registered [OF assms, of n] metrics_again [OF assms(1)] by metis

text \<open>A registry that keeps the registered collectors in a list.\<close>

definition listRegistry :: "collector list registry" where
  "listRegistry c st = (case find (\<lambda>ex. fqName ex = fqName c) st of
     None \<Rightarrow> (None, c # st)
   | Some ex \<Rightarrow> (if helpText ex = helpText c \<and> labelNames ex = labelNames c
       then (Some (AlreadyRegistered ex), st) else (Some (OtherRegisterError (fqName c)), st)))"

definition listGathered :: "collector list \<Rightarrow> collector set" where
  "listGathered st = {c. find (\<lambda>ex. fqName ex = fqName c) st = Some c}"

lemma listRegistry_lawful: "lawful_registry listRegistry listGathered"
  unfolding lawful_registry_def
proof (intro allI conjI impI ballI)
  fix c :: collector and st assume new: "\<forall>ex \<in> listGathered st. fqName ex \<noteq> fqName c"
  have none: "find (\<lambda>ex. fqName ex = fqName c) st = None"
  proof (rule ccontr)
    assume "find (\<lambda>ex. fqName ex = fqName c) st \<noteq> None"
    then obtain ex where ex: "find (\<lambda>ex. fqName ex = fqName c) st = Some ex" by blast
    then have same: "fqName ex = fqName c" by (auto simp: find_Some_iff)
    with ex have "find (\<lambda>y. fqName y = fqName ex) st = Some ex" by simp
    then have "ex \<in> listGathered st" by (simp add: listGathered_def)
    with new same show False by blast
  qed
  then show "fst (listRegistry c st) = None" by (simp add: listRegistry_def)
  have "find (\<lambda>ex. fqName ex = fqName x) (c # st) = Some x \<longleftrightarrow>
      x = c \<or> find (\<lambda>ex. fqName ex = fqName x) st = Some x" for x
    using none by auto
  with none show "listGathered (snd (listRegistry c st)) = insert c (listGathered st)"
    by (auto simp: listRegistry_def listGathered_def)
next
  fix c :: collector and st ex assume "ex \<in> listGathered st" "fqName ex = fqName c"
  then have "find (\<lambda>ex. fqName ex = fqName c) st = Some ex" by (simp add: listGathered_def)
  then show "listRegistry c st = (if helpText ex = helpText c \<and> labelNames ex = labelNames c
      then (Some (AlreadyRegistered ex), st) else (Some (OtherRegisterError (fqName c)), st))"
    by (simp add: listRegistry_def)
qed

theorem metrics_share_collectors_witness:
  "\<exists>mc st. metricsCollectors listRegistry 0 [] = (mc, st) \<and> mcReceived mc = receivedVec 0 \<and>
     metricsCollectors listRegistry 6 st = (mc, st)"
proof -
  have "no_clash (listGathered [])" by (simp add: no_clash_def listGathered_def)
  from metrics_share_collectors [OF listRegistry_lawful this, of 0] obtain mc st where
    mc: "metricsCollectors listRegistry 0 [] = (mc, st)" "metricsCollectors listRegistry 6 st = (mc, st)" by blast
  have "mcReceived (fst (metricsCollectors listRegistry 0 [])) = receivedVec 0"
    by (simp add: metricsCollectors_def registerCounterVec_def listRegistry_def case_prod_beta Let_def)
  with mc show ?thesis by (metis fst_conv)
qed

section \<open>The loaders\<close>

text \<open>
  With options that are not nil the registry is the last one given that is not nil, otherwise the
  default; a nil option panics. The same holds for the tracer provider, and the link
  mode is on when some option asked for it.
\<close>

lemma fold_applyMetrics:
  "registerer (fold applyMetrics opts cfg) =
     fold (\<lambda>opt acc. case opt of WithMetricsRegisterer r \<Rightarrow> if r \<noteq> None then r else acc) opts (registerer cfg)"
proof (induction opts arbitrary: cfg)
  case (Cons opt opts)
  then show ?case by (cases opt) simp
qed simp

lemma metrics_config_loaded:
  "loadMetricsConfig (Some def) (map Some opts) = Return \<lparr>registerer =
     fold (\<lambda>opt acc. case opt of WithMetricsRegisterer r \<Rightarrow> if r \<noteq> None then r else acc) opts (Some def)\<rparr>"
proof -
  define cfg where "cfg = fold applyMetrics opts \<lparr>registerer = Some def\<rparr>"
  have r: "registerer cfg = fold (\<lambda>opt acc. case opt of WithMetricsRegisterer r \<Rightarrow> if r \<noteq> None then r else acc) opts (Some def)"
    by (simp add: cfg_def fold_applyMetrics)
  have "registerer cfg \<noteq> None" unfolding r
    by (rule fold_invariant [where Q = "\<lambda>_. True"]) (auto split: metrics_option.splits)
  with r show ?thesis
    by (cases cfg) (simp add: loadMetricsConfig_def callOptions_Return flip: cfg_def)
qed

lemma nil_option_panics:
  "None \<in> set opts \<Longrightarrow> loadMetricsConfig def opts = Panic nilDeref"
  "None \<in> set opts' \<Longrightarrow> loadOTelConfig global opts' = Panic nilDeref"
  by (simp_all add: loadMetricsConfig_def loadOTelConfig_def callOptions_nil)

lemma otel_config_loaded:
  "loadOTelConfig global (map Some opts) = Return \<lparr>tracerProvider =
       fold (\<lambda>opt acc. case opt of WithTracerProvider (Some tp) \<Rightarrow> tp | _ \<Rightarrow> acc) opts global,
     linkFromContext = (WithLinkFromContext \<in> set opts)\<rparr>"
proof -
  have "tracerProvider (fold applyOTel opts cfg) =
      fold (\<lambda>opt acc. case opt of WithTracerProvider (Some tp) \<Rightarrow> tp | _ \<Rightarrow> acc) opts (tracerProvider cfg) \<and>
    linkFromContext (fold applyOTel opts cfg) = (linkFromContext cfg \<or> WithLinkFromContext \<in> set opts)" for cfg
  proof (induction opts arbitrary: cfg)
    case (Cons opt opts)
    then show ?case by (cases opt) (auto split: option.split)
  qed simp
  then show ?thesis unfolding loadOTelConfig_def callOptions_Return
    by (simp add: otel_config.equality)
qed

end
