(* ===== verification/Fake.thy ===== *)
theory Fake
  imports Consumer Delete_Batcher Producer
begin

text \<open>
  The test doubles of the package \<open>fake\<close>: the SQS, SNS and Scheduler clients (\<open>src/fake/sqs_client.go\<close>,
  \<open>sns_client.go\<close>, \<open>scheduler_client.go\<close>) and the message (\<open>message.go\<close>).

  A method of a fake records its parameters and answers with its function field, a function of the events
  so far like every client of the development, the call itself being the last of them. \<open>fakeClient\<close> is
  the client the library sees, and \<open>replay\<close> the fake after the events of a trace: its recorded calls are
  those of the trace. The locale \<open>message_contract\<close> is what the library relies on of a message;
  both the consumer's message and the fake one satisfy it.
\<close>

section \<open>Clients\<close>

text \<open>The answer of a function field, or a nil output and a nil error.\<close>

definition delegate :: "(trace \<Rightarrow> err + 'o option) option \<Rightarrow> trace \<Rightarrow> err + 'o option" where
  "delegate f t = (case f of None \<Rightarrow> Inr None | Some g \<Rightarrow> g t)"

text \<open>The output of \<open>DeleteMessageBatch\<close>: the Ids of the successful entries and the failed entries.\<close>

record batch_output =
  successful :: "string list"
  failedEntries :: "batch_failure list"

record fake_sqs =
  ReceiveMessageFunc :: "(trace \<Rightarrow> err + sqs_message list option) option"
  DeleteMessageFunc :: "(trace \<Rightarrow> err + unit option) option"
  ChangeMessageVisibilityFunc :: "(trace \<Rightarrow> err + unit option) option"
  GetQueueUrlFunc :: "(trace \<Rightarrow> err + string option option) option"
  SendMessageFunc :: "(trace \<Rightarrow> err + unit option) option"
  DeleteMessageBatchFunc :: "(trace \<Rightarrow> err + batch_output option) option"
  receiveMessageCalls :: "receive_input list"
  deleteMessageCalls :: "(string \<times> string) list"
  changeMessageVisibilityCalls :: "(string \<times> string \<times> go_int32) list"
  getQueueURLCalls :: "string list"
  sendMessageCalls :: "send_input list"
  deleteMessageBatchCalls :: "(string \<times> (string \<times> string) list) option list"

definition ReceiveMessage :: "receive_input \<Rightarrow> trace \<Rightarrow> fake_sqs \<Rightarrow> (err + sqs_message list option) \<times> fake_sqs" where
  "ReceiveMessage params t c =
     (delegate (ReceiveMessageFunc c) t, c\<lparr>receiveMessageCalls := receiveMessageCalls c @ [params]\<rparr>)"

definition DeleteMessage :: "string \<times> string \<Rightarrow> trace \<Rightarrow> fake_sqs \<Rightarrow> (err + unit option) \<times> fake_sqs" where
  "DeleteMessage params t c =
     (delegate (DeleteMessageFunc c) t, c\<lparr>deleteMessageCalls := deleteMessageCalls c @ [params]\<rparr>)"

definition ChangeMessageVisibility :: "string \<times> string \<times> go_int32 \<Rightarrow> trace \<Rightarrow> fake_sqs \<Rightarrow>
    (err + unit option) \<times> fake_sqs" where
  "ChangeMessageVisibility params t c = (delegate (ChangeMessageVisibilityFunc c) t,
     c\<lparr>changeMessageVisibilityCalls := changeMessageVisibilityCalls c @ [params]\<rparr>)"

definition GetQueueUrl :: "string \<Rightarrow> trace \<Rightarrow> fake_sqs \<Rightarrow> (err + string option option) \<times> fake_sqs" where
  "GetQueueUrl params t c =
     (delegate (GetQueueUrlFunc c) t, c\<lparr>getQueueURLCalls := getQueueURLCalls c @ [params]\<rparr>)"

definition SendMessage :: "send_input \<Rightarrow> trace \<Rightarrow> fake_sqs \<Rightarrow> (err + unit option) \<times> fake_sqs" where
  "SendMessage params t c =
     (delegate (SendMessageFunc c) t, c\<lparr>sendMessageCalls := sendMessageCalls c @ [params]\<rparr>)"

text \<open>The library passes an input; a nil one (\<open>None\<close>) yields an empty output.\<close>

definition DeleteMessageBatch :: "(string \<times> (string \<times> string) list) option \<Rightarrow> trace \<Rightarrow> fake_sqs \<Rightarrow>
    (err + batch_output option) \<times> fake_sqs" where
  "DeleteMessageBatch params t c =
     ((case DeleteMessageBatchFunc c of
         Some f \<Rightarrow> f t
       | None \<Rightarrow> (case params of
           None \<Rightarrow> Inr (Some \<lparr>successful = [], failedEntries = []\<rparr>)
         | Some (url, entries) \<Rightarrow> Inr (Some \<lparr>successful = map fst entries, failedEntries = []\<rparr>))),
      c\<lparr>deleteMessageBatchCalls := deleteMessageBatchCalls c @ [params]\<rparr>)"

record fake_sns =
  PublishFunc :: "(trace \<Rightarrow> err + string option option) option"
  PublishBatchFunc :: "(trace \<Rightarrow> err + batch_response option) option"
  publishCalls :: "publish_request list"
  publishBatchCalls :: "(string \<times> batch_request_entry list) list"

definition FakePublish :: "publish_request \<Rightarrow> trace \<Rightarrow> fake_sns \<Rightarrow> (err + string option option) \<times> fake_sns" where
  "FakePublish params t c = (delegate (PublishFunc c) t, c\<lparr>publishCalls := publishCalls c @ [params]\<rparr>)"

definition FakePublishBatch :: "string \<times> batch_request_entry list \<Rightarrow> trace \<Rightarrow> fake_sns \<Rightarrow>
    (err + batch_response option) \<times> fake_sns" where
  "FakePublishBatch params t c =
     (delegate (PublishBatchFunc c) t, c\<lparr>publishBatchCalls := publishBatchCalls c @ [params]\<rparr>)"

record fake_scheduler =
  CreateScheduleFunc :: "(trace \<Rightarrow> err + unit option) option"
  createScheduleCalls :: "schedule_input list"

definition CreateSchedule :: "schedule_input \<Rightarrow> trace \<Rightarrow> fake_scheduler \<Rightarrow> (err + unit option) \<times> fake_scheduler" where
  "CreateSchedule params t c =
     (delegate (CreateScheduleFunc c) t, c\<lparr>createScheduleCalls := createScheduleCalls c @ [params]\<rparr>)"

text \<open>What a test reads: a copy of the recorded inputs.\<close>

definition ReceiveMessageCalls :: "fake_sqs \<Rightarrow> receive_input list" where
  "ReceiveMessageCalls c = receiveMessageCalls c"

definition DeleteMessageCalls :: "fake_sqs \<Rightarrow> (string \<times> string) list" where
  "DeleteMessageCalls c = deleteMessageCalls c"

definition ChangeMessageVisibilityCalls :: "fake_sqs \<Rightarrow> (string \<times> string \<times> go_int32) list" where
  "ChangeMessageVisibilityCalls c = changeMessageVisibilityCalls c"

definition GetQueueURLCalls :: "fake_sqs \<Rightarrow> string list" where
  "GetQueueURLCalls c = getQueueURLCalls c"

definition SendMessageCalls :: "fake_sqs \<Rightarrow> send_input list" where
  "SendMessageCalls c = sendMessageCalls c"

definition DeleteMessageBatchCalls :: "fake_sqs \<Rightarrow> (string \<times> (string \<times> string) list) option list" where
  "DeleteMessageBatchCalls c = deleteMessageBatchCalls c"

definition PublishCalls :: "fake_sns \<Rightarrow> publish_request list" where
  "PublishCalls c = publishCalls c"

definition PublishBatchCalls :: "fake_sns \<Rightarrow> (string \<times> batch_request_entry list) list" where
  "PublishBatchCalls c = publishBatchCalls c"

definition CreateScheduleCalls :: "fake_scheduler \<Rightarrow> schedule_input list" where
  "CreateScheduleCalls c = createScheduleCalls c"

lemmas fake_getters = ReceiveMessageCalls_def DeleteMessageCalls_def ChangeMessageVisibilityCalls_def
  GetQueueURLCalls_def SendMessageCalls_def DeleteMessageBatchCalls_def PublishCalls_def PublishBatchCalls_def
  CreateScheduleCalls_def

section \<open>A fake as the library's client\<close>

text \<open>The error of an answer; an output without fields the library reads does not matter.\<close>

definition errorOf :: "err + 'o \<Rightarrow> err option" where
  "errorOf r = (case r of Inl e \<Rightarrow> Some e | Inr x \<Rightarrow> None)"

text \<open>The parameters of the call made last.\<close>

fun lastBatch :: "trace \<Rightarrow> (string \<times> (string \<times> string) list) option" where
  "lastBatch [] = None"
| "lastBatch t = (case last t of CallDeleteBatch url es \<Rightarrow> Some (url, es) | _ \<Rightarrow> None)"

definition fakeClient :: "fake_sqs \<Rightarrow> sqs_message sqs_client" where
  "fakeClient c = \<lparr>receiveMessage = delegate (ReceiveMessageFunc c),
     deleteMessage = (\<lambda>t. errorOf (delegate (DeleteMessageFunc c) t)),
     changeMessageVisibility = (\<lambda>t. errorOf (delegate (ChangeMessageVisibilityFunc c) t)),
     getQueueUrl = delegate (GetQueueUrlFunc c),
     sendMessage = (\<lambda>t. errorOf (delegate (SendMessageFunc c) t)),
     deleteMessageBatch = Some (\<lambda>t. case fst (DeleteMessageBatch (lastBatch t) t c) of
       Inl e \<Rightarrow> Inl e | Inr out \<Rightarrow> Inr (map_option failedEntries out))\<rparr>"

text \<open>The fake after the calls of a trace.\<close>

fun called :: "event \<Rightarrow> fake_sqs \<Rightarrow> fake_sqs" where
  "called (CallReceive p) c = snd (ReceiveMessage p [] c)"
| "called (CallDelete q h) c = snd (DeleteMessage (q, h) [] c)"
| "called (CallChangeVisibility q h s) c = snd (ChangeMessageVisibility (q, h, s) [] c)"
| "called (CallGetQueueUrl q) c = snd (GetQueueUrl q [] c)"
| "called (CallSend p) c = snd (SendMessage p [] c)"
| "called (CallDeleteBatch q es) c = snd (DeleteMessageBatch (Some (q, es)) [] c)"
| "called _ c = c"

definition replay :: "trace \<Rightarrow> fake_sqs \<Rightarrow> fake_sqs" where
  "replay t c = fold called t c"

text \<open>A fake that is told what to answer and has not been called.\<close>

definition fresh :: "fake_sqs \<Rightarrow> bool" where
  "fresh c \<longleftrightarrow> receiveMessageCalls c = [] \<and> deleteMessageCalls c = [] \<and> changeMessageVisibilityCalls c = [] \<and>
     getQueueURLCalls c = [] \<and> sendMessageCalls c = [] \<and> deleteMessageBatchCalls c = []"

lemmas fake_methods = ReceiveMessage_def DeleteMessage_def ChangeMessageVisibility_def GetQueueUrl_def
  SendMessage_def DeleteMessageBatch_def

lemma replay_snoc: "replay (t @ [e]) c = called e (replay t c)"
  by (simp add: replay_def)

text \<open>What is recorded of a trace.\<close>

fun deleteCall :: "event \<Rightarrow> (string \<times> string) option" where
  "deleteCall (CallDelete q h) = Some (q, h)"
| "deleteCall _ = None"

fun receiveCall :: "event \<Rightarrow> receive_input option" where
  "receiveCall (CallReceive p) = Some p"
| "receiveCall _ = None"

fun visibilityCall :: "event \<Rightarrow> (string \<times> string \<times> go_int32) option" where
  "visibilityCall (CallChangeVisibility q h s) = Some (q, h, s)"
| "visibilityCall _ = None"

fun urlCall :: "event \<Rightarrow> string option" where
  "urlCall (CallGetQueueUrl q) = Some q"
| "urlCall _ = None"

fun batchCall :: "event \<Rightarrow> (string \<times> (string \<times> string) list) option" where
  "batchCall (CallDeleteBatch q es) = Some (q, es)"
| "batchCall _ = None"

lemma called_records:
  "receiveMessageCalls (called e c) = receiveMessageCalls c @ List.map_filter receiveCall [e]"
  "deleteMessageCalls (called e c) = deleteMessageCalls c @ List.map_filter deleteCall [e]"
  "changeMessageVisibilityCalls (called e c) = changeMessageVisibilityCalls c @ List.map_filter visibilityCall [e]"
  "getQueueURLCalls (called e c) = getQueueURLCalls c @ List.map_filter urlCall [e]"
  "sendMessageCalls (called e c) = sendMessageCalls c @ sends [e]"
  "deleteMessageBatchCalls (called e c) = deleteMessageBatchCalls c @ map Some (List.map_filter batchCall [e])"
  "fakeClient (called e c) = fakeClient c"
  by (cases e; simp add: fake_methods fakeClient_def List.map_filter_def)+

lemma map_filter_append: "List.map_filter f (xs @ ys) = List.map_filter f xs @ List.map_filter f ys"
  by (simp add: List.map_filter_def)

text \<open>
  A fake client records exactly the calls the library makes on it, each kind in the order of the calls,
  and being called does not change what it answers.
\<close>

theorem fake_records_the_calls:
  assumes "fresh c"
  shows "ReceiveMessageCalls (replay t c) = List.map_filter receiveCall t \<and>
    DeleteMessageCalls (replay t c) = List.map_filter deleteCall t \<and>
    ChangeMessageVisibilityCalls (replay t c) = List.map_filter visibilityCall t \<and>
    GetQueueURLCalls (replay t c) = List.map_filter urlCall t \<and> SendMessageCalls (replay t c) = sends t \<and>
    DeleteMessageBatchCalls (replay t c) = map Some (List.map_filter batchCall t) \<and> fakeClient (replay t c) = fakeClient c"
  unfolding fake_getters
proof (induction t rule: rev_induct)
  case Nil
  then show ?case using assms by (simp add: replay_def fresh_def List.map_filter_def)
next
  case (snoc e t)
  then show ?case by (simp add: replay_snoc called_records map_filter_append)
qed

text \<open>
  A consumer on a fake that is not told its queue URL never starts; told the URL but not what to receive,
  it gets the nil output of the default and dereferences it in its first poll.
\<close>

lemma unprogrammed_fake_stops_run:
  assumes "coClient co = fakeClient c" and "GetQueueUrlFunc c = None" and "retryModel (coRoute co) \<noteq> ScheduledRetryModel"
  shows "fst (runSetup co rd now rnd t) = Inl (Sentinel ErrQueueResolve)"
  using assms by (simp add: runSetup_def batchDeleteClient_def resolveQueueURL_def fakeClient_def delegate_def Let_def)

lemma unprogrammed_fake_crashes_run:
  assumes "coClient co = fakeClient c" and "ReceiveMessageFunc c = None" and "runSetup co rd now rnd [] = (Inr d, t)"
  shows "\<exists>s. reached co d cx parse s \<and> rsPhase s = Crashed nilDeref"
proof -
  let ?s0 = "startRun d False t"
  let ?s1 = "?s0\<lparr>rsPhase := Receiving, rsPool := recordIn [CallReceive (receiveRequest co d)] (rsPool ?s0)\<rparr>"
  have "run_step co d cx parse ?s0 ?s1" by (rule run_step.receive) (simp_all add: startRun_def)
  moreover have "run_step co d cx parse ?s1 (?s1\<lparr>rsPhase := Crashed nilDeref\<rparr>)"
    by (rule run_step.nil_output) (simp_all add: assms(1,2) fakeClient_def delegate_def)
  ultimately have "(run_step co d cx parse)\<^sup>*\<^sup>* ?s0 (?s1\<lparr>rsPhase := Crashed nilDeref\<rparr>)" by auto
  with assms(3) have "reached co d cx parse (?s1\<lparr>rsPhase := Crashed nilDeref\<rparr>)"
    unfolding reached_def by blast
  then show ?thesis by (rule exI [where x = "?s1\<lparr>rsPhase := Crashed nilDeref\<rparr>", OF conjI]) simp
qed

lemma lastBatch_snoc:
  "lastBatch (t @ [e]) = (case e of CallDeleteBatch url es \<Rightarrow> Some (url, es) | _ \<Rightarrow> None)"
  by (cases t) simp_all

text \<open>The default answer to a batch reports every entry as deleted, so the batcher logs nothing.\<close>

lemma unprogrammed_fake_deletes_all:
  assumes "DeleteMessageBatchFunc c = None"
  shows "sendBatch (the (deleteMessageBatch (fakeClient c))) url batch t =
    t @ [CallDeleteBatch url (entriesOf batch)]"
proof -
  have "lastBatch (t @ [CallDeleteBatch url (entriesOf batch)]) = Some (url, entriesOf batch)"
    by (simp add: lastBatch_snoc)
  then show ?thesis using assms by (simp add: sendBatch_def fakeClient_def DeleteMessageBatch_def Let_def)
qed

section \<open>The message\<close>

record fake_message =
  TimeStampValue :: int
  MetadataValues :: "string gomap"
  AttributeValues :: "string gomap"
  UserAttributeValues :: "string gomap"
  SystemAttributeValues :: "string gomap"
  MessageValue :: string
  IdentifierValue :: string
  BodyData :: string
  backoffDelays :: "duration list"
  dispatchCount :: nat
  BackedOffValue :: bool
  fmBackedOff :: bool

definition copyStringMap :: "string gomap \<Rightarrow> string gomap" where
  "copyStringMap src = fold (\<lambda>(k, v) dst. store k v dst) src []"

text \<open>Indexing a map: the empty string for an absent key.\<close>

definition indexMap :: "string gomap \<Rightarrow> string \<Rightarrow> string" where
  "indexMap m key = (case lookup m key of None \<Rightarrow> [] | Some v \<Rightarrow> v)"

text \<open>\<open>DecodeFunc\<close> and \<open>DecodeMessageFunc\<close> are arguments.\<close>

definition fakeDecode :: "('o \<Rightarrow> 'o \<times> err option) option \<Rightarrow> (string \<Rightarrow> 'o \<Rightarrow> 'o \<times> err option) \<Rightarrow> fake_message \<Rightarrow>
    'o \<Rightarrow> 'o \<times> err option" where
  "fakeDecode f unmarshal m out = (case f of Some g \<Rightarrow> g out | None \<Rightarrow> unmarshal (BodyData m) out)"

definition fakeDecodeMessage :: "('o \<Rightarrow> 'o \<times> err option) option \<Rightarrow> (string \<Rightarrow> 'o \<Rightarrow> 'o \<times> err option) \<Rightarrow>
    fake_message \<Rightarrow> 'o \<Rightarrow> 'o \<times> err option" where
  "fakeDecodeMessage f unmarshal m out = (case f of Some g \<Rightarrow> g out | None \<Rightarrow> unmarshal (MessageValue m) out)"

definition fakeAttribute :: "fake_message \<Rightarrow> string \<Rightarrow> string" where
  "fakeAttribute m key = indexMap (AttributeValues m) key"

definition fakeAttributes :: "fake_message \<Rightarrow> string gomap" where
  "fakeAttributes m = copyStringMap (AttributeValues m)"

definition fakeUserAttribute :: "fake_message \<Rightarrow> string \<Rightarrow> string" where
  "fakeUserAttribute m key = indexMap (UserAttributeValues m) key"

definition fakeUserAttributes :: "fake_message \<Rightarrow> string gomap" where
  "fakeUserAttributes m = copyStringMap (UserAttributeValues m)"

definition fakeSystemAttribute :: "fake_message \<Rightarrow> string \<Rightarrow> string" where
  "fakeSystemAttribute m key = indexMap (SystemAttributeValues m) key"

definition fakeSystemAttributes :: "fake_message \<Rightarrow> string gomap" where
  "fakeSystemAttributes m = copyStringMap (SystemAttributeValues m)"

definition fakeMetadata :: "fake_message \<Rightarrow> string gomap" where
  "fakeMetadata m = copyStringMap (MetadataValues m)"

definition fakeBody :: "fake_message \<Rightarrow> string" where
  "fakeBody m = BodyData m"

definition fakeIdentifier :: "fake_message \<Rightarrow> string" where
  "fakeIdentifier m = IdentifierValue m"

definition fakeMessageText :: "fake_message \<Rightarrow> string" where
  "fakeMessageText m = MessageValue m"

definition fakeTimeStamp :: "fake_message \<Rightarrow> int" where
  "fakeTimeStamp m = TimeStampValue m"

definition fakeDispatchCount :: "fake_message \<Rightarrow> nat" where
  "fakeDispatchCount m = dispatchCount m"

definition fakeBackoffDelays :: "fake_message \<Rightarrow> duration list" where
  "fakeBackoffDelays m = backoffDelays m"

definition fakeDispatch :: "fake_message \<Rightarrow> fake_message" where
  "fakeDispatch m = m\<lparr>dispatchCount := dispatchCount m + 1\<rparr>"

definition fakeBackoff :: "duration \<Rightarrow> fake_message \<Rightarrow> fake_message" where
  "fakeBackoff delay m = m\<lparr>fmBackedOff := True, backoffDelays := backoffDelays m @ [delay]\<rparr>"

definition fakeBackedOff :: "fake_message \<Rightarrow> bool" where
  "fakeBackedOff m \<longleftrightarrow> fmBackedOff m \<or> BackedOffValue m"

text \<open>What the dispatcher and a handler rely on of a message.\<close>

locale message_contract =
  fixes call_backoff :: "duration \<Rightarrow> 'm \<Rightarrow> 'm" and call_dispatch :: "'m \<Rightarrow> 'm" and backed_off :: "'m \<Rightarrow> bool"
    and done_with :: "'m \<Rightarrow> bool" and content :: "'m \<Rightarrow> string \<times> string"
  assumes backoff_marks: "backed_off (call_backoff dl m)"
    and dispatch_marks: "done_with (call_dispatch m)"
    and dispatch_keeps: "backed_off (call_dispatch m) = backed_off m" "content (call_dispatch m) = content m"
    and backoff_keeps: "done_with (call_backoff dl m) = done_with m" "content (call_backoff dl m) = content m"
begin

text \<open>After any sequence of the two calls: what they leave marked, and that the content is as received.\<close>

lemma after_calls:
  "backed_off (fold (case_option call_dispatch call_backoff) cs m) \<longleftrightarrow> (\<exists>dl. Some dl \<in> set cs) \<or> backed_off m"
  "done_with (fold (case_option call_dispatch call_backoff) cs m) \<longleftrightarrow> None \<in> set cs \<or> done_with m"
  "content (fold (case_option call_dispatch call_backoff) cs m) = content m"
proof (induction cs arbitrary: m)
  case (Cons x cs)
  { case 1 show ?case using Cons.IH(1) by (cases x) (auto simp: backoff_marks dispatch_keeps) }
  { case 2 show ?case using Cons.IH(2) by (cases x) (auto simp: dispatch_marks backoff_keeps) }
  { case 3 show ?case using Cons.IH(3) by (cases x) (auto simp: dispatch_keeps backoff_keeps) }
qed simp_all

end

interpretation rmsg: message_contract "\<lambda>dl m. fst (Backoff dl m)" Dispatch BackedOff dispatched "\<lambda>m. (Body m, Identifier m)"
  by unfold_locales
    (auto simp: Backoff_def Dispatch_def BackedOff_def Body_def Identifier_def Let_def split: sent.splits)

lemmas fake_reads = fakeBody_def fakeIdentifier_def fakeMessageText_def fakeTimeStamp_def fakeDispatchCount_def
  fakeBackoffDelays_def

interpretation fmsg: message_contract fakeBackoff fakeDispatch fakeBackedOff "\<lambda>m. 0 < fakeDispatchCount m"
    "\<lambda>m. (fakeBody m, fakeIdentifier m)"
  by unfold_locales (auto simp: fakeBackoff_def fakeDispatch_def fakeBackedOff_def fake_reads)

text \<open>What a fake message recorded of a sequence of the two calls.\<close>

lemma fake_message_records:
  "fakeBackoffDelays (fold (case_option fakeDispatch fakeBackoff) cs m) = fakeBackoffDelays m @ List.map_filter (\<lambda>x. x) cs \<and>
   fakeDispatchCount (fold (case_option fakeDispatch fakeBackoff) cs m) = fakeDispatchCount m + count_list cs None"
proof (induction cs arbitrary: m)
  case (Cons x cs)
  show ?case
    using Cons.IH [of "case_option fakeDispatch fakeBackoff x m"]
    by (cases x) (simp_all add: fake_reads fakeDispatch_def fakeBackoff_def List.map_filter_def)
qed (simp add: List.map_filter_def)

text \<open>The fake message with the values of a received one.\<close>

definition fakeOf :: "message \<Rightarrow> fake_message" where
  "fakeOf m = \<lparr>TimeStampValue = TimeStamp m, MetadataValues = Metadata m, AttributeValues = Attributes m,
     UserAttributeValues = UserMessageAttributes m, SystemAttributeValues = SystemAttributes m,
     MessageValue = MessageText m, IdentifierValue = Identifier m, BodyData = Body m, backoffDelays = [],
     dispatchCount = 0, BackedOffValue = BackedOff m, fmBackedOff = False\<rparr>"

text \<open>
  A handler cannot tell the fake message with the values of a received one from it: the single-key
  accessors agree, decoding agrees, and after any sequence of \<open>Dispatch\<close> and \<open>Backoff\<close> calls so do
  \<open>BackedOff\<close>, whether it was dispatched, its body and its identifier; only a blocked \<open>Backoff\<close> of the
  real one differs.
\<close>

theorem fake_message_agrees:
  assumes "wf_map (seMessageAttributes (envelope m))" "wf_map (smAttributes (original m))"
    "wf_map (smMessageAttributes (original m))" "\<not> dispatched m"
  shows "fakeAttribute (fakeOf m) k = Attribute m k \<and> fakeUserAttribute (fakeOf m) k = UserMessageAttribute m k \<and>
    fakeSystemAttribute (fakeOf m) k = SystemAttributeByKey m k \<and>
    fakeDecode None unmarshal (fakeOf m) out = Decode unmarshal m out \<and>
    fakeDecodeMessage None unmarshal (fakeOf m) out = DecodeMessage unmarshal m out \<and>
    (let real = fold (case_option Dispatch (\<lambda>dl m. fst (Backoff dl m))) cs m;
         fake = fold (case_option fakeDispatch fakeBackoff) cs (fakeOf m)
     in fakeBackedOff fake = BackedOff real \<and> (0 < fakeDispatchCount fake) = dispatched real \<and>
        fakeBody fake = Body real \<and> fakeIdentifier fake = Identifier real \<and>
        fakeBackoffDelays fake = List.map_filter (\<lambda>x. x) cs) \<and>
    fakeMessageText (fakeOf m) = MessageText m \<and> fakeTimeStamp (fakeOf m) = TimeStamp m"
proof -
  have start: "fakeBackedOff (fakeOf m) = BackedOff m" "(0 < fakeDispatchCount (fakeOf m)) = dispatched m"
    "fakeBody (fakeOf m) = Body m" "fakeIdentifier (fakeOf m) = Identifier m" "fakeBackoffDelays (fakeOf m) = []"
    "fakeMessageText (fakeOf m) = MessageText m" "fakeTimeStamp (fakeOf m) = TimeStamp m"
    using assms(4) by (simp_all add: fakeOf_def fakeBackedOff_def fake_reads)
  have attrs: "fakeAttribute (fakeOf m) k = Attribute m k" "fakeSystemAttribute (fakeOf m) k = SystemAttributeByKey m k"
    using assms(1,2) lookup_fold_store [of "smAttributes (original m)" "\<lambda>v. v"]
    by (simp_all add: fakeAttribute_def fakeSystemAttribute_def fakeOf_def indexMap_def Attribute_def Attributes_def
        SystemAttributeByKey_def SystemAttributes_def lookup_fold_store split: option.split)
  show ?thesis unfolding Let_def
    using start attrs rmsg.after_calls [of cs m] fmsg.after_calls [of cs "fakeOf m"]
      fake_message_records [of cs "fakeOf m"] lookup_UserMessageAttributes [OF assms(3)]
    by (auto simp: fakeUserAttribute_def indexMap_def fakeOf_def fakeDecode_def fakeDecodeMessage_def Decode_def
        DecodeMessage_def MessageText_def)
qed

lemma copyStringMap_agrees: "wf_map m \<Longrightarrow> lookup (copyStringMap m) k = lookup m k"
  using lookup_fold_store [of m "\<lambda>v. v" "[]"] by (simp add: copyStringMap_def split: option.split)

end
