(* ===== verification/Log_Handler.thy ===== *)
theory Log_Handler
  imports Errors
begin

text \<open>
  The capturing log handler of the package \<open>fake\<close> (\<open>src/fake/loghandler.go\<close>).

  A handler points to a store shared by all handlers derived from one \<open>NewLogHandler\<close>, so the
  store is an address and the records of every store are the state of the operations. The maps and
  group lists of a handler are copied before they are extended, so they are values. An attribute value
  is what \<open>Value.Resolve\<close> left: a group, or the (possibly nil) value \<open>Any\<close> returns; a
  resolver is code outside \<open>src/\<close>.
\<close>

datatype 'v attr = Attr string "'v attr_value"
and 'v attr_value = Any "'v option" | GroupValue "'v attr list"

text \<open>\<open>slog.Record\<close>, and the entry captured of it.\<close>

record 'v slog_record =
  rTime :: int
  rLevel :: int
  rMessage :: string
  rAttrs :: "'v attr list"

record 'v log_record =
  lrTime :: int
  lrAttrs :: "'v option gomap"
  lrMessage :: string
  lrLevel :: int

record 'v log_handler =
  storeOf :: nat
  preformatted :: "'v option gomap"
  groups :: "string list"
  hLevel :: int

type_synonym 'v stores = "nat \<Rightarrow> 'v log_record list"

definition LevelDebug :: int where "LevelDebug = - 4"

definition NewLogHandler :: "nat \<Rightarrow> 'v log_handler" where
  "NewLogHandler a = \<lparr>storeOf = a, preformatted = [], groups = [], hLevel = LevelDebug\<rparr>"

definition SetLevel :: "int \<Rightarrow> 'v log_handler \<Rightarrow> 'v log_handler" where
  "SetLevel l h = h\<lparr>hLevel := l\<rparr>"

definition Enabled :: "'v log_handler \<Rightarrow> int \<Rightarrow> bool" where
  "Enabled h l \<longleftrightarrow> hLevel h \<le> l"

definition qualifyKey :: "string list \<Rightarrow> string \<Rightarrow> string" where
  "qualifyKey gs key = (if length gs = 0 then key else join ''.'' gs @ ''.'' @ key)"

fun flattenAttr :: "string list \<Rightarrow> 'v attr \<Rightarrow> 'v option gomap \<Rightarrow> 'v option gomap"
  and flattenAttrs :: "string list \<Rightarrow> 'v attr list \<Rightarrow> 'v option gomap \<Rightarrow> 'v option gomap" where
  "flattenAttr gs (Attr key (Any v)) dst =
     (if key = [] \<and> v = None then dst else store (qualifyKey gs key) v dst)"
| "flattenAttr gs (Attr key (GroupValue as)) dst =
     (if as = [] then dst else flattenAttrs (if key \<noteq> [] then gs @ [key] else gs) as dst)"
| "flattenAttrs gs [] dst = dst"
| "flattenAttrs gs (a # as) dst = flattenAttrs gs as (flattenAttr gs a dst)"

text \<open>Copying a map by a range loop.\<close>

definition copyMap :: "'a gomap \<Rightarrow> 'a gomap" where
  "copyMap m = fold (\<lambda>(k, v) dst. store k v dst) m []"

definition Handle :: "'v log_handler \<Rightarrow> 'v slog_record \<Rightarrow> 'v stores \<Rightarrow> 'v stores" where
  "Handle h r st = (let attrs = flattenAttrs (groups h) (rAttrs r) (copyMap (preformatted h));
       rec = \<lparr>lrTime = rTime r, lrAttrs = attrs, lrMessage = rMessage r, lrLevel = rLevel r\<rparr>
     in st(storeOf h := st (storeOf h) @ [rec]))"

definition WithAttrs :: "'v attr list \<Rightarrow> 'v log_handler \<Rightarrow> 'v log_handler" where
  "WithAttrs as h = (if length as = 0 then h
     else h\<lparr>preformatted := flattenAttrs (groups h) as (copyMap (preformatted h))\<rparr>)"

definition WithGroup :: "string \<Rightarrow> 'v log_handler \<Rightarrow> 'v log_handler" where
  "WithGroup name h = (if name = [] then h else h\<lparr>groups := groups h @ [name]\<rparr>)"

definition Records :: "'v log_handler \<Rightarrow> 'v stores \<Rightarrow> 'v log_record list" where
  "Records h st = st (storeOf h)"

definition Reset :: "'v log_handler \<Rightarrow> 'v stores \<Rightarrow> 'v stores" where
  "Reset h st = st(storeOf h := [])"

section \<open>Copies and maps\<close>

lemma store_new: "k \<notin> fst ` set m \<Longrightarrow> store k v m = m @ [(k, v)]"
  by (induction k v m rule: store.induct) auto

lemma fold_store_distinct:
  "distinct (map fst (dst @ m)) \<Longrightarrow> fold (\<lambda>(k, v) dst. store k v dst) m dst = dst @ m"
proof (induction m arbitrary: dst)
  case (Cons p m)
  obtain k v where p: "p = (k, v)" by force
  with Cons.prems have "k \<notin> fst ` set dst" by auto
  moreover have "distinct (map fst ((dst @ [p]) @ m))" using Cons.prems by simp
  ultimately show ?case using Cons.IH [of "dst @ [p]"] by (simp add: p store_new)
qed simp

lemma copyMap_id [simp]: "wf_map m \<Longrightarrow> copyMap m = m"
  by (simp add: copyMap_def wf_map_def fold_store_distinct)

lemma wf_flatten:
  "wf_map dst \<Longrightarrow> wf_map (flattenAttr gs a dst)"
  "wf_map dst \<Longrightarrow> wf_map (flattenAttrs gs as dst)"
  by (induction gs a dst and gs as dst rule: flattenAttr_flattenAttrs.induct) (simp_all add: wf_store)

lemma flattenAttrs_append: "flattenAttrs gs (as @ bs) dst = flattenAttrs gs bs (flattenAttrs gs as dst)"
  by (induction as arbitrary: dst) simp_all

section \<open>Derived handlers\<close>

datatype 'v derivation = AddAttrs "'v attr list" | OpenGroup string

fun derive :: "'v derivation \<Rightarrow> 'v log_handler \<Rightarrow> 'v log_handler" where
  "derive (AddAttrs as) h = WithAttrs as h"
| "derive (OpenGroup g) h = WithGroup g h"

text \<open>What a derivation means for the attributes of a later record, by the contract of \<open>slog.Handler\<close>.\<close>

fun meaning :: "'v derivation \<Rightarrow> 'v attr list \<Rightarrow> 'v attr list" where
  "meaning (AddAttrs as) bs = as @ bs"
| "meaning (OpenGroup g) bs = [Attr g (GroupValue bs)]"

lemma derive_keeps:
  "wf_map (preformatted h) \<Longrightarrow> wf_map (preformatted (derive x h))"
  "storeOf (derive x h) = storeOf h" "hLevel (derive x h) = hLevel h"
  by (cases x; simp add: WithAttrs_def WithGroup_def wf_flatten)+

lemma Handle_derive:
  assumes "wf_map (preformatted h)"
  shows "Handle (derive x h) r st = Handle h (r\<lparr>rAttrs := meaning x (rAttrs r)\<rparr>) st"
  using assms by (cases x) (auto simp: Handle_def WithAttrs_def WithGroup_def flattenAttrs_append wf_flatten)

lemma Handle_derived:
  assumes "wf_map (preformatted h)"
  shows "Handle (fold derive xs h) r st = Handle h (r\<lparr>rAttrs := foldr meaning xs (rAttrs r)\<rparr>) st"
  using assms
proof (induction xs arbitrary: h)
  case (Cons x xs)
  show ?case using Cons.IH [OF derive_keeps(1) [OF Cons.prems]] Handle_derive [OF Cons.prems] by simp
qed simp

lemma storeOf_derived: "storeOf (fold derive xs h) = storeOf h"
  by (induction xs arbitrary: h) (simp_all add: derive_keeps)

text \<open>
  A log handler derived by any sequence of \<open>WithAttrs\<close> and \<open>WithGroup\<close> calls captures exactly what the
  handler it came from captures of a record whose attributes are spelled out: the added attributes first,
  and everything after a group inside that group. The record goes to the end of the one store all of
  them share, so every handler of the family returns it.
\<close>

theorem derived_handlers_capture_the_same:
  "Handle (fold derive xs (NewLogHandler a)) r st =
     Handle (NewLogHandler a) (r\<lparr>rAttrs := foldr meaning xs (rAttrs r)\<rparr>) st \<and>
   Records (fold derive ys (NewLogHandler a)) (Handle (fold derive xs (NewLogHandler a)) r st) =
     Records (NewLogHandler a) st @ [\<lparr>lrTime = rTime r,
       lrAttrs = flattenAttrs [] (foldr meaning xs (rAttrs r)) [], lrMessage = rMessage r, lrLevel = rLevel r\<rparr>]"
proof -
  have "wf_map (preformatted (NewLogHandler a))" by (simp add: NewLogHandler_def wf_map_def)
  note same = Handle_derived [OF this, of xs r st]
  then show ?thesis
    unfolding same by (simp add: Records_def storeOf_derived Handle_def NewLogHandler_def copyMap_def)
qed

text \<open>The entries of a captured record: the leaves of the attributes under their dotted paths.\<close>

fun leaves :: "string list \<Rightarrow> 'v attr \<Rightarrow> (string \<times> 'v option) list"
  and leavesOf :: "string list \<Rightarrow> 'v attr list \<Rightarrow> (string \<times> 'v option) list" where
  "leaves gs (Attr key (Any v)) = (if key = [] \<and> v = None then [] else [(join ''.'' (gs @ [key]), v)])"
| "leaves gs (Attr key (GroupValue as)) = leavesOf (if key = [] then gs else gs @ [key]) as"
| "leavesOf gs [] = []"
| "leavesOf gs (a # as) = leaves gs a @ leavesOf gs as"

lemma join_snoc: "gs \<noteq> [] \<Longrightarrow> join sep (gs @ [k]) = join sep gs @ sep @ k"
proof (induction gs)
  case (Cons g gs)
  then show ?case by (cases gs) simp_all
qed simp

lemma qualifyKey_join: "qualifyKey gs key = join ''.'' (gs @ [key])"
  by (simp add: qualifyKey_def join_snoc)

lemma flatten_leaves:
  "flattenAttr gs a dst = fold (\<lambda>(k, v). store k v) (leaves gs a) dst"
  "flattenAttrs gs as dst = fold (\<lambda>(k, v). store k v) (leavesOf gs as) dst"
  by (induction gs a dst and gs as dst rule: flattenAttr_flattenAttrs.induct)
    (auto simp: qualifyKey_join)

lemma lookup_fold_last:
  "lookup (fold (\<lambda>(k, v). store k v) xs m) k =
     (case lookup (rev xs) k of Some v \<Rightarrow> Some v | None \<Rightarrow> lookup m k)"
proof (induction xs arbitrary: m)
  case (Cons p xs)
  obtain k' v where p: "p = (k', v)" by force
  show ?case using Cons.IH by (simp add: p map_add_def split: option.split)
qed simp

text \<open>The value captured under a dotted path is that of the last attribute with that path.\<close>

lemma captured_value:
  "lookup (flattenAttrs [] as []) path = lookup (rev (leavesOf [] as)) path"
  by (simp add: flatten_leaves lookup_fold_last split: option.split)

end
