(* ===== verification/Go_Parse.thy ===== *)
theory Go_Parse
  imports Go_Time
begin

text \<open>
  Reading text as Go's packages \<open>strings\<close> and \<open>time\<close> do: \<open>TrimSpace\<close>, \<open>HasPrefix\<close>, and \<open>time.Parse\<close> with the
  layout "2006-01-02T15:04:05". The reader accepts what Go's does beyond the layout: an hour of one digit and
  fractional seconds, and it checks the ranges of the fields and the day against the month. The round trip: what
  \<open>formatDateTime\<close> writes is read as the whole second it was written for.
\<close>

section \<open>Trimming\<close>

text \<open>Removing words from the front of a text, as often as one of them is there.\<close>

function strip :: "string list \<Rightarrow> string \<Rightarrow> string" where
  "strip ws s = (case find (\<lambda>w. w \<noteq> [] \<and> take (length w) s = w) ws of
     None \<Rightarrow> s
   | Some w \<Rightarrow> if s = [] then s else strip ws (drop (length w) s))"
  by pat_completeness auto
termination by (relation "measure (\<lambda>(ws, s). length s)") (auto simp: find_Some_iff)

declare strip.simps [simp del]

text \<open>The white space of \<open>unicode.IsSpace\<close>, in UTF-8.\<close>

definition whiteSpace :: "string list" where
  "whiteSpace = map (map char_of) ([[9], [10], [11], [12], [13], [32], [0xC2, 0x85], [0xC2, 0xA0], [0xE1, 0x9A, 0x80]]
     @ map (\<lambda>b. [0xE2, 0x80, b]) ([0x80..<0x8B] @ [0xA8, 0xA9, 0xAF])
     @ [[0xE2, 0x81, 0x9F], [0xE3, 0x80, 0x80 :: nat]])"

definition TrimSpace :: "string \<Rightarrow> string" where
  "TrimSpace s = rev (strip (map rev whiteSpace) (rev (strip whiteSpace s)))"

definition hasPrefix :: "string \<Rightarrow> string \<Rightarrow> bool" where
  "hasPrefix s pre = (take (length pre) s = pre)"

lemma strip_id:
  assumes "\<forall>w \<in> set ws. w \<noteq> [] \<longrightarrow> take (length w) s \<noteq> w"
  shows "strip ws s = s"
proof -
  have "find (\<lambda>w. w \<noteq> [] \<and> take (length w) s = w) ws = None" using assms by (auto simp: find_None_iff)
  then show ?thesis by (simp add: strip.simps)
qed

lemma strip_hd:
  assumes "s \<noteq> []" and "\<forall>w \<in> set ws. w \<noteq> [] \<longrightarrow> hd w \<noteq> hd s"
  shows "strip ws s = s"
proof (rule strip_id, intro ballI impI notI)
  fix w assume w: "w \<in> set ws" "w \<noteq> []" "take (length w) s = w"
  then have "hd w = hd s" using assms(1) by (metis hd_take length_greater_0_conv)
  with w assms(2) show False by blast
qed

text \<open>A text that begins and ends with printable ASCII characters is not trimmed.\<close>

lemma whiteSpace_ends:
  "w \<in> set whiteSpace \<Longrightarrow> of_char (hd w) \<notin> {33..126 :: nat}"
  "w \<in> set (map rev whiteSpace) \<Longrightarrow> of_char (hd w) \<notin> {33..126 :: nat}"
proof -
  have "\<forall>w \<in> set whiteSpace. of_char (hd w) \<notin> {33..126 :: nat} \<and> of_char (last w) \<notin> {33..126 :: nat} \<and> w \<noteq> []"
    by (auto simp: whiteSpace_def upt_rec take_bit_nat_eq_self)
  then show "w \<in> set whiteSpace \<Longrightarrow> of_char (hd w) \<notin> {33..126 :: nat}"
    "w \<in> set (map rev whiteSpace) \<Longrightarrow> of_char (hd w) \<notin> {33..126 :: nat}"
    by (auto simp: hd_rev)
qed

lemma TrimSpace_id:
  assumes "s \<noteq> []" and "of_char (hd s) \<in> {33..126 :: nat}" and "of_char (last s) \<in> {33..126 :: nat}"
  shows "TrimSpace s = s"
proof -
  have "strip whiteSpace s = s"
    using whiteSpace_ends(1) assms(2) by (intro strip_hd [OF assms(1)]) metis
  moreover have "strip (map rev whiteSpace) (rev s) = rev s"
    using whiteSpace_ends(2) assms(1,3) by (intro strip_hd) (simp, metis hd_rev)
  ultimately show ?thesis by (simp add: TrimSpace_def)
qed

section \<open>Reading a date and time\<close>

definition digitVal :: "char \<Rightarrow> int" where
  "digitVal c = int (of_char c) - 48"

fun expect :: "char \<Rightarrow> string \<Rightarrow> string option" where
  "expect c [] = None"
| "expect c (x # s) = (if x = c then Some s else None)"

text \<open>\<open>getnum\<close>: two digits, or one when the field is not fixed.\<close>

fun getnum :: "bool \<Rightarrow> string \<Rightarrow> (int \<times> string) option" where
  "getnum fixed [] = None"
| "getnum fixed [c] = (if is_digit c \<and> \<not> fixed then Some (digitVal c, []) else None)"
| "getnum fixed (c # e # s) = (if \<not> is_digit c then None
     else if is_digit e then Some (10 * digitVal c + digitVal e, s)
     else if fixed then None else Some (digitVal c, e # s))"

definition getYear :: "string \<Rightarrow> (int \<times> string) option" where
  "getYear s = (if length s < 4 then None
     else map_option (\<lambda>n. (int n, drop 4 s)) (parse_digits 0 (take 4 s)))"

text \<open>A field of a two-digit number within a range.\<close>

definition ranged :: "int \<Rightarrow> int \<Rightarrow> (int \<times> string) option \<Rightarrow> (int \<times> string) option" where
  "ranged lo hi r = Option.bind r (\<lambda>(n, s). if lo \<le> n \<and> n \<le> hi then Some (n, s) else None)"

text \<open>Fractional seconds, of which the first nine digits count; the result is in nanoseconds.\<close>

definition fraction :: "string \<Rightarrow> int \<times> string" where
  "fraction s = (case s of
     c # e # rest \<Rightarrow>
       if (c = CHR ''.'' \<or> c = CHR '','') \<and> is_digit e
       then (let ds = takeWhile is_digit (e # rest); used = take 9 ds
             in (int (the (parse_digits 0 used)) * 10 ^ (9 - length used), dropWhile is_digit (e # rest)))
       else (0, s)
   | _ \<Rightarrow> (0, s))"

definition daysIn :: "int \<Rightarrow> int \<Rightarrow> int" where
  "daysIn y m = monthLengths (leap y) ! nat (m - 1)"

definition parseDateTime :: "string \<Rightarrow> int option" where
  "parseDateTime s =
     Option.bind (getYear s) (\<lambda>(y, s). Option.bind (expect CHR ''-'' s) (\<lambda>s.
     Option.bind (ranged 1 12 (getnum True s)) (\<lambda>(m, s). Option.bind (expect CHR ''-'' s) (\<lambda>s.
     Option.bind (getnum True s) (\<lambda>(d, s). Option.bind (expect CHR ''T'' s) (\<lambda>s.
     Option.bind (ranged 0 23 (getnum False s)) (\<lambda>(hh, s). Option.bind (expect CHR '':'' s) (\<lambda>s.
     Option.bind (ranged 0 59 (getnum True s)) (\<lambda>(mi, s). Option.bind (expect CHR '':'' s) (\<lambda>s.
     Option.bind (ranged 0 59 (getnum True s)) (\<lambda>(ss, s).
       case fraction s of (ns, rest) \<Rightarrow>
         if rest \<noteq> [] \<or> d < 1 \<or> daysIn y m < d then None
         else Some ((dayCount (y, m, d) * 86400 + hh * 3600 + mi * 60 + ss) * 1000000000 + ns))))))))))))"

section \<open>Round trip\<close>

lemma digits2: "n < 100 \<Longrightarrow> padded 2 (int n) = [digit (n div 10), digit (n mod 10)]"
proof -
  assume n: "n < 100"
  show ?thesis
  proof (cases "n < 10")
    case True
    then show ?thesis by (simp add: padded_def digits10.simps [of n] digit_def char_of_def bit_simps)
  next
    case False
    with n have "n div 10 < 10" by (simp add: div_less_iff_less_mult)
    then have "digits10 (n div 10) = [digit (n div 10)]" by (simp add: digits10.simps)
    with False show ?thesis by (simp add: padded_def digits10.simps [of n])
  qed
qed

lemma digitVal_digit: "d < 10 \<Longrightarrow> digitVal (digit d) = int d"
  using of_char_digit [of d] by (simp add: digitVal_def)

lemma getnum_padded:
  assumes "0 \<le> n" and "n < 100"
  shows "getnum fixed (padded 2 n @ s) = Some (n, s)"
proof -
  define k where "k = nat n"
  have n: "n = int k" and k: "k < 100" using assms by (simp_all add: k_def)
  have q: "k div 10 < 10" "k mod 10 < 10" using k by (simp_all add: div_less_iff_less_mult)
  have "getnum fixed (digit (k div 10) # digit (k mod 10) # s) =
      Some (10 * int (k div 10) + int (k mod 10), s)"
    unfolding getnum.simps by (simp only: is_digit_digit [OF q(1)] is_digit_digit [OF q(2)] digitVal_digit [OF q(1)]
        digitVal_digit [OF q(2)] simp_thms if_True if_False)
  also have "10 * int (k div 10) + int (k mod 10) = int k" by presburger
  finally show ?thesis unfolding n digits2 [OF k] by simp
qed

lemma getYear_padded: "0 \<le> n \<Longrightarrow> n < 10000 \<Longrightarrow> getYear (padded 4 n @ s) = Some (n, s)"
  using length_padded [of n 4] by (simp add: getYear_def parse_padded)

lemma fraction_Nil [simp]: "fraction [] = (0, [])"
  by (simp add: fraction_def)

lemma ranged_Some [simp]: "lo \<le> n \<Longrightarrow> n \<le> hi \<Longrightarrow> ranged lo hi (Some (n, s)) = Some (n, s)"
  by (simp add: ranged_def)

lemma parse_fields:
  assumes "0 \<le> y" "y < 10000" "1 \<le> m" "m \<le> 12" "1 \<le> d" "d \<le> daysIn y m" "d < 100"
    "0 \<le> hh" "hh < 24" "0 \<le> mi" "mi < 60" "0 \<le> ss" "ss < 60"
  shows "parseDateTime (padded 4 y @ ''-'' @ padded 2 m @ ''-'' @ padded 2 d @ ''T'' @ padded 2 hh @ '':'' @
      padded 2 mi @ '':'' @ padded 2 ss) =
    Some ((dayCount (y, m, d) * 86400 + hh * 3600 + mi * 60 + ss) * 1000000000)"
proof -
  have last: "getnum True (padded 2 ss) = Some (ss, [])" using getnum_padded [of ss True "[]"] assms by simp
  show ?thesis
    using assms by (simp add: parseDateTime_def getYear_padded getnum_padded last)
qed

text \<open>Reading the text of a time gives its whole second, in nanoseconds.\<close>

lemma parse_formatDateTime:
  assumes "0 \<le> t" and "t < 315537897600 * 1000000000"
  shows "parseDateTime (formatDateTime t) = Some (t - t mod 1000000000)"
proof -
  define s where "s = t div 1000000000"
  define sod where "sod = s mod 86400"
  obtain y m d where c: "civil (s div 86400) = (y, m, d)" by (cases "civil (s div 86400)")
  have "0 \<le> s" "s < 315537897600" using assms by (simp_all add: s_def)
  then have day: "0 \<le> s div 86400" "s div 86400 < 3652059" by simp_all
  note rng = civil_spec [OF c] civil_year [OF c day]
  have sod: "0 \<le> sod" "sod < 86400" by (simp_all add: sod_def)
  have hms: "0 \<le> sod div 3600" "sod div 3600 < 24" "0 \<le> sod div 60 mod 60" "sod div 60 mod 60 < 60"
    "0 \<le> sod mod 60" "sod mod 60 < 60"
    using sod by (simp_all add: pos_imp_zdiv_nonneg_iff)
  have days: "d \<le> daysIn y m" using rng(6) by (simp add: daysIn_def)
  have "parseDateTime (formatDateTime t) =
      Some ((dayCount (y, m, d) * 86400 + sod div 3600 * 3600 + sod div 60 mod 60 * 60 + sod mod 60) * 1000000000)"
    unfolding formatDateTime_def Let_def s_def [symmetric] sod_def [symmetric] c prod.case
    by (rule parse_fields) (use rng days hms in linarith)+
  also have "dayCount (y, m, d) = s div 86400" by (rule rng(1))
  also have "sod div 3600 * 3600 + sod div 60 mod 60 * 60 + sod mod 60 = sod"
    using div_mult_mod_eq [of sod 60] div_mult_mod_eq [of "sod div 60" 60]
    unfolding div_mult2_eq' [of sod 60 60, simplified] by linarith
  then have "s div 86400 * 86400 + sod div 3600 * 3600 + sod div 60 mod 60 * 60 + sod mod 60 = s"
    using div_mult_mod_eq [of s 86400] unfolding sod_def by linarith
  finally show ?thesis by (simp add: s_def minus_mod_eq_mult_div)
qed

end
