(* ===== verification/Local_Scheduler.thy ===== *)
theory Local_Scheduler
  imports Dispatcher Go_Parse
begin

text \<open>
  The local scheduler (\<open>src/examples/localscheduler/main.go\<close>), the development tool that stands in for
  EventBridge Scheduler: it lists the schedules, sends the message of each one that is due and deletes it.

  It is a program of its own, so its calls are a trace of their own (\<open>sim_event\<close>). The Scheduler
  and SQS services answer as functions of it; \<open>json.Unmarshal\<close> at the request type is a parameter,
  \<open>json_request\<close> what it is relied on for. The lemmas close the loop with the retry scheduler of the
  consumer: the schedule it creates is fired at its time, and the message sent is the redelivery of \<open>Dispatcher\<close>.
\<close>

section \<open>Calls and answers\<close>

record schedule_summary =
  suName :: "string option"
  suGroupName :: "string option"

text \<open>\<open>GetScheduleOutput\<close>: the expression, and the ARN and input of the target if there is one.\<close>

record schedule_output =
  soScheduleExpression :: "string option"
  soTarget :: "(string option \<times> string option) option"

datatype sim_event =
    ListSchedules "string option"
  | GetSchedule string "string option"
  | SimSend send_input
  | DeleteSchedule string "string option"
  | SimLog string

type_synonym sim_trace = "sim_event list"

record simulator =
  listSchedules :: "sim_trace \<Rightarrow> err + schedule_summary list \<times> string option"
  getSchedule :: "sim_trace \<Rightarrow> err + schedule_output"
  simSend :: "sim_trace \<Rightarrow> err option"
  deleteSchedule :: "sim_trace \<Rightarrow> err option"
  simNow :: "sim_trace \<Rightarrow> int"
  unmarshalRequest :: "string \<Rightarrow> err + sqs_request"

section \<open>Firing\<close>

definition parseAtExpression :: "string \<Rightarrow> int option" where
  "parseAtExpression expression = (let trimmed = TrimSpace expression in
     if \<not> hasPrefix trimmed ''at('' \<or> \<not> hasSuffix trimmed '')'' then None
     else parseDateTime (take (length trimmed - 4) (drop 3 trimmed)))"

definition groupNamePtr :: "string \<Rightarrow> string option" where
  "groupNamePtr groupName = (if groupName = [] then None else Some groupName)"

definition buildSendMessageInput :: "sqs_request \<Rightarrow> send_input" where
  "buildSendMessageInput request =
     (let input = \<lparr>siQueueUrl = rqQueueURL request, siMessageBody = rqMessageBody request,
            siMessageAttributes = [], siMessageGroupId = None, siMessageDeduplicationId = None\<rparr>;
          input = (if rqMessageGroupID request \<noteq> [] then input\<lparr>siMessageGroupId := Some (rqMessageGroupID request)\<rparr> else input);
          input = (if rqMessageDeduplicationID request \<noteq> []
            then input\<lparr>siMessageDeduplicationId := Some (rqMessageDeduplicationID request)\<rparr> else input)
      in if length (rqMessageAttributes request) > 0
         then input\<lparr>siMessageAttributes := fold (\<lambda>(k, v) attrs. store k v attrs) (rqMessageAttributes request) []\<rparr>
         else input)"

text \<open>Sending the message of a schedule that is due, and deleting the schedule once the message is accepted.\<close>

definition fire :: "simulator \<Rightarrow> string \<Rightarrow> string option \<Rightarrow> sqs_request \<Rightarrow> sim_trace \<Rightarrow> sim_trace" where
  "fire sim name groupPtr request t = (let t = t @ [SimSend (buildSendMessageInput request)] in
     case simSend sim t of
       Some e \<Rightarrow> t @ [SimLog ''failed to re-publish message'']
     | None \<Rightarrow> (let t = t @ [SimLog ''fired schedule'', DeleteSchedule name groupPtr] in
         case deleteSchedule sim t of
           Some e \<Rightarrow> t @ [SimLog ''failed to delete fired schedule'']
         | None \<Rightarrow> t))"

definition fireIfDue :: "simulator \<Rightarrow> schedule_summary \<Rightarrow> sim_trace \<Rightarrow> sim_trace" where
  "fireIfDue sim summary t =
     (let name = toString (suName summary); groupName = toString (suGroupName summary) in
      if name = [] then t
      else (let t = t @ [GetSchedule name (groupNamePtr groupName)] in
        case getSchedule sim t of
          Inl e \<Rightarrow> t @ [SimLog ''failed to get schedule'']
        | Inr sched \<Rightarrow> (case soTarget sched of
            None \<Rightarrow> t
          | Some (arn, input) \<Rightarrow>
            if toString arn \<noteq> universalSQSSendMessageARN then t
            else (case parseAtExpression (toString (soScheduleExpression sched)) of
              None \<Rightarrow> t
            | Some fireAt \<Rightarrow>
              if simNow sim t < fireAt then t
              else (case unmarshalRequest sim (toString input) of
                Inl e \<Rightarrow> t @ [SimLog ''unparseable target input, skipping'']
              | Inr request \<Rightarrow> fire sim name (groupNamePtr groupName) request t)))))"

text \<open>
  \<open>main\<close>'s loop over its two channels: \<open>Wake canceled\<close> is a tick, with whether the context is canceled
  when the pass over the schedules has returned, and \<open>Interrupted\<close> the closed context; the pages of a pass
  are \<open>fireDueSchedules\<close>.

  The pages of the listing; the service decides when there is no further token, so the loop need not
  end. The result is the error of a listing, if one failed, with the trace.
\<close>

partial_function (option) fireDueSchedules :: "simulator \<Rightarrow> string option \<Rightarrow> sim_trace \<Rightarrow> (err option \<times> sim_trace) option" where
  "fireDueSchedules sim nextToken t =
     (let t = t @ [ListSchedules nextToken] in
      case listSchedules sim t of
        Inl e \<Rightarrow> Some (Some e, t)
      | Inr (summaries, token) \<Rightarrow>
        (let t = fold (fireIfDue sim) summaries t in
         case token of
           None \<Rightarrow> Some (None, t)
         | Some tok \<Rightarrow> fireDueSchedules sim (Some tok) t))"

datatype sim_wake = Wake bool | Interrupted

fun pollLoop :: "simulator \<Rightarrow> sim_wake list \<Rightarrow> sim_trace \<Rightarrow> (bool \<times> sim_trace) option" where
  "pollLoop sim [] t = Some (False, t)"
| "pollLoop sim (Interrupted # ws) t = Some (True, t @ [SimLog ''local scheduler simulator stopped''])"
| "pollLoop sim (Wake canceled # ws) t = Option.bind (fireDueSchedules sim None t) (\<lambda>(e, t).
     pollLoop sim ws (case e of None \<Rightarrow> t
       | Some e \<Rightarrow> if canceled then t else t @ [SimLog ''error firing due schedules'']))"

section \<open>A pass\<close>

text \<open>The events of one summary, by what the answers were.\<close>

lemma fire_cases:
  obtains msg where "fire sim nm g r t = t @ [SimSend (buildSendMessageInput r), SimLog msg]"
      "simSend sim (t @ [SimSend (buildSendMessageInput r)]) \<noteq> None"
  | msg logs where
      "fire sim nm g r t = t @ [SimSend (buildSendMessageInput r), SimLog msg, DeleteSchedule nm g] @ map SimLog logs"
      "simSend sim (t @ [SimSend (buildSendMessageInput r)]) = None"
proof (cases "simSend sim (t @ [SimSend (buildSendMessageInput r)])")
  case (Some e)
  then show thesis by (intro that(1)) (simp_all add: fire_def)
next
  case None
  define tail where "tail = (case deleteSchedule sim (t @ [SimSend (buildSendMessageInput r), SimLog ''fired schedule'',
      DeleteSchedule nm g]) of None \<Rightarrow> [] | Some e \<Rightarrow> [''failed to delete fired schedule''])"
  show thesis
    by (rule that(2) [of "''fired schedule''" tail])
      (simp_all add: fire_def Let_def None tail_def split: option.split)
qed

lemma fireIfDue_cases:
  fixes sim su t
  defines "g \<equiv> groupNamePtr (toString (suGroupName su))" and "nm \<equiv> toString (suName su)"
  obtains "fireIfDue sim su t = t"
  | logs where "fireIfDue sim su t = t @ GetSchedule nm g # map SimLog logs"
  | r where "fireIfDue sim su t = fire sim nm g r (t @ [GetSchedule nm g])"
proof (cases "nm = []")
  case True
  then show thesis by (intro that(1)) (simp add: fireIfDue_def nm_def)
next
  case False
  let ?t = "t @ [GetSchedule nm g]"
  show thesis
  proof (cases "getSchedule sim ?t")
    case (Inl e)
    with False show thesis
      by (intro that(2) [of "[''failed to get schedule'']"]) (simp add: fireIfDue_def Let_def nm_def g_def)
  next
    case (Inr sched)
    with False have f: "fireIfDue sim su t = (case soTarget sched of
            None \<Rightarrow> ?t
          | Some (arn, input) \<Rightarrow>
            if toString arn \<noteq> universalSQSSendMessageARN then ?t
            else (case parseAtExpression (toString (soScheduleExpression sched)) of
              None \<Rightarrow> ?t
            | Some fireAt \<Rightarrow>
              if simNow sim ?t < fireAt then ?t
              else (case unmarshalRequest sim (toString input) of
                Inl e \<Rightarrow> ?t @ [SimLog ''unparseable target input, skipping'']
              | Inr r \<Rightarrow> fire sim nm g r ?t)))"
      unfolding fireIfDue_def Let_def nm_def [symmetric] g_def [symmetric] by simp
    have "fireIfDue sim su t = ?t \<or> fireIfDue sim su t = ?t @ [SimLog ''unparseable target input, skipping''] \<or>
        (\<exists>r. fireIfDue sim su t = fire sim nm g r ?t)"
      unfolding f by (auto split: option.split sum.split)
    then show thesis
      using that(2) [of "[]"] that(2) [of "[''unparseable target input, skipping'']"] that(3) by auto
  qed
qed

text \<open>
  Every schedule deleted so far was read, and the message sent from it accepted, immediately before.
\<close>

definition deletes_are_sent :: "simulator \<Rightarrow> sim_trace \<Rightarrow> bool" where
  "deletes_are_sent sim t \<longleftrightarrow> (\<forall>j < length t. \<forall>nm g. t ! j = DeleteSchedule nm g \<longrightarrow>
     3 \<le> j \<and> t ! (j - 3) = GetSchedule nm g \<and> (\<exists>input. t ! (j - 2) = SimSend input) \<and>
     simSend sim (take (j - 1) t) = None)"

lemma deletes_are_sent_append:
  assumes "deletes_are_sent sim t" and "\<And>nm g. DeleteSchedule nm g \<notin> set evs"
  shows "deletes_are_sent sim (t @ evs)"
  unfolding deletes_are_sent_def
proof (intro allI impI)
  fix j nm g
  assume j: "j < length (t @ evs)" and d: "(t @ evs) ! j = DeleteSchedule nm g"
  have "j < length t"
  proof (rule ccontr)
    assume "\<not> j < length t"
    with j d have "DeleteSchedule nm g \<in> set evs" using nth_mem [of "j - length t" evs] by (simp add: nth_append)
    with assms(2) show False by blast
  qed
  with d assms(1) show "3 \<le> j \<and> (t @ evs) ! (j - 3) = GetSchedule nm g \<and>
      (\<exists>input. (t @ evs) ! (j - 2) = SimSend input) \<and> simSend sim (take (j - 1) (t @ evs)) = None"
    by (auto simp: deletes_are_sent_def nth_append)
qed

lemma deletes_are_sent_delete:
  assumes "deletes_are_sent sim t" and "simSend sim (t @ [GetSchedule nm g, SimSend input]) = None"
  shows "deletes_are_sent sim (t @ [GetSchedule nm g, SimSend input, SimLog msg, DeleteSchedule nm g])"
proof -
  let ?t = "t @ [GetSchedule nm g, SimSend input, SimLog msg]"
  have "deletes_are_sent sim ?t" using deletes_are_sent_append [OF assms(1)] by simp
  then show ?thesis
    using assms(2) by (auto simp: deletes_are_sent_def nth_append less_Suc_eq)
qed

lemma deletes_are_sent_fireIfDue: "deletes_are_sent sim t \<Longrightarrow> deletes_are_sent sim (fireIfDue sim su t)"
proof (cases rule: fireIfDue_cases [of sim su t])
  case (3 r)
  assume t: "deletes_are_sent sim t"
  let ?nm = "toString (suName su)" and ?g = "groupNamePtr (toString (suGroupName su))"
  show ?thesis unfolding 3
  proof (cases rule: fire_cases [of sim ?nm ?g r "t @ [GetSchedule ?nm ?g]"])
    case (1 msg)
    then show "deletes_are_sent sim (fire sim ?nm ?g r (t @ [GetSchedule ?nm ?g]))"
      using deletes_are_sent_append [OF t] by simp
  next
    case (2 msg logs)
    with deletes_are_sent_delete [OF t, of ?nm ?g "buildSendMessageInput r" msg]
    show "deletes_are_sent sim (fire sim ?nm ?g r (t @ [GetSchedule ?nm ?g]))"
      using deletes_are_sent_append [where evs = "map SimLog logs"] by fastforce
  qed
qed (use deletes_are_sent_append in \<open>auto simp: image_iff\<close>)

lemma deletes_are_sent_fold: "deletes_are_sent sim t \<Longrightarrow> deletes_are_sent sim (fold (fireIfDue sim) sus t)"
  by (induction sus arbitrary: t) (simp_all add: deletes_are_sent_fireIfDue)

lemma deletes_are_sent_pass:
  assumes "fireDueSchedules sim tok t = Some (e, t')" and "deletes_are_sent sim t"
  shows "deletes_are_sent sim t'"
proof -
  have "deletes_are_sent sim t \<longrightarrow> deletes_are_sent sim (snd (e, t'))"
  proof (rule fireDueSchedules.raw_induct [where P = "\<lambda>sim tok t y.
      deletes_are_sent sim t \<longrightarrow> deletes_are_sent sim (snd y)", OF _ assms(1)])
    fix rec sim tok t y
    assume IH: "\<And>sim tok t y. rec sim tok t = Some y \<Longrightarrow> deletes_are_sent sim t \<longrightarrow> deletes_are_sent sim (snd y)"
      and run: "(let t = t @ [ListSchedules tok] in case listSchedules sim t of
          Inl e \<Rightarrow> Some (Some e, t)
        | Inr (summaries, token) \<Rightarrow> (let t = fold (fireIfDue sim) summaries t in
            case token of None \<Rightarrow> Some (None, t) | Some tok \<Rightarrow> rec sim (Some tok) t)) = Some y"
    show "deletes_are_sent sim t \<longrightarrow> deletes_are_sent sim (snd y)"
    proof
      assume "deletes_are_sent sim t"
      then have l: "deletes_are_sent sim (t @ [ListSchedules tok])"
        using deletes_are_sent_append by simp
      with run IH deletes_are_sent_fold [OF l] show "deletes_are_sent sim (snd y)"
        by (auto simp: Let_def split: sum.splits prod.splits option.splits)
    qed
  qed
  with assms(2) show ?thesis by simp
qed

lemma deletes_are_sent_loop:
  "pollLoop sim ws t = Some (stopped, t') \<Longrightarrow> deletes_are_sent sim t \<Longrightarrow> deletes_are_sent sim t'"
proof (induction sim ws t rule: pollLoop.induct)
  case (3 sim canceled ws t)
  then obtain e u where u: "fireDueSchedules sim None t = Some (e, u)"
    and rest: "pollLoop sim ws (case e of None \<Rightarrow> u
       | Some e \<Rightarrow> if canceled then u else u @ [SimLog ''error firing due schedules'']) = Some (stopped, t')"
    by (auto simp: bind_eq_Some_conv)
  have "deletes_are_sent sim u" by (rule deletes_are_sent_pass [OF u "3.prems"(2)])
  then show ?case
    using "3.IH" [OF u refl rest] deletes_are_sent_append by (auto split: option.split)
qed (auto intro: deletes_are_sent_append)

text \<open>A pass whose listing has finitely many pages returns. The pages of the pass a trace ends in, beyond its first.\<close>

definition listings :: "sim_trace \<Rightarrow> string option list" where
  "listings t = List.map_filter (\<lambda>e. case e of ListSchedules tok \<Rightarrow> Some tok | _ \<Rightarrow> None) t"

definition furtherPages :: "sim_trace \<Rightarrow> nat" where
  "furtherPages t = length (takeWhile (\<lambda>tok. tok \<noteq> None) (rev (listings t)))"

lemma listings_simps [simp]:
  "listings [] = []" "listings (t @ u) = listings t @ listings u"
  "listings (ListSchedules tok # t) = tok # listings t"
  "listings (GetSchedule nm g # t) = listings t" "listings (SimSend input # t) = listings t"
  "listings (DeleteSchedule nm g # t) = listings t" "listings (SimLog msg # t) = listings t"
  "listings (map SimLog logs) = []"
  by (simp_all add: listings_def List.map_filter_def)

lemma furtherPages_listed: "furtherPages (t @ [ListSchedules tok]) = (if tok = None then 0 else Suc (furtherPages t))"
  by (simp add: furtherPages_def)

lemma listings_fold: "listings (fold (fireIfDue sim) sus t) = listings t"
proof (induction sus arbitrary: t)
  case (Cons su sus)
  have "listings (fireIfDue sim su t) = listings t"
  proof (cases rule: fireIfDue_cases [of sim su t])
    case (3 r)
    then show ?thesis by (cases rule: fire_cases [of sim "toString (suName su)"
          "groupNamePtr (toString (suGroupName su))" r
          "t @ [GetSchedule (toString (suName su)) (groupNamePtr (toString (suGroupName su)))]"]) simp_all
  qed simp_all
  with Cons.IH show ?case by simp
qed simp

lemma page_returns:
  assumes "\<And>t sus tok. N \<le> furtherPages t \<Longrightarrow> listSchedules sim t \<noteq> Inr (sus, Some tok)"
  shows "fireDueSchedules sim (Some tok) t \<noteq> None"
proof (induction "N - furtherPages t" arbitrary: tok t rule: less_induct)
  case less
  let ?t = "t @ [ListSchedules (Some tok)]"
  show ?case
  proof (cases "\<exists>sus tok'. listSchedules sim ?t = Inr (sus, Some tok')")
    case True
    then obtain sus tok' where l: "listSchedules sim ?t = Inr (sus, Some tok')" by blast
    have "furtherPages ?t < N" using assms [of ?t sus tok'] l by (cases "N \<le> furtherPages ?t") auto
    then have "N - furtherPages (fold (fireIfDue sim) sus ?t) < N - furtherPages t"
      by (simp add: furtherPages_def listings_fold)
    from less [OF this, of tok'] l show ?thesis
      by (subst fireDueSchedules.simps) (simp add: Let_def)
  next
    case False
    then show ?thesis by (subst fireDueSchedules.simps) (auto simp: Let_def split: sum.split option.split)
  qed
qed

lemma pass_returns:
  assumes "\<And>t sus tok. N \<le> furtherPages t \<Longrightarrow> listSchedules sim t \<noteq> Inr (sus, Some tok)"
  shows "fireDueSchedules sim tok t \<noteq> None"
  by (subst fireDueSchedules.simps)
    (use page_returns [OF assms] in \<open>auto simp: Let_def split: sum.split option.split\<close>)

text \<open>So the loop comes to its next event, and once interrupted to its end.\<close>

lemma loop_returns:
  assumes "\<And>t sus tok. N \<le> furtherPages t \<Longrightarrow> listSchedules sim t \<noteq> Inr (sus, Some tok)"
  shows "\<exists>t'. pollLoop sim ws t = Some (Interrupted \<in> set ws, t')"
proof (induction ws arbitrary: t)
  case (Cons w ws)
  show ?case
  proof (cases w)
    case (Wake canceled)
    from pass_returns [OF assms] obtain e u where "fireDueSchedules sim None t = Some (e, u)" by fastforce
    with Wake Cons.IH show ?thesis by simp
  qed simp
qed simp

section \<open>Firing a retry\<close>

text \<open>
  What is relied on of \<open>json.Unmarshal\<close>: it reads what \<open>json.Marshal\<close> wrote for a request of valid UTF-8
  strings, the attributes in whatever map order.
\<close>

definition json_request :: "(string \<Rightarrow> err + sqs_request) \<Rightarrow> bool" where
  "json_request unmarshal \<longleftrightarrow> (\<forall>r s. valid_request r \<and> marshalRequest r = Inr s \<longrightarrow>
     (\<exists>r'. unmarshal s = Inr r' \<and> mset (rqMessageAttributes r') = mset (rqMessageAttributes r) \<and>
        rqQueueURL r' = rqQueueURL r \<and> rqMessageBody r' = rqMessageBody r \<and>
        rqMessageGroupID r' = rqMessageGroupID r \<and> rqMessageDeduplicationID r' = rqMessageDeduplicationID r))"

text \<open>The message a consumer receives, under the receipt handle \<open>h\<close>, of a SendMessage call.\<close>

definition delivered :: "(string \<Rightarrow> sns_envelope) \<Rightarrow> string \<Rightarrow> send_input \<Rightarrow> message" where
  "delivered parse h input = newMessage parse
     \<lparr>smBody = Some (siMessageBody input), smReceiptHandle = Some h,
      smAttributes = (case siMessageGroupId input of None \<Rightarrow> [] | Some g \<Rightarrow> [(messageGroupIDKey, g)]),
      smMessageAttributes = map (\<lambda>(k, a). (k, Some (stringValue a))) (siMessageAttributes input)\<rparr>"

lemma lookup_stringValues:
  "lookup (map (\<lambda>(k, a). (k, Some (stringValue a))) m) k = map_option (Some \<circ> stringValue) (lookup m k)"
  by (induction m) auto

lemma buildSendMessageInput_simps:
  "siQueueUrl (buildSendMessageInput r) = rqQueueURL r"
  "siMessageBody (buildSendMessageInput r) = rqMessageBody r"
  "siMessageGroupId (buildSendMessageInput r) = groupNamePtr (rqMessageGroupID r)"
  "siMessageDeduplicationId (buildSendMessageInput r) = groupNamePtr (rqMessageDeduplicationID r)"
  by (simp_all add: buildSendMessageInput_def Let_def groupNamePtr_def)

lemma lookup_buildSendMessageInput:
  assumes "wf_map (rqMessageAttributes r)"
  shows "lookup (siMessageAttributes (buildSendMessageInput r)) = lookup (rqMessageAttributes r)"
  using lookup_fold_store [OF assms, of "\<lambda>a. a" "[]"]
  by (auto simp: buildSendMessageInput_def Let_def fun_eq_iff split: option.split)

lemma parseAtExpression_at:
  assumes "0 \<le> at" and "at < 315537897600 * 1000000000"
  shows "parseAtExpression (''at('' @ formatDateTime at @ '')'') = Some (at - at mod 1000000000)"
proof -
  have "TrimSpace (''at('' @ formatDateTime at @ '')'') = ''at('' @ formatDateTime at @ '')''"
    by (rule TrimSpace_id) simp_all
  then show ?thesis
    by (simp add: parseAtExpression_def Let_def hasPrefix_def hasSuffix_def parse_formatDateTime [OF assms])
qed

lemma wf_stringValues: "wf_map m \<Longrightarrow> wf_map (map (\<lambda>(k, a). (k, Some (stringValue a))) m)"
  by (simp add: wf_map_def comp_def case_prod_beta)

lemma lookup_received:
  assumes "smMessageAttributes (original m) = map (\<lambda>(k, a). (k, Some (stringValue a))) attrs" and "wf_map attrs"
  shows "lookup (UserMessageAttributes m) = map_option stringValue \<circ> lookup attrs"
  unfolding UserMessageAttributes_def assms(1)
  by (auto simp: lookup_fold_store_opt wf_stringValues [OF assms(2)] lookup_stringValues fun_eq_iff split: option.split)

text \<open>Two messages that answer every accessor the library reads them with in the same way.\<close>

definition same_message :: "message \<Rightarrow> message \<Rightarrow> bool" where
  "same_message m m' \<longleftrightarrow> Body m = Body m' \<and> envelope m = envelope m' \<and> Identifier m = Identifier m' \<and>
     (\<forall>k. SystemAttributeByKey m k = SystemAttributeByKey m' k) \<and>
     (\<forall>k. UserMessageAttribute m k = UserMessageAttribute m' k) \<and>
     lookup (UserMessageAttributes m) = lookup (UserMessageAttributes m')"

lemma same_parseRetryCount: "same_message m m' \<Longrightarrow> parseRetryCount m = parseRetryCount m'"
  by (simp only: parseRetryCount_def same_message_def)

text \<open>The service still holds the schedule \<open>i\<close>, and lists it as \<open>su\<close>.\<close>

definition getEvent :: "schedule_summary \<Rightarrow> sim_event" where
  "getEvent su = GetSchedule (toString (suName su)) (groupNamePtr (toString (suGroupName su)))"

definition holdsSchedule :: "simulator \<Rightarrow> sim_trace \<Rightarrow> schedule_summary \<Rightarrow> schedule_input \<Rightarrow> bool" where
  "holdsSchedule sim u su i \<longleftrightarrow> suName su = Some (csName i) \<and> csName i \<noteq> [] \<and>
     getSchedule sim (u @ [getEvent su]) = Inr \<lparr>soScheduleExpression = Some (csScheduleExpression i),
       soTarget = Some (Some (csTargetArn i), Some (csTargetInput i))\<rparr>"

lemma scheduleAt_whole: "scheduleAt now b mod 1000000000 = 0"
  by (simp add: scheduleAt_def Let_def mod_diff_left_eq [symmetric])

text \<open>What the local scheduler makes of a schedule the retry scheduler created.\<close>

lemma fireIfDue_retry:
  assumes "valid_message msg" and "validUTF8 (rsTargetQueueURL rs)"
    and "\<forall>s. rsIdgen rs t [] = Inr s \<longrightarrow> validUTF8 s"
    and "schedule rs t msg n b = (None, t @ [CallSchedule i])"
    and "at = scheduleAt (rsNow rs t) b" and "0 \<le> at" and "at < 315537897600 * 1000000000"
    and "json_request (unmarshalRequest sim)" and "holdsSchedule sim u su i"
  obtains r where
    "fireIfDue sim su u = (if simNow sim (u @ [getEvent su]) < at then u @ [getEvent su]
       else fire sim (csName i) (groupNamePtr (toString (suGroupName su))) r (u @ [getEvent su]))"
    "siQueueUrl (buildSendMessageInput r) = rsTargetQueueURL rs"
    "siMessageDeduplicationId (buildSendMessageInput r) = Some (csName i)"
    "wf_map (siMessageAttributes (buildSendMessageInput r))"
    "same_message (delivered parse h (buildSendMessageInput r)) (redelivery parse h msg n)"
proof -
  obtain dedupID json where c: "rsIdgen rs t [] = Inr dedupID"
    "valid_request (retryRequest rs msg n dedupID)" "marshalRequest (retryRequest rs msg n dedupID) = Inr json"
    "i = retrySchedule rs dedupID json at"
    using schedule_creates [OF assms(1-4)] unfolding assms(5) by blast
  obtain r where r: "unmarshalRequest sim json = Inr r"
    "mset (rqMessageAttributes r) = mset (buildRetryAttributes (UserMessageAttributes msg) n)"
    "rqQueueURL r = rsTargetQueueURL rs" "rqMessageBody r = Body msg"
    "rqMessageGroupID r = SystemAttributeByKey msg messageGroupIDKey" "rqMessageDeduplicationID r = dedupID"
    using assms(8) c(2,3) unfolding json_request_def by (fastforce simp: retryRequest_def)
  have wf: "wf_map (rqMessageAttributes r)"
    by (rule wf_map_perm [OF r(2) [symmetric] rb.build_wf]) simp
  define input where "input = buildSendMessageInput r"
  have attrs: "lookup (siMessageAttributes input) = lookup (buildRetryAttributes (UserMessageAttributes msg) n)"
    unfolding input_def lookup_buildSendMessageInput [OF wf] by (rule lookup_perm [OF wf r(2)])
  have wfi: "wf_map (siMessageAttributes input)"
    using wf_fold_store [of "[]" "\<lambda>a. a" "rqMessageAttributes r"] by (simp add: input_def buildSendMessageInput_def Let_def)
  have name: "csName i = dedupID" by (simp add: c(4) retrySchedule_def)
  have fire: "fireIfDue sim su u = (if simNow sim (u @ [getEvent su]) < at then u @ [getEvent su]
       else fire sim (csName i) (groupNamePtr (toString (suGroupName su))) r (u @ [getEvent su]))"
  proof -
    define g where "g = groupNamePtr (toString (suGroupName su))"
    have nm: "toString (suName su) = dedupID" "dedupID \<noteq> []" using assms(9) name by (simp_all add: holdsSchedule_def toString_def)
    have ev: "getEvent su = GetSchedule dedupID g" by (simp add: getEvent_def nm g_def)
    have get: "getSchedule sim (u @ [GetSchedule dedupID g]) = Inr \<lparr>soScheduleExpression = Some (csScheduleExpression i),
        soTarget = Some (Some universalSQSSendMessageARN, Some json)\<rparr>"
      using assms(9) ev by (simp add: holdsSchedule_def c(4) retrySchedule_def)
    have "parseAtExpression (csScheduleExpression i) = Some at"
      using parseAtExpression_at [OF assms(6,7)] scheduleAt_whole [of "rsNow rs t" b, folded assms(5)]
      by (simp add: c(4) retrySchedule_def)
    then show ?thesis
      unfolding fireIfDue_def Let_def nm ev name g_def [symmetric] using nm(2) get r(1) by (simp add: toString_def)
  qed
  have stored: "lookup (UserMessageAttributes (delivered parse h input)) = map_option stringValue \<circ> lookup (siMessageAttributes input)"
    "lookup (UserMessageAttributes (redelivery parse h msg n)) =
       map_option stringValue \<circ> lookup (buildRetryAttributes (UserMessageAttributes msg) n)"
    by (rule lookup_received; simp add: delivered_def redelivery_def newMessage_def wfi rb.build_wf)+
  have "same_message (delivered parse h input) (redelivery parse h msg n)"
    unfolding same_message_def stored attrs
    by (simp add: Body_def SystemAttributeByKey_def UserMessageAttribute_def Identifier_def delivered_def
        redelivery_def newMessage_def lookup_stringValues attrs input_def [symmetric])
      (simp add: input_def buildSendMessageInput_simps groupNamePtr_def r(4) [unfolded Body_def]
        r(5) [unfolded SystemAttributeByKey_def])
  moreover have "siQueueUrl input = rsTargetQueueURL rs" "siMessageDeduplicationId input = Some (csName i)"
    using assms(9) by (simp_all add: input_def buildSendMessageInput_simps r groupNamePtr_def name holdsSchedule_def)
  ultimately show thesis using that [of r] fire wfi unfolding input_def by blast
qed

text \<open>
  C13: The local scheduler closes the Scheduled Retry loop. Let a call of the retry scheduler have created
  the schedule \<open>i\<close> for a time \<open>at\<close>, and the Scheduler service answer with what it was created with.
  Before \<open>at\<close>, looking at the schedule does nothing but read it. From then on it
  makes exactly one SendMessage call, and deletes the schedule exactly when that call was accepted. The
  message is sent to the target queue, under the deduplication id the schedule is named by, and what
  a consumer receives of it answers every accessor as the redelivery of the failed message does: its body,
  its group, and its attributes with the next retry count.
\<close>

theorem local_scheduler_closes_the_loop:
  assumes "valid_message msg" and "validUTF8 (rsTargetQueueURL rs)"
    and "\<forall>s. rsIdgen rs t [] = Inr s \<longrightarrow> validUTF8 s"
    and "schedule rs t msg n b = (None, t @ [CallSchedule i])"
    and "at = scheduleAt (rsNow rs t) b" and "0 \<le> at" and "at < 315537897600 * 1000000000"
    and "json_request (unmarshalRequest sim)" and "holdsSchedule sim u su i"
  shows "(simNow sim (u @ [getEvent su]) < at \<longrightarrow> fireIfDue sim su u = u @ [getEvent su]) \<and>
    (at \<le> simNow sim (u @ [getEvent su]) \<longrightarrow> (\<exists>input rest.
       fireIfDue sim su u = u @ getEvent su # SimSend input # rest \<and> (\<forall>x. SimSend x \<notin> set rest) \<and>
       ((\<exists>g. DeleteSchedule (csName i) g \<in> set rest) \<longleftrightarrow> simSend sim (u @ [getEvent su, SimSend input]) = None) \<and>
       siQueueUrl input = rsTargetQueueURL rs \<and> siMessageDeduplicationId input = Some (csName i) \<and>
       same_message (delivered parse h input) (redelivery parse h msg n)))"
proof -
  obtain r where r:
    "fireIfDue sim su u = (if simNow sim (u @ [getEvent su]) < at then u @ [getEvent su]
       else fire sim (csName i) (groupNamePtr (toString (suGroupName su))) r (u @ [getEvent su]))"
    "siQueueUrl (buildSendMessageInput r) = rsTargetQueueURL rs"
    "siMessageDeduplicationId (buildSendMessageInput r) = Some (csName i)"
    "same_message (delivered parse h (buildSendMessageInput r)) (redelivery parse h msg n)"
    using fireIfDue_retry [OF assms] by blast
  show ?thesis
    using r by (cases rule: fire_cases [of sim "csName i" "groupNamePtr (toString (suGroupName su))" r "u @ [getEvent su]"]) auto
qed

text \<open>A simulator at time 6s whose services accept everything and which knows the schedule \<open>i\<close>.\<close>

definition exampleSimulator :: "schedule_input \<Rightarrow> simulator" where
  "exampleSimulator i = \<lparr>listSchedules = (\<lambda>t. Inr ([\<lparr>suName = Some (csName i), suGroupName = None\<rparr>], None)),
     getSchedule = (\<lambda>t. Inr \<lparr>soScheduleExpression = Some (csScheduleExpression i),
       soTarget = Some (Some (csTargetArn i), Some (csTargetInput i))\<rparr>),
     simSend = (\<lambda>t. None), deleteSchedule = (\<lambda>t. None), simNow = (\<lambda>t. 6000000000),
     unmarshalRequest = (\<lambda>s. case readRequest s of None \<Rightarrow> Inl (Sentinel ErrDLQPublish) | Some r \<Rightarrow> Inr r)\<rparr>"

lemma exampleSimulator_json: "json_request (unmarshalRequest (exampleSimulator i))"
  unfolding json_request_def
proof (intro allI impI)
  fix r s
  assume "valid_request r \<and> marshalRequest r = Inr s"
  with readRequest_marshal [of r]
  have "readRequest s = Some (r\<lparr>rqMessageAttributes := sort_key fst (rqMessageAttributes r)\<rparr>)" by auto
  then show "\<exists>r'. unmarshalRequest (exampleSimulator i) s = Inr r' \<and>
      mset (rqMessageAttributes r') = mset (rqMessageAttributes r) \<and>
      rqQueueURL r' = rqQueueURL r \<and> rqMessageBody r' = rqMessageBody r \<and>
      rqMessageGroupID r' = rqMessageGroupID r \<and> rqMessageDeduplicationID r' = rqMessageDeduplicationID r"
    by (simp add: exampleSimulator_def)
qed

lemma example_schedule:
  obtains i where "schedule exampleScheduler [] example_message 3 5000000000 = (None, [CallSchedule i])"
    "csName i = ''id-1''"
proof -
  have "\<exists>i. schedule exampleScheduler [] example_message 3 5000000000 = (None, [CallSchedule i]) \<and> csName i = ''id-1''"
    by (simp add: schedule_def Let_def exampleScheduler_def newRetryScheduler_def marshalRequest_def retrySchedule_def)
  then show thesis using that by blast
qed

lemma local_scheduler_closes_the_loop_witness:
  "\<exists>i input rest. schedule exampleScheduler [] example_message 3 5000000000 = (None, [CallSchedule i]) \<and>
     fireIfDue (exampleSimulator i) \<lparr>suName = Some ''id-1'', suGroupName = None\<rparr> [] =
       GetSchedule ''id-1'' None # SimSend input # rest \<and>
     (\<exists>g. DeleteSchedule ''id-1'' g \<in> set rest) \<and> siQueueUrl input = ''https://q''"
proof -
  obtain i where i: "schedule exampleScheduler [] example_message 3 5000000000 = (None, [] @ [CallSchedule i])"
    "csName i = ''id-1''"
    using example_schedule by auto
  have msg: "valid_message example_message"
    by (simp add: valid_message_def example_message_values validUTF8_ascii)
  have url: "validUTF8 (rsTargetQueueURL exampleScheduler)"
    by (simp add: exampleScheduler_def newRetryScheduler_def validUTF8_ascii)
  have ids: "\<forall>s. rsIdgen exampleScheduler [] [] = Inr s \<longrightarrow> validUTF8 s"
    by (simp add: exampleScheduler_def newRetryScheduler_def validUTF8_ascii)
  have at: "5000000000 = scheduleAt (rsNow exampleScheduler []) 5000000000"
    by (simp add: scheduleAt_def exampleScheduler_def newRetryScheduler_def Let_def)
  let ?su = "\<lparr>suName = Some ''id-1'', suGroupName = None\<rparr>"
  have ev: "getEvent ?su = GetSchedule ''id-1'' None" by (simp add: getEvent_def toString_def groupNamePtr_def)
  have "holdsSchedule (exampleSimulator i) [] ?su i" by (simp add: holdsSchedule_def i(2) exampleSimulator_def)
  from local_scheduler_closes_the_loop [OF msg url ids i(1) at _ _ exampleSimulator_json [of i] this,
      of "\<lambda>b. zero_envelope" "[]"]
  obtain input rest where "fireIfDue (exampleSimulator i) ?su [] = GetSchedule ''id-1'' None # SimSend input # rest"
    "\<exists>g. DeleteSchedule ''id-1'' g \<in> set rest" "siQueueUrl input = ''https://q''"
    by (auto simp: i(2) ev exampleSimulator_def exampleScheduler_def newRetryScheduler_def)
  with i(1) show ?thesis by (intro exI [of _ i]) simp
qed

text \<open>The same with a reader that answers one request.\<close>

definition exampleSimulator2 :: simulator where
  "exampleSimulator2 = (exampleSimulator (retrySchedule exampleScheduler ''id-1'' [] 5000000000))
     \<lparr>unmarshalRequest := (\<lambda>s. Inr (retryRequest exampleScheduler example_message 3 ''id-1''))\<rparr>"

lemma example_poll:
  "\<exists>t. pollLoop exampleSimulator2 [Wake False] [] = Some (False, t) \<and> length t = 5 \<and>
     t ! 4 = DeleteSchedule ''id-1'' None"
proof -
  let ?su = "\<lparr>suName = Some ''id-1'', suGroupName = None\<rparr>"
  have "parseAtExpression (csScheduleExpression (retrySchedule exampleScheduler ''id-1'' [] 5000000000)) = Some 5000000000"
    using parseAtExpression_at [of 5000000000] by (simp add: retrySchedule_def)
  then have f: "fireIfDue exampleSimulator2 ?su u = u @ [GetSchedule ''id-1'' None,
      SimSend (buildSendMessageInput (retryRequest exampleScheduler example_message 3 ''id-1'')),
      SimLog ''fired schedule'', DeleteSchedule ''id-1'' None]" for u
    by (simp add: fireIfDue_def fire_def Let_def exampleSimulator2_def exampleSimulator_def toString_def
        groupNamePtr_def retrySchedule_def)
  have l: "listSchedules exampleSimulator2 u = Inr ([?su], None)" for u
    by (simp add: exampleSimulator2_def exampleSimulator_def retrySchedule_def)
  show ?thesis
    by (subst pollLoop.simps, subst fireDueSchedules.simps) (simp add: l f Let_def)
qed

text \<open>
  C22: The local scheduler never loses a retry: in a run of its polling loop every DeleteSchedule call follows
  the GetSchedule of the same schedule and a SendMessage made from it, which the service accepted. And when no
  listing has more than \<open>N\<close> further pages, the loop handles every tick and, once interrupted, ends, whatever else
  the services answer.
\<close>

theorem deleted_schedules_were_sent:
  "(pollLoop sim ws [] = Some (stopped, t) \<and> j < length t \<and> t ! j = DeleteSchedule nm g \<longrightarrow>
     3 \<le> j \<and> t ! (j - 3) = GetSchedule nm g \<and> (\<exists>input. t ! (j - 2) = SimSend input) \<and>
     simSend sim (take (j - 1) t) = None) \<and>
   ((\<forall>u sus tok. N \<le> furtherPages u \<longrightarrow> listSchedules sim u \<noteq> Inr (sus, Some tok)) \<longrightarrow>
     (\<exists>t. pollLoop sim ws [] = Some (Interrupted \<in> set ws, t)))"
proof -
  have "deletes_are_sent sim t" if "pollLoop sim ws [] = Some (stopped, t)"
    by (rule deletes_are_sent_loop [OF that]) (simp add: deletes_are_sent_def)
  then show ?thesis
    using loop_returns [of N sim ws "[]"] by (auto simp: deletes_are_sent_def)
qed

lemma deleted_schedules_were_sent_witness:
  "\<exists>t. pollLoop exampleSimulator2 [Wake False] [] = Some (False, t) \<and> t ! 4 = DeleteSchedule ''id-1'' None \<and>
     t ! 1 = GetSchedule ''id-1'' None"
proof -
  obtain t where t: "pollLoop exampleSimulator2 [Wake False] [] = Some (False, t)" "length t = 5"
    "t ! 4 = DeleteSchedule ''id-1'' None"
    using example_poll by blast
  have "\<forall>u sus tok. 0 \<le> furtherPages u \<longrightarrow> listSchedules exampleSimulator2 u \<noteq> Inr (sus, Some tok)"
    by (simp add: exampleSimulator2_def exampleSimulator_def)
  then show ?thesis
    using deleted_schedules_were_sent [of exampleSimulator2 "[Wake False]" False t 4 "''id-1''" None 0] t
    by simp
qed

end
