(* ===== verification/Retry_Loop.thy ===== *)
theory Retry_Loop
  imports Local_Scheduler
begin

text \<open>
  The Scheduled Retry loop as a whole: the dispatcher of the consumer (\<open>src/consumer/dispatch.go\<close>), the retry
  scheduler (\<open>src/consumer/retry_scheduler.go\<close>) and the program that fires its schedules
  (\<open>src/examples/localscheduler/main.go\<close>), composed the way they run: a delivery is processed, its failure
  creates a schedule, the schedule is fired, and the message sent is delivered and processed again. No part
  of the loop is assumed to do what another promises; the lemmas of the three theories are put together.
\<close>

text \<open>
  \<open>bounces d c parse msg k m\<close>: after \<open>k\<close> rounds the message \<open>msg\<close> comes back as \<open>m\<close>. In each round the dispatcher
  processed the message from some state, had its schedule accepted and committed the original, and a simulator
  that holds the schedule, in whatever state and with whatever answers, sent a message from it.
\<close>

inductive bounces :: "dispatcher \<Rightarrow> ctx \<Rightarrow> (string \<Rightarrow> sns_envelope) \<Rightarrow> message \<Rightarrow> nat \<Rightarrow> message \<Rightarrow> bool"
  for d c parse msg where
  received: "bounces d c parse msg 0 msg"
| again: "bounces d c parse msg k (pMsg st) \<Longrightarrow> process d c st = (Return (), st') \<Longrightarrow>
    outcomes (pTrace st') = outcomes (pTrace st) @ [CallSchedule i, commitEvent d (pMsg st)] \<Longrightarrow>
    json_request (unmarshalRequest sim) \<Longrightarrow> holdsSchedule sim u su i \<Longrightarrow>
    fireIfDue sim su u = u @ evs \<Longrightarrow> SimSend input \<in> set evs \<Longrightarrow>
    bounces d c parse msg (Suc k) (delivered parse h input)"

section \<open>One round\<close>

text \<open>A message a dispatcher reads only through its SQS message.\<close>

lemma original_message:
  assumes "original m1 = original m"
  shows "redelivery parse h m1 n = redelivery parse h m n" "valid_message m1 = valid_message m"
  using assms by (simp_all add: redelivery_def valid_message_def Body_def SystemAttributeByKey_def UserMessageAttributes_def)

text \<open>The schedule accepted in a round is one the retry scheduler created for the message and its next count.\<close>

lemma round_schedules:
  assumes "dRetryModel d = ScheduledRetryModel" and "polite (dHandler d)"
    and "dScheduledRetry d = Some cfg" and "dRetryScheduler d = Some rs" and "dDlqPublisher d = Some p"
    and "process d c st = (Return (), st')"
    and "outcomes (pTrace st') = outcomes (pTrace st) @ [CallSchedule i, commitEvent d (pMsg st)]"
  obtains t m b where "original m = original (pMsg st)" "sint (nextCount (pMsg st)) \<le> sint (MaxRetryCount cfg)"
    "schedule rs t m (nextCount (pMsg st)) b = (None, t @ [CallSchedule i])"
    "1000000 \<le> sint b" "sint b \<le> max 1000000 (sint (MaxBackoff cfg))"
proof -
  obtain r st1 where h: "handled d c st = (r, st1)" by force
  note inv = invoke_simps [OF h] and pol = invoke_polite [OF h assms(2)]
  from scheduled_step [OF assms(1-5) h assms(6)] assms(7) obtain err where r: "r = HRet err"
    and fail: "err \<noteq> None \<or> BackedOff (pMsg st1)" and le: "sint (nextCount (pMsg st)) \<le> sint (MaxRetryCount cfg)"
    by (cases r) (auto simp: commitEvent_def split: if_splits)
  have nc: "nextCount (pMsg st1) = nextCount (pMsg st)" using inv(1) by (intro nextCount_original) simp
  have ps: "processScheduled d err st1 = (Return (), st')"
    using scheduled_run [OF assms(1) _ assms(6)] h r by simp
  let ?t = "askTrace st1"
  from processScheduled_retry [OF ps fail assms(3,4)] le nc obtain e t' where
    s: "schedule rs ?t (Dispatch (pMsg st1)) (nextCount (pMsg st))
      (computeBackoff (nextCount (pMsg st)) (BaseBackoff cfg) (MaxBackoff cfg)) = (e, t')"
    and out: "outcomes (pTrace st') = outcomes t' @ (if e = None then [commitEvent d (pMsg st1)] else [])"
    by auto
  have o: "outcomes t' @ (if e = None then [commitEvent d (pMsg st1)] else []) =
      outcomes ?t @ [CallSchedule i, commitEvent d (pMsg st)]"
    using out assms(7) pol by simp
  have "e = None \<and> t' = ?t @ [CallSchedule i]"
    using s o by (cases rule: schedule_cases [of rs ?t "Dispatch (pMsg st1)" "nextCount (pMsg st)"
      "computeBackoff (nextCount (pMsg st)) (BaseBackoff cfg) (MaxBackoff cfg)"]) (auto split: if_splits)
  moreover have "original (Dispatch (pMsg st1)) = original (pMsg st)" using inv(1) by (simp add: Dispatch_def)
  ultimately show thesis using that s le backoffSpec_range [of _ _ "sint (MaxBackoff cfg)"] by (metis computeBackoff_spec)
qed

lemma length_others_card: "wf_map m \<Longrightarrow> length (others m) = card (dom (lookup m) - {retryCountAttribute})"
proof -
  assume "wf_map m"
  then have "distinct (others m)" by (simp add: others_def wf_map_def)
  moreover have "set (others m) = dom (lookup m) - {retryCountAttribute}"
    by (auto simp: others_def dom_map_of_conv_image_fst)
  ultimately show ?thesis by (metis distinct_card)
qed

text \<open>What a round keeps of a message.\<close>

definition same_user_attributes :: "message \<Rightarrow> message \<Rightarrow> bool" where
  "same_user_attributes m msg \<longleftrightarrow>
     (\<forall>k. k \<noteq> retryCountAttribute \<longrightarrow> lookup (UserMessageAttributes m) k = lookup (UserMessageAttributes msg) k)"

text \<open>The attributes that came along are the original's.\<close>

definition from_user_attributes :: "message \<Rightarrow> message \<Rightarrow> bool" where
  "from_user_attributes m msg \<longleftrightarrow> (\<forall>k. k \<noteq> retryCountAttribute \<longrightarrow>
     lookup (UserMessageAttributes m) k = None \<or> lookup (UserMessageAttributes m) k = lookup (UserMessageAttributes msg) k)"

lemma same_user_attributes_others:
  assumes "same_user_attributes m msg"
  shows "length (others (UserMessageAttributes m)) = length (others (UserMessageAttributes msg))"
proof -
  have "dom (lookup (UserMessageAttributes m)) - {retryCountAttribute} =
      dom (lookup (UserMessageAttributes msg)) - {retryCountAttribute}"
    using assms by (auto simp: same_user_attributes_def)
  then show ?thesis by (simp add: length_others_card)
qed

lemma redelivered_attributes:
  "lookup (UserMessageAttributes (redelivery parse h m n)) =
     map_option stringValue \<circ> lookup (buildRetryAttributes (UserMessageAttributes m) n)"
  by (rule lookup_received) (simp_all add: redelivery_def newMessage_def rb.build_wf)

lemma redelivery_keeps_attributes:
  "length (others (UserMessageAttributes m)) \<le> 9 \<Longrightarrow> same_user_attributes (redelivery parse h m n) m"
  by (auto simp: same_user_attributes_def redelivered_attributes rb.build_all textual_def option.map_comp comp_def
      map_option.identity)

lemma redelivery_from_attributes: "from_user_attributes (redelivery parse h m n) m"
proof -
  have "lookup (UserMessageAttributes (redelivery parse h m n)) k = None \<or>
      lookup (UserMessageAttributes (redelivery parse h m n)) k = lookup (UserMessageAttributes m) k"
    if "k \<noteq> retryCountAttribute" for k
    using rb.build_from [OF wf_UserMessageAttributes that, of m n]
    by (auto simp: redelivered_attributes textual_def option.map_comp comp_def map_option.identity)
  then show ?thesis by (simp add: from_user_attributes_def)
qed

lemma redelivery_valid:
  assumes "valid_message m" and "same_message m' (redelivery parse h m n)"
  shows "valid_message m'"
proof -
  have "validUTF8 k \<and> validUTF8 v" if "(k, v) \<in> set (UserMessageAttributes m')" for k v
  proof -
    have "lookup (UserMessageAttributes m') k = Some v"
      using that wf_UserMessageAttributes [of m'] by (simp add: wf_map_def)
    then have "lookup (UserMessageAttributes (redelivery parse h m n)) k = Some v"
      using assms(2) by (simp add: same_message_def)
    then obtain a where "lookup (buildRetryAttributes (UserMessageAttributes m) n) k = Some a" "v = stringValue a"
      by (auto simp: redelivered_attributes)
    then show ?thesis
      using valid_retry_attributes [of "UserMessageAttributes m" n] assms(1)
      by (force simp: valid_message_def valid_attr_def dest: map_of_SomeD)
  qed
  moreover have "Body m' = Body m" "SystemAttributeByKey m' messageGroupIDKey = SystemAttributeByKey m messageGroupIDKey"
    using assms(2) by (simp_all add: same_message_def redelivery_def newMessage_def Body_def SystemAttributeByKey_def)
  ultimately show ?thesis using assms(1) by (auto simp: valid_message_def)
qed

section \<open>All rounds\<close>

text \<open>
  What the route and the environment are relied on for: the ids are valid UTF-8, and the clock is between the years 1
  and 9999, a day before its end at the latest.
\<close>

definition loop_ready :: "dispatcher \<Rightarrow> sched_config \<Rightarrow> retryScheduler \<Rightarrow> bool" where
  "loop_ready d cfg rs \<longleftrightarrow> dRetryModel d = ScheduledRetryModel \<and> polite (dHandler d) \<and> valid_sched cfg \<and>
     dScheduledRetry d = Some cfg \<and> dRetryScheduler d = Some rs \<and> dDlqPublisher d \<noteq> None \<and>
     validUTF8 (rsTargetQueueURL rs) \<and> (\<forall>t s. rsIdgen rs t [] = Inr s \<longrightarrow> validUTF8 s) \<and>
     (\<forall>t. 0 \<le> rsNow rs t \<and> rsNow rs t < (315537897600 - 86400) * 1000000000)"

definition kept :: "sched_config \<Rightarrow> message \<Rightarrow> nat \<Rightarrow> message \<Rightarrow> bool" where
  "kept cfg msg k m \<longleftrightarrow> valid_message m \<and> Body m = Body msg \<and>
     SystemAttributeByKey m messageGroupIDKey = SystemAttributeByKey msg messageGroupIDKey \<and>
     sint (fst (parseRetryCount m)) = sint (fst (parseRetryCount msg)) + int k \<and>
     sint (fst (parseRetryCount m)) \<le> sint (MaxRetryCount cfg) \<and> from_user_attributes m msg \<and>
     (length (others (UserMessageAttributes msg)) \<le> 9 \<longrightarrow> same_user_attributes m msg)"

lemma kept_count:
  assumes "valid_sched cfg" and "kept cfg msg k m"
  shows "sint (nextCount m) = sint (fst (parseRetryCount msg)) + int k + 1" "0 \<le> sint (nextCount m)"
proof -
  have "sint (fst (parseRetryCount m)) \<le> 2147483647" using assms by (simp add: valid_sched_def kept_def)
  then have "sint (nextCount m) = sint (fst (parseRetryCount m)) + 1"
    using parseRetryCount_nonneg [of m] by (simp add: nextCount_def sint64_add)
  then show "sint (nextCount m) = sint (fst (parseRetryCount msg)) + int k + 1" "0 \<le> sint (nextCount m)"
    using assms(2) parseRetryCount_nonneg [of m] by (simp_all add: kept_def)
qed

lemma kept_delivered:
  assumes "valid_sched cfg" and "kept cfg msg k m" and "sint (nextCount m) \<le> sint (MaxRetryCount cfg)"
    and "same_message m' (redelivery parse h m (nextCount m))"
  shows "kept cfg msg (Suc k) m'"
proof -
  note count = kept_count [OF assms(1,2)]
  have "parseRetryCount m' = (nextCount m, [])"
    using same_parseRetryCount [OF assms(4)] parse_redelivery [OF count(2), of parse h m] by simp
  moreover have "valid_message m'" using redelivery_valid assms(2,4) by (auto simp: kept_def)
  moreover have "Body m' = Body m" "SystemAttributeByKey m' messageGroupIDKey = SystemAttributeByKey m messageGroupIDKey"
    using assms(4) by (simp_all add: same_message_def redelivery_def newMessage_def Body_def SystemAttributeByKey_def)
  moreover have "same_user_attributes m' msg" if "length (others (UserMessageAttributes msg)) \<le> 9"
  proof -
    have m: "same_user_attributes m msg" using assms(2) that by (simp add: kept_def)
    with that have "same_user_attributes (redelivery parse h m (nextCount m)) m"
      by (intro redelivery_keeps_attributes) (simp add: same_user_attributes_others)
    with m assms(4) show ?thesis by (simp add: same_user_attributes_def same_message_def)
  qed
  moreover have "from_user_attributes m' msg"
  proof -
    have "from_user_attributes m' m"
      using redelivery_from_attributes [of parse h m "nextCount m"] assms(4)
      by (simp add: from_user_attributes_def same_message_def)
    moreover have "from_user_attributes m msg" using assms(2) by (simp add: kept_def)
    ultimately show ?thesis unfolding from_user_attributes_def by metis
  qed
  ultimately show ?thesis using assms(2,3) count by (simp add: kept_def)
qed

lemma scheduleAt_range:
  assumes "0 \<le> now" and "now < (315537897600 - 86400) * 1000000000" and "1000000 \<le> sint b"
    and "sint b \<le> max 1000000 (sint (MaxBackoff cfg))" and "valid_sched cfg"
  shows "0 \<le> scheduleAt now b" "scheduleAt now b < 315537897600 * 1000000000"
proof -
  have "0 \<le> now + sint b" "now + sint b < 315537897600 * 1000000000"
    using assms by (simp_all add: valid_sched_def)
  moreover from this have "0 \<le> (now + sint b) mod 1000000000" "(now + sint b) mod 1000000000 \<le> now + sint b"
    by (simp_all add: zmod_le_nonneg_dividend)
  ultimately show "0 \<le> scheduleAt now b" "scheduleAt now b < 315537897600 * 1000000000"
    unfolding scheduleAt_def Let_def by linarith+
qed

lemma bounces_kept:
  assumes "bounces d c parse msg k m" and "loop_ready d cfg rs" and "valid_message msg"
    and "sint (fst (parseRetryCount msg)) \<le> sint (MaxRetryCount cfg)"
  shows "kept cfg msg k m"
  using assms(1)
proof (induction rule: bounces.induct)
  case received
  show ?case using assms(3,4) by (simp add: kept_def same_user_attributes_def from_user_attributes_def)
next
  case (again k st st' i sim u su evs input h)
  from assms(2) obtain p where r: "dRetryModel d = ScheduledRetryModel" "polite (dHandler d)" "dScheduledRetry d = Some cfg"
    "dRetryScheduler d = Some rs" "dDlqPublisher d = Some p" by (auto simp: loop_ready_def)
  obtain t m b where s: "original m = original (pMsg st)" "sint (nextCount (pMsg st)) \<le> sint (MaxRetryCount cfg)"
    "schedule rs t m (nextCount (pMsg st)) b = (None, t @ [CallSchedule i])"
    "1000000 \<le> sint b" "sint b \<le> max 1000000 (sint (MaxBackoff cfg))"
    by (rule round_schedules [OF r again(2,3)])
  note same = original_message [OF s(1)]
  have valid: "valid_message m" using again.IH same(2) by (simp add: kept_def)
  have env: "validUTF8 (rsTargetQueueURL rs)" "\<forall>s. rsIdgen rs t [] = Inr s \<longrightarrow> validUTF8 s"
    "0 \<le> rsNow rs t" "rsNow rs t < (315537897600 - 86400) * 1000000000" "valid_sched cfg"
    using assms(2) by (auto simp: loop_ready_def)
  note at = scheduleAt_range [OF env(3,4) s(4,5) env(5)]
  let ?at = "scheduleAt (rsNow rs t) b" and ?g = "groupNamePtr (toString (suGroupName su))"
  obtain req where q: "fireIfDue sim su u = (if simNow sim (u @ [getEvent su]) < ?at
       then u @ [getEvent su] else fire sim (csName i) ?g req (u @ [getEvent su]))"
    and "siQueueUrl (buildSendMessageInput req) = rsTargetQueueURL rs"
      "siMessageDeduplicationId (buildSendMessageInput req) = Some (csName i)"
      "wf_map (siMessageAttributes (buildSendMessageInput req))"
    and same': "same_message (delivered parse h (buildSendMessageInput req)) (redelivery parse h m (nextCount (pMsg st)))"
    by (rule fireIfDue_retry [OF valid env(1,2) s(3) refl at again(4,5), where parse = parse and h = h])
  have "input = buildSendMessageInput req"
    using q again(6,7)
    by (cases rule: fire_cases [of sim "csName i" ?g req "u @ [getEvent su]"])
      (auto simp: getEvent_def split: if_splits)
  with same' same(1) have "same_message (delivered parse h input) (redelivery parse h (pMsg st) (nextCount (pMsg st)))"
    by simp
  from kept_delivered [OF env(5) again.IH s(2) this] show ?case .
qed

text \<open>
  C6: The retry loop ends in the DLQ. Let a message with retry count \<open>c\<close>, at most the maximum, go round the
  dispatcher, the retry scheduler and the local scheduler. After \<open>k\<close> rounds it carries the count \<open>c + k\<close>, which
  never exceeds the maximum, so there are at most maximum minus \<open>c\<close> rounds; it has its original body, its
  group and no user attribute that is not the original's; when it came with at most nine of them beside the count,
  as many as a request may carry, it has all of them. Its next failure asks for a further schedule, by one
  CreateSchedule call, while the count is below the maximum; when it has reached it, for a dead letter, by one
  SendMessage call to the DLQ with the body and group of the message, and never for a schedule. Either call is made unless
  the random source fails for its id, and the delivery is committed behind it exactly when the client accepted it.
\<close>

theorem retry_loop_ends_in_dlq:
  assumes "bounces d c parse msg k m" and "loop_ready d cfg rs" and "dDlqPublisher d = Some p" and "valid_message msg"
    and "sint (fst (parseRetryCount msg)) \<le> sint (MaxRetryCount cfg)"
  shows "sint (fst (parseRetryCount m)) = sint (fst (parseRetryCount msg)) + int k \<and>
    sint (fst (parseRetryCount msg)) + int k \<le> sint (MaxRetryCount cfg) \<and>
    Body m = Body msg \<and> SystemAttributeByKey m messageGroupIDKey = SystemAttributeByKey msg messageGroupIDKey \<and>
    from_user_attributes m msg \<and>
    (length (others (UserMessageAttributes msg)) \<le> 9 \<longrightarrow> same_user_attributes m msg) \<and>
    (\<forall>st err st1 res st'. pMsg st = m \<and> handled d c st = (HRet err, st1) \<and> (err \<noteq> None \<or> BackedOff (pMsg st1)) \<and>
       process d c st = (res, st') \<longrightarrow>
       res = Return () \<and> (\<exists>new. outcomes (pTrace st') = outcomes (pTrace st) @ new \<and>
         (if sint (fst (parseRetryCount msg)) + int k < sint (MaxRetryCount cfg)
          then asksRetry d rs cfg (askTrace st1) m new \<and>
            ((\<forall>t. \<exists>dedupID. rsIdgen rs t [] = Inr dedupID) \<longrightarrow> (\<exists>i. take 1 new = [CallSchedule i]))
          else asksDeadLetter d p (askTrace st1) m new \<and>
            ((\<forall>t m. \<exists>dedupID. dpDedup p t m = Inr dedupID) \<longrightarrow> (\<exists>i. take 1 new = [CallSend i] \<and> deadLetter p m i)))))"
proof -
  note kept = bounces_kept [OF assms(1,2,4,5)]
  from assms(2) have r: "dRetryModel d = ScheduledRetryModel" "polite (dHandler d)" "dScheduledRetry d = Some cfg"
    "dRetryScheduler d = Some rs" "valid_sched cfg" by (auto simp: loop_ready_def)
  have next': "sint (nextCount m) \<le> sint (MaxRetryCount cfg) \<longleftrightarrow>
      sint (fst (parseRetryCount msg)) + int k < sint (MaxRetryCount cfg)"
    using kept_count(1) [OF r(5) kept] by auto
  have "res = Return () \<and> (\<exists>new. outcomes (pTrace st') = outcomes (pTrace st) @ new \<and>
         (if sint (fst (parseRetryCount msg)) + int k < sint (MaxRetryCount cfg)
          then asksRetry d rs cfg (askTrace st1) m new \<and>
            ((\<forall>t. \<exists>dedupID. rsIdgen rs t [] = Inr dedupID) \<longrightarrow> (\<exists>i. take 1 new = [CallSchedule i]))
          else asksDeadLetter d p (askTrace st1) m new \<and>
            ((\<forall>t m. \<exists>dedupID. dpDedup p t m = Inr dedupID) \<longrightarrow> (\<exists>i. take 1 new = [CallSend i] \<and> deadLetter p m i))))"
    if "pMsg st = m" "handled d c st = (HRet err, st1)" "err \<noteq> None \<or> BackedOff (pMsg st1)" "process d c st = (res, st')"
    for st err st1 res st'
    using failure_asks [OF scheduled_failure [OF r(1-4) assms(3) that(2-4)], unfolded that(1) next'] .
  moreover have "sint (fst (parseRetryCount msg)) + int k \<le> sint (MaxRetryCount cfg)" using kept by (simp add: kept_def)
  ultimately show ?thesis using kept unfolding kept_def by blast
qed

section \<open>Witness\<close>

definition loopDispatcher :: dispatcher where
  "loopDispatcher = (exampleDispatcher scheduledRoute (Some (External ''boom'')))\<lparr>dRetryScheduler := Some exampleScheduler\<rparr>"

lemma loopDispatcher_ready:
  obtains cfg where "loop_ready loopDispatcher cfg exampleScheduler" "sint (MaxRetryCount cfg) = 3"
    "dHandler loopDispatcher = (\<lambda>c s. (HRet (Some (External ''boom'')), s))"
proof -
  let ?cfg = "\<lparr>TargetQueueARN = ''arn:q'', ExecutionRoleARN = ''arn:role'', DLQQueueURL = ''https://dlq'',
      MaxRetryCount = 3, BaseBackoff = second, MaxBackoff = 60 * second\<rparr>"
  have d: "dHandler loopDispatcher = (\<lambda>c s. (HRet (Some (External ''boom'')), s))"
    "dRetryModel loopDispatcher = ScheduledRetryModel" "dScheduledRetry loopDispatcher = Some ?cfg"
    "dRetryScheduler loopDispatcher = Some exampleScheduler" "dDlqPublisher loopDispatcher \<noteq> None"
    by (simp_all add: loopDispatcher_def exampleDispatcher_def newDispatcher_def scheduledRoute_def defaultRoute_def Let_def)
  have "valid_sched ?cfg" by (simp add: valid_sched_def second_def)
  moreover have "validUTF8 ''https://q''" "validUTF8 ''id-1''" by (simp_all add: validUTF8_ascii)
  ultimately have "loop_ready loopDispatcher ?cfg exampleScheduler"
    unfolding loop_ready_def by (simp add: d polite_def exampleScheduler_def newRetryScheduler_def)
  with d(1) show thesis by (intro that [of ?cfg]) simp_all
qed

lemma example_count: "parseRetryCount example_message = (2, [])"
proof -
  have "UserMessageAttribute example_message retryCountAttribute = itoa 2"
    by (simp add: example_message_def newMessage_def UserMessageAttribute_def retryCountAttribute_def
        itoa_def digits10.simps digit_def char_of_def bit_simps)
  then show ?thesis by (simp add: parseRetryCount_def Let_def go_sint)
qed

lemma valid_example_message: "valid_message example_message"
  by (simp add: valid_message_def example_message_values validUTF8_ascii)

text \<open>A round of it: the schedule \<open>i\<close> is accepted, and the simulator of \<open>Local_Scheduler\<close> fires it.\<close>

lemma example_created:
  obtains i where "schedule exampleScheduler t m n b = (None, t @ [CallSchedule i])" "csName i = ''id-1''"
proof -
  have "\<exists>i. schedule exampleScheduler t m n b = (None, t @ [CallSchedule i]) \<and> csName i = ''id-1''"
    by (simp add: schedule_def Let_def exampleScheduler_def newRetryScheduler_def marshalRequest_def retrySchedule_def)
  then show thesis using that by blast
qed

lemma example_round:
  obtains st' i where "process loopDispatcher \<lparr>spanCtx = None\<rparr> exampleState = (Return (), st')"
    "outcomes (pTrace st') = outcomes (pTrace exampleState) @ [CallSchedule i, commitEvent loopDispatcher (pMsg exampleState)]"
    "csName i = ''id-1''"
proof -
  obtain cfg where ready: "loop_ready loopDispatcher cfg exampleScheduler" and m: "sint (MaxRetryCount cfg) = 3"
    and hd: "dHandler loopDispatcher = (\<lambda>c s. (HRet (Some (External ''boom'')), s))"
    using loopDispatcher_ready by blast
  then have d: "dRetryModel loopDispatcher = ScheduledRetryModel" "polite (dHandler loopDispatcher)"
    "dScheduledRetry loopDispatcher = Some cfg" "dRetryScheduler loopDispatcher = Some exampleScheduler"
    by (simp_all add: loop_ready_def)
  obtain r st1 where h: "handled loopDispatcher \<lparr>spanCtx = None\<rparr> exampleState = (r, st1)" by force
  then have r: "r = HRet (Some (External ''boom''))" by (auto simp: invoke_def hd)
  note inv = invoke_simps [OF h]
  obtain res st' where run: "process loopDispatcher \<lparr>spanCtx = None\<rparr> exampleState = (res, st')" by force
  note ps = scheduled_run [OF d(1) h [unfolded r] run]
  have "nextCount (pMsg st1) = nextCount (pMsg exampleState)" using inv(1) by (intro nextCount_original) simp
  then have "sint (nextCount (pMsg st1)) \<le> sint (MaxRetryCount cfg)"
    by (simp add: m nextCount_def exampleState_def example_count)
  from processScheduled_retry [OF ps _ d(3,4) this] obtain e t' b where res: "res = Return ()"
    and s: "schedule exampleScheduler (askTrace st1) (Dispatch (pMsg st1)) (nextCount (pMsg st1)) b = (e, t')"
      "outcomes (pTrace st') = outcomes t' @ (if e = None then [commitEvent loopDispatcher (pMsg st1)] else [])"
    by auto
  obtain i where i: "schedule exampleScheduler (askTrace st1) (Dispatch (pMsg st1)) (nextCount (pMsg st1)) b =
      (None, askTrace st1 @ [CallSchedule i])" "csName i = ''id-1''" by (rule example_created)
  have "commitEvent loopDispatcher (pMsg st1) = commitEvent loopDispatcher (pMsg exampleState)"
    using inv(2) by (intro commitEvent_id) simp
  with s i(1) have "outcomes (pTrace st') = outcomes (pTrace exampleState) @ [CallSchedule i, commitEvent loopDispatcher (pMsg exampleState)]"
    using invoke_polite [OF h d(2)] by auto
  with run res i(2) show thesis by (intro that) simp_all
qed

lemma retry_loop_ends_in_dlq_witness:
  "\<exists>m i. bounces loopDispatcher \<lparr>spanCtx = None\<rparr> (\<lambda>b. zero_envelope) example_message 1 m \<and>
     sint (fst (parseRetryCount m)) = 3 \<and>
     outcomes (pTrace (snd (process loopDispatcher \<lparr>spanCtx = None\<rparr> (exampleState\<lparr>pMsg := m\<rparr>)))) =
       [CallSend i, commitEvent loopDispatcher m] \<and>
     siQueueUrl i = ''https://dlq'' \<and> siMessageBody i = ''hi''"
proof -
  obtain cfg where ready: "loop_ready loopDispatcher cfg exampleScheduler" "sint (MaxRetryCount cfg) = 3"
    and hd: "dHandler loopDispatcher = (\<lambda>c s. (HRet (Some (External ''boom'')), s))"
    using loopDispatcher_ready by blast
  obtain st' i where round: "process loopDispatcher \<lparr>spanCtx = None\<rparr> exampleState = (Return (), st')"
    "outcomes (pTrace st') = outcomes (pTrace exampleState) @ [CallSchedule i, commitEvent loopDispatcher (pMsg exampleState)]"
    "csName i = ''id-1''" by (rule example_round)
  define sim where "sim = (exampleSimulator i)\<lparr>simNow := (\<lambda>t. 315537897600 * 1000000000)\<rparr>"
  let ?su = "\<lparr>suName = Some ''id-1'', suGroupName = None\<rparr>" and ?parse = "\<lambda>b. zero_envelope"
  have holdsSchedule: "holdsSchedule sim [] ?su i" by (simp add: holdsSchedule_def round(3) sim_def exampleSimulator_def)
  have json: "json_request (unmarshalRequest sim)" using exampleSimulator_json by (simp add: sim_def)
  have start: "bounces loopDispatcher \<lparr>spanCtx = None\<rparr> ?parse example_message 0 (pMsg exampleState)"
    using bounces.received by (simp add: exampleState_def)
  from ready obtain p where d: "dRetryModel loopDispatcher = ScheduledRetryModel" "polite (dHandler loopDispatcher)"
    "dScheduledRetry loopDispatcher = Some cfg" "dRetryScheduler loopDispatcher = Some exampleScheduler"
    "dDlqPublisher loopDispatcher = Some p" by (auto simp: loop_ready_def)
  obtain t m b where s: "original m = original (pMsg exampleState)"
    and "sint (nextCount (pMsg exampleState)) \<le> sint (MaxRetryCount cfg)"
    and s': "schedule exampleScheduler t m (nextCount (pMsg exampleState)) b = (None, t @ [CallSchedule i])"
    "1000000 \<le> sint b" "sint b \<le> max 1000000 (sint (MaxBackoff cfg))"
    by (rule round_schedules [OF d round(1,2)])
  have env: "validUTF8 (rsTargetQueueURL exampleScheduler)" "\<forall>s. rsIdgen exampleScheduler t [] = Inr s \<longrightarrow> validUTF8 s"
    "0 \<le> rsNow exampleScheduler t" "rsNow exampleScheduler t < (315537897600 - 86400) * 1000000000" "valid_sched cfg"
    using ready(1) by (auto simp: loop_ready_def)
  note at = scheduleAt_range [OF env(3,4) s'(2,3) env(5)]
  have "valid_message m" using original_message(2) [OF s] valid_example_message by (simp add: exampleState_def)
  then obtain r where
    r: "fireIfDue sim ?su [] = (if simNow sim ([] @ [getEvent ?su]) < scheduleAt (rsNow exampleScheduler t) b
       then [] @ [getEvent ?su] else fire sim (csName i) (groupNamePtr (toString (suGroupName ?su))) r ([] @ [getEvent ?su]))"
    by (rule fireIfDue_retry [OF _ env(1,2) s'(1) refl at json holdsSchedule, where parse = ?parse and h = "[]"])
  have due: "\<not> simNow sim ([] @ [getEvent ?su]) < scheduleAt (rsNow exampleScheduler t) b"
    using at(2) by (simp add: sim_def)
  have "\<exists>evs input. fireIfDue sim ?su [] = [] @ evs \<and> SimSend input \<in> set evs"
    unfolding r if_not_P [OF due]
    by (cases rule: fire_cases [of sim "csName i" "groupNamePtr (toString (suGroupName ?su))" r "[] @ [getEvent ?su]"]) auto
  then obtain evs input where "fireIfDue sim ?su [] = [] @ evs" "SimSend input \<in> set evs" by blast
  from bounces.again [OF start round(1,2) json holdsSchedule this]
  have b: "bounces loopDispatcher \<lparr>spanCtx = None\<rparr> ?parse example_message 1 (delivered ?parse ''rh'' input)"
    by simp
  define m where "m = delivered ?parse ''rh'' input"
  obtain p where p: "dDlqPublisher loopDispatcher = Some p" "dpClient p = quietClient" "dpQueueURL p = ''https://dlq''"
    "\<forall>t m. \<exists>dedupID. dpDedup p t m = Inr dedupID"
    using exampleDispatcher_scheduled(1) [OF refl] by (auto simp: loopDispatcher_def)
  have le: "sint (fst (parseRetryCount example_message)) \<le> sint (MaxRetryCount cfg)" by (simp add: example_count ready(2))
  note ends = retry_loop_ends_in_dlq [OF b [folded m_def] ready(1) p(1) valid_example_message le]
  have count: "sint (fst (parseRetryCount m)) = 3" and body: "Body m = ''hi''"
    using ends ready(2) by (simp_all add: example_count example_message_values)
  let ?st = "exampleState\<lparr>pMsg := m\<rparr>"
  obtain st1 where h: "handled loopDispatcher \<lparr>spanCtx = None\<rparr> ?st = (HRet (Some (External ''boom'')), st1)"
    by (simp add: invoke_def hd)
  obtain res st' where run: "process loopDispatcher \<lparr>spanCtx = None\<rparr> ?st = (res, st')" by force
  have "pMsg ?st = m \<and> handled loopDispatcher \<lparr>spanCtx = None\<rparr> ?st = (HRet (Some (External ''boom'')), st1) \<and>
      (Some (External ''boom'') \<noteq> None \<or> BackedOff (pMsg st1)) \<and>
      process loopDispatcher \<lparr>spanCtx = None\<rparr> ?st = (res, st')" using h run by simp
  from ends [THEN conjunct2, THEN conjunct2, THEN conjunct2, THEN conjunct2, THEN conjunct2, THEN conjunct2, rule_format, OF this]
  obtain new where out: "outcomes (pTrace st') = outcomes (pTrace ?st) @ new"
    and ask: "asksDeadLetter loopDispatcher p (askTrace st1) m new" "\<exists>i. take 1 new = [CallSend i] \<and> deadLetter p m i"
    using p(4) by (auto simp: example_count ready(2))
  from ask have "\<exists>i. new = [CallSend i, commitEvent loopDispatcher m] \<and> siQueueUrl i = ''https://dlq'' \<and> siMessageBody i = ''hi''"
    by (auto simp: asksDeadLetter_def deadLetter_def p(2,3) body quietClient_def split: if_splits)
  moreover have "outcomes (pTrace st') = new" using out by (simp add: exampleState_def)
  ultimately show ?thesis using b count unfolding m_def [symmetric] by (metis run snd_conv)
qed

end
