(* ===== verification/Bench_Client.thy ===== *)
theory Bench_Client
  imports Message
begin

text \<open>
  The in-memory SQS client of the benchmarks (\<open>src/benchmarks/fakeclient.go\<close>): it hands out a fixed number of
  messages to concurrent callers of ReceiveMessage, counts what they delete and closes its channel \<open>done\<close>
  when everything is deleted.

  Its counters are shared between goroutines without a lock, so the model is the interleaving of their atomic
  operations: every load, compare-and-swap and add is a step of its own. The invariant at the end is what makes
  the benchmarks count right: no message is handed out twice or lost, whichever way the callers interleave.
\<close>

section \<open>The client\<close>

definition benchQueueURL :: string where
  "benchQueueURL = ''https://sqs.local/000000000000/bench-queue''"

definition receiveBatch :: go_int where "receiveBatch = 10"

record benchClient =
  bcDone :: bool
  bcBody :: string
  bcGroups :: go_int
  bcTotal :: go_int
  bcDeleteLatency :: duration
  bcRemaining :: go_int
  bcSeq :: go_int
  bcDelivered :: go_int
  bcDeleteCalls :: go_int
  bcBatchCalls :: go_int
  bcBatchEntries :: go_int
  bcCloseOnce :: bool

definition newBenchClient :: "go_int \<Rightarrow> go_int \<Rightarrow> benchClient" where
  "newBenchClient amount groups =
     \<lparr>bcDone = False, bcBody = ''{\"id\":\"u-1\",\"text\":\"benchmark message body\"}'', bcGroups = groups,
      bcTotal = amount, bcDeleteLatency = 0, bcRemaining = amount, bcSeq = 0, bcDelivered = 0,
      bcDeleteCalls = 0, bcBatchCalls = 0, bcBatchEntries = 0, bcCloseOnce = False\<rparr>"

definition takeOf :: "go_int \<Rightarrow> go_int" where
  "takeOf rem = (let take' = rem in if receiveBatch <s take' then receiveBatch else take')"

definition benchMessage :: "benchClient \<Rightarrow> go_int \<Rightarrow> sqs_message" where
  "benchMessage c ident = \<lparr>smBody = Some (bcBody c), smReceiptHandle = Some (itoa ident),
     smAttributes = (if 0 <s bcGroups c
       then [(''MessageGroupId'', ''g-'' @ itoa (word_of_int (sint ident smod sint (bcGroups c))))] else []),
     smMessageAttributes = []\<rparr>"

text \<open>The operations without state: the fixed URL, and two that always succeed.\<close>

definition benchGetQueueUrl :: "err + string option option" where
  "benchGetQueueUrl = Inr (Some (Some benchQueueURL))"

definition benchChangeMessageVisibility :: "err option" where
  "benchChangeMessageVisibility = None"

definition benchSendMessage :: "err option" where
  "benchSendMessage = None"

text \<open>
  What a goroutine is doing: nothing; about to load \<open>remaining\<close>, or past the load with the value it saw; making
  its messages, with how many are missing; deleting one message or a batch; past the request counter, past the
  batch counter, adding to \<open>delivered\<close>; about to close \<open>done\<close>.
\<close>

datatype bench_call =
    Ready
  | Loading
  | Loaded go_int
  | Filling nat "sqs_message list"
  | DeletingOne
  | DeletingBatch nat
  | CountedBatch nat
  | CountedEntries nat
  | Marking nat
  | ClosingDone

text \<open>The client, its callers, and as history the answers of ReceiveMessage and how many entries were deleted.\<close>

record bench =
  bnClient :: benchClient
  bnCalls :: "bench_call list"
  bnReplies :: "sqs_message list list"
  bnDeleted :: nat

abbreviation callAt :: "nat \<Rightarrow> bench_call \<Rightarrow> bench \<Rightarrow> bool" where
  "callAt i k st \<equiv> i < length (bnCalls st) \<and> bnCalls st ! i = k"

definition goto :: "nat \<Rightarrow> bench_call \<Rightarrow> bench \<Rightarrow> bench" where
  "goto i k st = st\<lparr>bnCalls := (bnCalls st)[i := k]\<rparr>"

definition onClient :: "(benchClient \<Rightarrow> benchClient) \<Rightarrow> bench \<Rightarrow> bench" where
  "onClient f st = st\<lparr>bnClient := f (bnClient st)\<rparr>"

text \<open>
  An empty ReceiveMessage answers with no messages, with the context's error or after a millisecond; a delete
  whose context ends during the latency returns the error and counts nothing. That DeleteMessageBatch reports
  every entry as successful is left out: it is no state of the client.
\<close>

inductive bench_step :: "bench \<Rightarrow> bench \<Rightarrow> bool" where
  receive: "callAt i Ready st \<Longrightarrow> bench_step st (goto i Loading st)"
| load: "callAt i Loading st \<Longrightarrow> bcRemaining (bnClient st) = rem \<Longrightarrow> rem \<noteq> 0 \<Longrightarrow> bench_step st (goto i (Loaded rem) st)"
| load_zero: "callAt i Loading st \<Longrightarrow> bcRemaining (bnClient st) = 0 \<Longrightarrow>
    bench_step st ((goto i Ready st)\<lparr>bnReplies := bnReplies st @ [[]]\<rparr>)"
| cas: "callAt i (Loaded rem) st \<Longrightarrow> bcRemaining (bnClient st) = rem \<Longrightarrow>
    bench_step st (onClient (\<lambda>c. c\<lparr>bcRemaining := rem - takeOf rem\<rparr>) (goto i (Filling (nat (sint (takeOf rem))) []) st))"
| cas_lost: "callAt i (Loaded rem) st \<Longrightarrow> bcRemaining (bnClient st) \<noteq> rem \<Longrightarrow> bench_step st (goto i Loading st)"
| fill: "callAt i (Filling (Suc k) msgs) st \<Longrightarrow> ident = bcSeq (bnClient st) + 1 \<Longrightarrow>
    bench_step st (onClient (\<lambda>c. c\<lparr>bcSeq := ident\<rparr>) (goto i (Filling k (msgs @ [benchMessage (bnClient st) ident])) st))"
| filled: "callAt i (Filling 0 msgs) st \<Longrightarrow> bench_step st ((goto i Ready st)\<lparr>bnReplies := bnReplies st @ [msgs]\<rparr>)"
| delete_one: "callAt i Ready st \<Longrightarrow> bench_step st (goto i DeletingOne st)"
| delete_batch: "callAt i Ready st \<Longrightarrow> bench_step st (goto i (DeletingBatch n) st)"
| delete_cancelled: "callAt i DeletingOne st \<or> callAt i (DeletingBatch n) st \<Longrightarrow> 0 <s bcDeleteLatency (bnClient st) \<Longrightarrow>
    bench_step st (goto i Ready st)"
| count_one: "callAt i DeletingOne st \<Longrightarrow>
    bench_step st (onClient (\<lambda>c. c\<lparr>bcDeleteCalls := bcDeleteCalls c + 1\<rparr>) (goto i (Marking 1) st))"
| count_batch: "callAt i (DeletingBatch n) st \<Longrightarrow>
    bench_step st (onClient (\<lambda>c. c\<lparr>bcDeleteCalls := bcDeleteCalls c + 1\<rparr>) (goto i (CountedBatch n) st))"
| count_batch_call: "callAt i (CountedBatch n) st \<Longrightarrow>
    bench_step st (onClient (\<lambda>c. c\<lparr>bcBatchCalls := bcBatchCalls c + 1\<rparr>) (goto i (CountedEntries n) st))"
| count_entries: "callAt i (CountedEntries n) st \<Longrightarrow>
    bench_step st (onClient (\<lambda>c. c\<lparr>bcBatchEntries := bcBatchEntries c + of_nat n\<rparr>) (goto i (Marking n) st))"
| mark: "callAt i (Marking n) st \<Longrightarrow> delivered = bcDelivered (bnClient st) + of_nat n \<Longrightarrow>
    bench_step st ((onClient (\<lambda>c. c\<lparr>bcDelivered := delivered\<rparr>)
      (goto i (if bcTotal (bnClient st) \<le>s delivered then ClosingDone else Ready) st))\<lparr>bnDeleted := bnDeleted st + n\<rparr>)"
| close_done: "callAt i ClosingDone st \<Longrightarrow> \<not> bcCloseOnce (bnClient st) \<Longrightarrow>
    bench_step st (onClient (\<lambda>c. c\<lparr>bcDone := True, bcCloseOnce := True\<rparr>) (goto i Ready st))"
| already_closed: "callAt i ClosingDone st \<Longrightarrow> bcCloseOnce (bnClient st) \<Longrightarrow> bench_step st (goto i Ready st)"

definition startBench :: "go_int \<Rightarrow> go_int \<Rightarrow> duration \<Rightarrow> nat \<Rightarrow> bench" where
  "startBench amount groups latency callers =
     \<lparr>bnClient = (newBenchClient amount groups)\<lparr>bcDeleteLatency := latency\<rparr>, bnCalls = replicate callers Ready,
      bnReplies = [], bnDeleted = 0\<rparr>"

definition benched :: "go_int \<Rightarrow> bench \<Rightarrow> bool" where
  "benched amount st \<longleftrightarrow> (\<exists>groups latency callers. bench_step\<^sup>*\<^sup>* (startBench amount groups latency callers) st)"

section \<open>Every message once\<close>

definition handles :: "sqs_message list \<Rightarrow> string option multiset" where
  "handles msgs = mset (map smReceiptHandle msgs)"

definition numbered :: "int \<Rightarrow> string option multiset" where
  "numbered n = mset (map (\<lambda>i. Some (itoa (word_of_int i))) [1..n])"

text \<open>The messages a caller is still making: those it has, and how many are missing.\<close>

fun madeBy :: "bench_call \<Rightarrow> string option multiset" where
  "madeBy (Filling n msgs) = handles msgs"
| "madeBy _ = {#}"

fun missingBy :: "bench_call \<Rightarrow> nat" where
  "missingBy (Filling n msgs) = n"
| "missingBy _ = 0"

fun small :: "bench_call \<Rightarrow> bool" where
  "small (Filling n msgs) = (n + length msgs \<le> 10)"
| "small _ = True"

text \<open>
  The accounts: what is left, what callers have claimed and what is numbered make up the total, and the numbered
  messages are those answered and those being made.
\<close>

definition accounted :: "go_int \<Rightarrow> bench \<Rightarrow> bool" where
  "accounted amount st \<longleftrightarrow> bcTotal (bnClient st) = amount \<and>
     0 \<le> sint (bcRemaining (bnClient st)) \<and> 0 \<le> sint (bcSeq (bnClient st)) \<and>
     sint (bcRemaining (bnClient st)) + int (sum_list (map missingBy (bnCalls st))) + sint (bcSeq (bnClient st)) = sint amount \<and>
     handles (concat (bnReplies st)) + sum_list (map madeBy (bnCalls st)) = numbered (sint (bcSeq (bnClient st)))"

definition small_answers :: "bench \<Rightarrow> bool" where
  "small_answers st \<longleftrightarrow> (\<forall>k \<in> set (bnCalls st). small k) \<and> (\<forall>msgs \<in> set (bnReplies st). length msgs \<le> 10)"

definition done_inv :: "bench \<Rightarrow> bool" where
  "done_inv st \<longleftrightarrow> bcDone (bnClient st) = bcCloseOnce (bnClient st) \<and>
     (int (bnDeleted st) < 2 ^ 63 \<longrightarrow> sint (bcDelivered (bnClient st)) = int (bnDeleted st) \<and>
        (bcDone (bnClient st) \<or> ClosingDone \<in> set (bnCalls st) \<longrightarrow> sint (bcTotal (bnClient st)) \<le> int (bnDeleted st)) \<and>
        (0 < sint (bcTotal (bnClient st)) \<and> sint (bcTotal (bnClient st)) \<le> int (bnDeleted st) \<longrightarrow>
           bcDone (bnClient st) \<or> ClosingDone \<in> set (bnCalls st)))"

lemma bench_simps [simp]:
  "bnCalls (goto i k st) = (bnCalls st)[i := k]" "bnClient (goto i k st) = bnClient st"
  "bnReplies (goto i k st) = bnReplies st" "bnDeleted (goto i k st) = bnDeleted st"
  "bnClient (onClient f st) = f (bnClient st)" "bnCalls (onClient f st) = bnCalls st"
  "bnReplies (onClient f st) = bnReplies st" "bnDeleted (onClient f st) = bnDeleted st"
  by (simp_all add: goto_def onClient_def)

lemma sum_list_at:
  "i < length xs \<Longrightarrow> f (xs ! i) + sum_list (map f (xs[i := y])) = (f y :: 'b :: comm_monoid_add) + sum_list (map f xs)"
proof (induction xs arbitrary: i)
  case (Cons x xs)
  show ?case
  proof (cases i)
    case (Suc j)
    have "f (xs ! j) + (f x + sum_list (map f (xs[j := y]))) = f x + (f (xs ! j) + sum_list (map f (xs[j := y])))"
      by (simp add: ac_simps)
    also have "\<dots> = f x + (f y + sum_list (map f xs))" using Cons Suc by simp
    finally show ?thesis by (simp add: Suc ac_simps)
  qed (simp add: ac_simps)
qed simp

lemma missing_at:
  "i < length ks \<Longrightarrow> ks ! i = old \<Longrightarrow>
   int (missingBy old) + int (sum_list (map missingBy (ks[i := new]))) = int (missingBy new) + int (sum_list (map missingBy ks))"
  using sum_list_at [of i ks missingBy new] by (simp flip: of_nat_add)

lemma made_at:
  "i < length ks \<Longrightarrow> ks ! i = old \<Longrightarrow>
   madeBy old + sum_list (map madeBy (ks[i := new])) = madeBy new + sum_list (map madeBy ks)"
  using sum_list_at [of i ks madeBy new] by simp

lemma numbered_Suc:
  "0 \<le> n \<Longrightarrow> numbered (n + 1) = numbered n + {#Some (itoa (word_of_int (n + 1)))#}"
  by (simp add: numbered_def upto_rec2)

lemma takeOf_sint: "0 \<le> sint rem \<Longrightarrow> 0 \<le> sint (takeOf rem) \<and> sint (takeOf rem) \<le> sint rem \<and> sint (takeOf rem) \<le> 10 \<and>
    sint (rem - takeOf rem) = sint rem - sint (takeOf rem)"
proof -
  assume rem: "0 \<le> sint rem"
  have t: "sint (takeOf rem) = (if 10 < sint rem then 10 else sint rem)"
    by (simp add: takeOf_def receiveBatch_def go_sint)
  have "sint (rem - takeOf rem) = sint rem - sint (takeOf rem)"
    using sint64_range [of rem] rem t by (simp add: sint_word_ariths signed_take_bit_id)
  with rem t show ?thesis by simp
qed

text \<open>Steps that move a caller between calls that hold no messages keep the accounts.\<close>

lemma sums_move:
  "i < length ks \<Longrightarrow> missingBy (ks ! i) = 0 \<Longrightarrow> missingBy new = 0 \<Longrightarrow>
   sum_list (map missingBy (ks[i := new])) = sum_list (map missingBy ks)"
  "i < length ks \<Longrightarrow> madeBy (ks ! i) = {#} \<Longrightarrow> madeBy new = {#} \<Longrightarrow>
   sum_list (map madeBy (ks[i := new])) = sum_list (map madeBy ks)"
  using missing_at [of i ks _ new] made_at [of i ks _ new] by simp_all

lemma accounted_step: "bench_step st st' \<Longrightarrow> accounted amount st \<Longrightarrow> accounted amount st'"
proof (induction rule: bench_step.induct)
  case (cas i rem st)
  let ?n = "nat (sint (takeOf rem))"
  have "0 \<le> sint rem" using cas by (auto simp: accounted_def)
  note t = takeOf_sint [OF this]
  with cas missing_at [of i "bnCalls st" "Loaded rem" "Filling ?n []"] made_at [of i "bnCalls st" "Loaded rem" "Filling ?n []"]
  show ?case by (simp add: accounted_def handles_def)
next
  case (fill i k msgs st ident)
  let ?m = "benchMessage (bnClient st) ident"
  have id: "sint ident = sint (bcSeq (bnClient st)) + 1"
    using fill missing_at [of i "bnCalls st" "Filling (Suc k) msgs" Ready] sint64_range [of amount]
    unfolding fill(2) by (intro trans [OF sint64_add]) (auto simp: accounted_def)
  have "Some (itoa (word_of_int (sint ident))) = smReceiptHandle ?m" by (simp add: benchMessage_def)
  with numbered_Suc [of "sint (bcSeq (bnClient st))"] fill(3)
  have n: "numbered (sint ident) = numbered (sint (bcSeq (bnClient st))) + {#smReceiptHandle ?m#}"
    by (simp add: accounted_def id)
  from fill n id missing_at [of i "bnCalls st" "Filling (Suc k) msgs" "Filling k (msgs @ [?m])"]
    made_at [of i "bnCalls st" "Filling (Suc k) msgs" "Filling k (msgs @ [?m])"]
  show ?case by (simp add: accounted_def handles_def)
next
  case (filled i msgs st)
  let ?ks = "(bnCalls st)[i := Ready]"
  have "handles (concat (bnReplies st) @ msgs) + sum_list (map madeBy ?ks) =
      handles (concat (bnReplies st)) + (handles msgs + sum_list (map madeBy ?ks))"
    by (simp add: handles_def ac_simps)
  also have "handles msgs + sum_list (map madeBy ?ks) = sum_list (map madeBy (bnCalls st))"
    using made_at [of i "bnCalls st" "Filling 0 msgs" Ready] filled(1) by simp
  finally show ?case
    using filled missing_at [of i "bnCalls st" "Filling 0 msgs" Ready] by (simp add: accounted_def)
qed (auto simp: accounted_def sums_move split: if_splits)

lemma member_at_update:
  "i < length xs \<Longrightarrow> xs ! i \<noteq> z \<Longrightarrow> z \<in> set (xs[i := y]) \<longleftrightarrow> y = z \<or> z \<in> set xs"
  by (metis in_set_conv_nth length_list_update nth_list_update_eq nth_list_update_neq)

lemma small_answers_step: "bench_step st st' \<Longrightarrow> accounted amount st \<Longrightarrow> small_answers st \<Longrightarrow> small_answers st'"
proof (induction rule: bench_step.induct)
  case (cas i rem st)
  then have "sint (takeOf rem) \<le> 10" using takeOf_sint [of rem] by (auto simp: accounted_def)
  with cas show ?case by (auto simp: small_answers_def dest!: set_update_subset_insert [THEN subsetD])
next
  case (fill i k msgs st ident)
  then have "small (Filling (Suc k) msgs)" using nth_mem unfolding small_answers_def by metis
  with fill show ?case by (auto simp: small_answers_def dest!: set_update_subset_insert [THEN subsetD])
next
  case (filled i msgs st)
  then have "small (Filling 0 msgs)" using nth_mem unfolding small_answers_def by metis
  with filled show ?case by (auto simp: small_answers_def dest!: set_update_subset_insert [THEN subsetD])
qed (auto simp: small_answers_def dest!: set_update_subset_insert [THEN subsetD])

lemma done_inv_step: "bench_step st st' \<Longrightarrow> done_inv st \<Longrightarrow> done_inv st'"
proof (induction rule: bench_step.induct)
  case (mark i n st delivered)
  have d: "sint delivered = int (bnDeleted st) + int n" if "int (bnDeleted st + n) < 2 ^ 63"
  proof -
    have "sint (of_nat n :: go_int) = int n" using sint64_of_int [of "int n"] that by simp
    moreover have "sint (bcDelivered (bnClient st)) = int (bnDeleted st)" using mark(3) that by (simp add: done_inv_def)
    ultimately show ?thesis unfolding mark(2) using that by (simp add: sint64_add)
  qed
  let ?reached = "bcTotal (bnClient st) \<le>s delivered"
  have mem: "ClosingDone \<in> set ((bnCalls st)[i := if ?reached then ClosingDone else Ready]) \<longleftrightarrow>
      ?reached \<or> ClosingDone \<in> set (bnCalls st)"
    using mark(1) member_at_update [of i "bnCalls st" ClosingDone] by simp
  have total: "?reached \<longleftrightarrow> sint (bcTotal (bnClient st)) \<le> int (bnDeleted st) + int n" if "int (bnDeleted st + n) < 2 ^ 63"
    using d [OF that] by (simp add: go_sint)
  show ?case
    using mark(3) unfolding done_inv_def bench_simps by (simp add: mem) (use d total in auto)
next
  case (close_done i st)
  then show ?case using nth_mem [of i "bnCalls st"] by (auto simp: done_inv_def)
next
  case (already_closed i st)
  then show ?case by (auto simp: done_inv_def dest!: set_update_subset_insert [THEN subsetD])
qed (auto simp: done_inv_def member_at_update)

lemma benched_inv:
  assumes "benched amount st" and "0 \<le> sint amount"
  shows "accounted amount st \<and> small_answers st \<and> done_inv st \<and> bcTotal (bnClient st) = amount"
proof -
  from assms(1) obtain groups latency callers where run: "bench_step\<^sup>*\<^sup>* (startBench amount groups latency callers) st"
    by (auto simp: benched_def)
  from run have "accounted amount st \<and> small_answers st \<and> done_inv st"
  proof (induction rule: rtranclp_induct)
    case base
    have "sum_list (map madeBy (replicate callers Ready)) = {#}" by (induction callers) simp_all
    then show ?case using assms(2)
      by (auto simp: accounted_def small_answers_def done_inv_def startBench_def newBenchClient_def handles_def
          numbered_def sum_list_replicate)
  next
    case (step x y)
    then show ?case using accounted_step small_answers_step done_inv_step by blast
  qed
  then show ?thesis by (simp add: accounted_def)
qed

lemma numbered_distinct: "n < 2 ^ 63 \<Longrightarrow> count (numbered n) x \<le> 1"
proof -
  assume n: "n < 2 ^ 63"
  have "inj_on (\<lambda>i. Some (itoa (word_of_int i))) {1..n}"
  proof (rule inj_onI)
    fix i j assume ij: "i \<in> {1..n}" "j \<in> {1..n}" "Some (itoa (word_of_int i)) = Some (itoa (word_of_int j))"
    then have "sint (word_of_int i :: go_int) = sint (word_of_int j :: go_int)" by simp
    moreover have "sint (word_of_int x :: go_int) = x" if "x \<in> {1..n}" for x using that n by (intro sint64_of_int) auto
    ultimately show "i = j" using ij by metis
  qed
  then have "distinct (map (\<lambda>i. Some (itoa (word_of_int i))) [1..n])" by (simp add: distinct_map)
  then show ?thesis unfolding numbered_def by (simp add: distinct_count_atmost_1)
qed

lemma nothing_made: "\<forall>k \<in> set ks. madeBy k = {#} \<and> missingBy k = 0 \<Longrightarrow>
    sum_list (map madeBy ks) = {#} \<and> sum_list (map missingBy ks) = 0"
  by (induction ks) simp_all

text \<open>
  C21: The benchmark client hands every message out exactly once, however its callers interleave: at any time
  no receipt handle has been answered twice, no answer holds more than ten messages, and what is left is never
  negative; once nothing is left and no caller is inside ReceiveMessage, the handles answered are exactly 1 to the
  total. Its channel is closed only after the total was deleted, and has been once it was and no caller is about to.
\<close>

theorem bench_client_hands_out_once:
  assumes "benched amount st" and "0 < sint amount"
  shows "0 \<le> sint (bcRemaining (bnClient st)) \<and> distinct (map smReceiptHandle (concat (bnReplies st))) \<and>
    (\<forall>msgs \<in> set (bnReplies st). length msgs \<le> 10) \<and>
    (bcRemaining (bnClient st) = 0 \<and> (\<forall>n msgs. Filling n msgs \<notin> set (bnCalls st)) \<longrightarrow>
       mset (map smReceiptHandle (concat (bnReplies st))) = mset (map (\<lambda>i. Some (itoa (word_of_int i))) [1..sint amount])) \<and>
    (int (bnDeleted st) < 2 ^ 63 \<and> ClosingDone \<notin> set (bnCalls st) \<longrightarrow>
       (bcDone (bnClient st) \<longleftrightarrow> sint amount \<le> int (bnDeleted st)))"
proof -
  note inv = benched_inv [OF assms(1) less_imp_le [OF assms(2)]]
  then have acc: "handles (concat (bnReplies st)) + sum_list (map madeBy (bnCalls st)) = numbered (sint (bcSeq (bnClient st)))"
    "sint (bcRemaining (bnClient st)) + int (sum_list (map missingBy (bnCalls st))) + sint (bcSeq (bnClient st)) = sint amount"
    by (simp_all add: accounted_def)
  have "count (handles (concat (bnReplies st))) x \<le> 1" for x
    using numbered_distinct [of "sint (bcSeq (bnClient st))" x] sint64_range unfolding acc(1) [symmetric] by simp
  then have "distinct (map smReceiptHandle (concat (bnReplies st)))"
    unfolding handles_def by (metis count_mset_0_iff distinct_count_atmost_1 le_less less_one)
  moreover have "handles (concat (bnReplies st)) = numbered (sint amount)"
    if "bcRemaining (bnClient st) = 0" "\<forall>n msgs. Filling n msgs \<notin> set (bnCalls st)"
  proof -
    have "madeBy k = {#} \<and> missingBy k = 0" if "k \<in> set (bnCalls st)" for k
    proof -
      have "k \<noteq> Filling n msgs" for n msgs using that \<open>\<forall>n msgs. Filling n msgs \<notin> set (bnCalls st)\<close> by blast
      then show ?thesis by (cases k) auto
    qed
    with nothing_made [of "bnCalls st"]
    have m: "sum_list (map madeBy (bnCalls st)) = {#}" and n: "sum_list (map missingBy (bnCalls st)) = 0" by blast+
    have "sint (bcSeq (bnClient st)) = sint amount" using acc(2) that(1) unfolding n by simp
    then show ?thesis using acc(1) m by simp
  qed
  ultimately show ?thesis
    using inv assms(2) by (auto simp: accounted_def small_answers_def done_inv_def handles_def numbered_def)
qed

text \<open>One caller that receives the only message and deletes it.\<close>

lemma bench_trace:
  "bench_step\<^sup>*\<^sup>* st st1 \<Longrightarrow> bench_step st1 st2 \<Longrightarrow> bench_step\<^sup>*\<^sup>* st st2"
  by (rule rtranclp.rtrancl_into_rtrancl)

lemma example_bench:
  "\<exists>st. benched 1 st \<and> bnReplies st = [[benchMessage (newBenchClient 1 0) 1]] \<and> bnDeleted st = 1 \<and>
     bcRemaining (bnClient st) = 0 \<and> bnCalls st = [Ready]"
proof -
  let ?s0 = "startBench 1 0 0 1"
  let ?m = "benchMessage (newBenchClient 1 0) 1"
  define s1 where "s1 = goto 0 Loading ?s0"
  define s2 where "s2 = goto 0 (Loaded 1) s1"
  define s3 where "s3 = onClient (\<lambda>c. c\<lparr>bcRemaining := 0\<rparr>) (goto 0 (Filling 1 []) s2)"
  define s4 where "s4 = onClient (\<lambda>c. c\<lparr>bcSeq := 1\<rparr>) (goto 0 (Filling 0 [?m]) s3)"
  define s5 where "s5 = (goto 0 Ready s4)\<lparr>bnReplies := [[?m]]\<rparr>"
  define s6 where "s6 = goto 0 DeletingOne s5"
  define s7 where "s7 = onClient (\<lambda>c. c\<lparr>bcDeleteCalls := bcDeleteCalls c + 1\<rparr>) (goto 0 (Marking 1) s6)"
  define s8 where "s8 = (onClient (\<lambda>c. c\<lparr>bcDelivered := 1\<rparr>) (goto 0 ClosingDone s7))\<lparr>bnDeleted := 1\<rparr>"
  define s9 where "s9 = onClient (\<lambda>c. c\<lparr>bcDone := True, bcCloseOnce := True\<rparr>) (goto 0 Ready s8)"
  note defs = s1_def s2_def s3_def s4_def s5_def s6_def s7_def s8_def s9_def startBench_def newBenchClient_def
  have t: "takeOf 1 = 1" by (simp add: takeOf_def receiveBatch_def go_sint)
  have "bench_step ?s0 s1" unfolding s1_def by (rule bench_step.receive) (simp add: startBench_def)
  moreover have "bench_step s1 s2" unfolding s2_def by (rule bench_step.load) (simp_all add: defs)
  moreover have "bench_step s2 s3"
    using bench_step.cas [where i = 0 and rem = 1 and st = s2] by (simp add: defs t)
  moreover have "bench_step s3 s4"
    using bench_step.fill [where i = 0 and k = 0 and msgs = "[]" and st = s3 and ident = 1] by (simp add: defs benchMessage_def)
  moreover have "bench_step s4 s5"
    using bench_step.filled [where i = 0 and msgs = "[?m]" and st = s4] by (simp add: defs)
  moreover have "bench_step s5 s6" unfolding s6_def by (rule bench_step.delete_one) (simp add: defs)
  moreover have "bench_step s6 s7" unfolding s7_def by (rule bench_step.count_one) (simp add: defs)
  moreover have "bench_step s7 s8"
    using bench_step.mark [where i = 0 and n = 1 and st = s7 and delivered = 1] by (simp add: defs go_sint)
  moreover have "bench_step s8 s9" unfolding s9_def by (rule bench_step.close_done) (simp_all add: defs)
  ultimately have "bench_step\<^sup>*\<^sup>* ?s0 s9" by (meson bench_trace rtranclp.rtrancl_refl)
  then have "benched 1 s9" unfolding benched_def by blast
  then show ?thesis by (intro exI [of _ s9]) (simp add: defs)
qed

lemma bench_client_hands_out_once_witness:
  "\<exists>st. benched 1 st \<and> bcDone (bnClient st) \<and> mset (map smReceiptHandle (concat (bnReplies st))) = {#Some (itoa 1)#}"
proof -
  from example_bench obtain st where st: "benched 1 st" "bnDeleted st = 1" "bcRemaining (bnClient st) = 0" "bnCalls st = [Ready]"
    by blast
  from bench_client_hands_out_once [OF st(1)] st show ?thesis by (intro exI [of _ st]) simp
qed

end
