(* ===== verification/Producer_Example.thy ===== *)
theory Producer_Example
  imports Client Conn Idgen
begin

text \<open>
  The program \<open>src/examples/producer/main.go\<close>: a connection, an SNS client, a producer with its id
  generators, and six publishing calls. The programs of \<open>src/examples/\<close> have one shape, a sequence of
  calls that exits through \<open>log.Fatalf\<close> at the first error; \<open>program\<close> is that shape, and \<open>followedBy\<close> its sequence.

  The AWS SDK (\<open>load\<close>, \<open>api\<close>), the digest and the random source are parameters. A line a program prints
  is an event, with the values it prints as attributes; the context with its deadline is in what
  \<open>ctxErr\<close> and the client answer.
\<close>

section \<open>Programs\<close>

text \<open>How a program ends early: \<open>log.Fatalf\<close> with its text and error, or a panic.\<close>

datatype exit = Fatal string err | Crash string

text \<open>\<open>None\<close> is a program that never comes to an end.\<close>

type_synonym 'a program = "trace \<Rightarrow> ((exit + 'a) \<times> trace) option"

definition followedBy :: "'a program \<Rightarrow> ('a \<Rightarrow> 'b program) \<Rightarrow> 'b program" where
  "followedBy p f t = (case p t of
     None \<Rightarrow> None
   | Some (Inl e, t) \<Rightarrow> Some (Inl e, t)
   | Some (Inr x, t) \<Rightarrow> f x t)"

text \<open>\<^verbatim>\<open>if err != nil { log.Fatalf(text, err) }\<close> after a pure call, a constructor of a client, and a call.\<close>

definition must :: "string \<Rightarrow> err + 'a \<Rightarrow> 'a program" where
  "must text r t = (case r of Inl e \<Rightarrow> Some (Inl (Fatal text e), t) | Inr x \<Rightarrow> Some (Inr x, t))"

definition construct :: "string \<Rightarrow> (trace \<Rightarrow> ((err + 'a) \<times> trace) option) \<Rightarrow> 'a program" where
  "construct text new t = (case new t of None \<Rightarrow> None | Some (r, t) \<Rightarrow> must text r t)"

definition calling :: "string \<Rightarrow> (trace \<Rightarrow> 'a step) \<Rightarrow> 'a program" where
  "calling text f t = (case f t of (Panic p, t) \<Rightarrow> Some (Inl (Crash p), t) | (Return r, t) \<Rightarrow> must text r t)"

definition printing :: "event list \<Rightarrow> unit program" where
  "printing es t = Some (Inr (), t @ es)"

text \<open>The connection every program makes.\<close>

definition localConn :: "conn_option option list" where
  "localConn = [Some (WithRegion ''us-east-1''), Some (WithAccessKey ''test'' ''test''),
     Some (WithEndpoint ''http://localhost:4566'')]"

section \<open>The publishing functions\<close>

definition publishOrder :: "producer \<Rightarrow> string \<Rightarrow> unit program" where
  "publishOrder p topicARN = followedBy (calling ''order publish failed'' (Publish p (Some
     \<lparr>piAttributes = [(''event_type'', ''order.placed'')], piTopicARN = topicARN,
      piMessage = ''{\"order_id\":\"o-1001\",\"customer_id\":\"c-42\",\"total\":129.99,'' @
        ''\"items\":[{\"sku\":\"abc\",\"quantity\":2},{\"sku\":\"xyz\",\"quantity\":1}]}'',
      piGroupID = [], piDeduplicationID = []\<rparr>)))
     (\<lambda>msgID. printing [Log LevelInfo ''order publish ok'' [(''message_id'', LStr msgID)]])"

definition publishStandardSingle :: "producer \<Rightarrow> string \<Rightarrow> unit program" where
  "publishStandardSingle p topicARN = followedBy (calling ''standard single publish failed'' (Publish p (Some
     \<lparr>piAttributes = [(''event_type'', ''user.created'')], piTopicARN = topicARN,
      piMessage = ''{\"id\":\"u-1001\",\"text\":\"user created\"}'', piGroupID = [], piDeduplicationID = []\<rparr>)))
     (\<lambda>msgID. printing [Log LevelInfo ''standard single publish ok'' [(''message_id'', LStr msgID)]])"

definition logBatchOutput :: "string \<Rightarrow> publish_batch_output \<Rightarrow> unit program" where
  "logBatchOutput label out = printing
     (map (\<lambda>(i, m). Log LevelInfo (label @ '' batch publish ok'') [(''entry_id'', LStr i), (''message_id'', LStr m)]) (Successful out) @
      map (\<lambda>(i, e). Log LevelInfo (label @ '' batch publish failed'') [(''entry_id'', LStr i), (''error'', LErr e)]) (Failed out))"

text \<open>An entry without ids of its own.\<close>

definition entry :: "string \<Rightarrow> string \<Rightarrow> string gomap \<Rightarrow> publish_batch_entry option" where
  "entry ident msg attrs = Some \<lparr>peAttributes = attrs, peID = ident, peMessage = msg, peGroupID = [], peDeduplicationID = []\<rparr>"

definition publishStandardBatch :: "producer \<Rightarrow> string \<Rightarrow> unit program" where
  "publishStandardBatch p topicARN = followedBy (calling ''standard batch publish failed'' (PublishBatch p (Some
     \<lparr>pbTopicARN = topicARN, pbMessages =
       [entry ''1'' ''{\"id\":\"u-1001\",\"text\":\"user updated\"}'' [(''event_type'', ''user.updated'')],
        entry ''2'' ''{\"id\":\"u-1002\",\"text\":\"user deleted\"}'' [(''event_type'', ''user.deleted'')]]\<rparr>)))
     (logBatchOutput ''standard'')"

definition publishFIFOSingle :: "producer \<Rightarrow> string \<Rightarrow> unit program" where
  "publishFIFOSingle p topicARN = followedBy (calling ''fifo single publish failed'' (Publish p (Some
     \<lparr>piAttributes = [(''tenant_id'', ''acme''), (''order_id'', ''o-42'')], piTopicARN = topicARN,
      piMessage = ''{\"event\":\"order.placed\",\"order_id\":\"o-42\"}'', piGroupID = [], piDeduplicationID = []\<rparr>)))
     (\<lambda>msgID. printing [Log LevelInfo ''fifo single publish ok'' [(''message_id'', LStr msgID)]])"

definition publishFIFOBatch :: "producer \<Rightarrow> string \<Rightarrow> unit program" where
  "publishFIFOBatch p topicARN = followedBy (calling ''fifo batch publish failed'' (PublishBatch p (Some
     \<lparr>pbTopicARN = topicARN, pbMessages =
       [entry ''1'' ''{\"event\":\"order.item_added\",\"order_id\":\"o-42\",\"sku\":\"abc\"}''
          [(''tenant_id'', ''acme''), (''order_id'', ''o-42'')],
        entry ''2'' ''{\"event\":\"order.item_added\",\"order_id\":\"o-42\",\"sku\":\"xyz\"}''
          [(''tenant_id'', ''acme''), (''order_id'', ''o-42'')]]\<rparr>)))
     (logBatchOutput ''fifo'')"

definition publishScheduledRetry :: "producer \<Rightarrow> string \<Rightarrow> unit program" where
  "publishScheduledRetry p topicARN = followedBy (calling ''scheduled-retry batch publish failed'' (PublishBatch p (Some
     \<lparr>pbTopicARN = topicARN, pbMessages =
       [entry ''1'' ''{\"event\":\"payment.retry\",\"order_id\":\"o-77\"}'' [(''tenant_id'', ''acme''), (''order_id'', ''o-77'')],
        entry ''2'' ''{\"event\":\"payment.retry\",\"order_id\":\"o-88\"}'' [(''tenant_id'', ''acme''), (''order_id'', ''o-88'')]]\<rparr>)))
     (logBatchOutput ''scheduled-retry'')"

section \<open>The program\<close>

text \<open>A generator of the package \<open>idgen\<close> that never panics, as the producer holds it.\<close>

definition asGenerator :: "generator \<Rightarrow> id_generator" where
  "asGenerator g t fm = Return (g t fm)"

definition producerOptions :: "(string \<Rightarrow> 8 word list) \<Rightarrow> (trace \<Rightarrow> err + 8 word list) \<Rightarrow> producer_option option list" where
  "producerOptions sum256 rd =
     [Some (WithGroupIDGenerator (Some (asGenerator (NewKeyBased sum256 [Some (WithFields [''tenant_id'', ''order_id''])])))),
      Some (WithDeduplicationIDGenerator (Some (asGenerator (NewRandom rd))))]"

definition producerMain :: "(trace \<Rightarrow> err option) \<Rightarrow> (load_option list \<Rightarrow> err + 'cfg) \<Rightarrow> ('cfg \<Rightarrow> sns_client aws_api) \<Rightarrow>
    (string \<Rightarrow> 8 word list) \<Rightarrow> (trace \<Rightarrow> err + 8 word list) \<Rightarrow> unit program" where
  "producerMain ctxErr load api sum256 rd =
     followedBy (must ''failed to create AWS config'' (NewConn load localConn)) (\<lambda>cfg.
     followedBy (construct ''failed to create SNS client (construction or connectivity)'' (NewSNS ctxErr api cfg [])) (\<lambda>snsClient.
     followedBy (must ''failed to create producer'' (NewProducer (Some snsClient) (producerOptions sum256 rd))) (\<lambda>p.
       let standardARN = BuildTopicARN ''us-east-1'' ''000000000000'' ''example-standard-topic'';
           fifoARN = BuildTopicARN ''us-east-1'' ''000000000000'' ''example-fifo-topic.fifo'';
           ordersARN = BuildTopicARN ''us-east-1'' ''000000000000'' ''example-orders-topic'';
           scheduledARN = BuildTopicARN ''us-east-1'' ''000000000000'' ''example-scheduled-topic.fifo''
       in followedBy (publishStandardSingle p standardARN) (\<lambda>_.
          followedBy (publishStandardBatch p standardARN) (\<lambda>_.
          followedBy (publishFIFOSingle p fifoARN) (\<lambda>_.
          followedBy (publishFIFOBatch p fifoARN) (\<lambda>_.
          followedBy (publishOrder p ordersARN) (\<lambda>_.
          followedBy (publishScheduledRetry p scheduledARN) (\<lambda>_.
          printing [Log LevelInfo ''all messages published'' []])))))))))"

section \<open>What is asked of SNS\<close>

text \<open>
  A message as it is asked of SNS: body, attributes with their texts, group id, and whether it has a
  deduplication id. \<open>requests\<close> are the calls of a trace, each with its topic and its messages.
\<close>

record ask =
  asBody :: string
  asAttributes :: "string gomap"
  asGroup :: "string option"
  asDeduplicated :: bool

definition texts :: "attr_value gomap \<Rightarrow> string gomap" where
  "texts m = map (\<lambda>(k, a). (k, stringValue a)) m"

definition entryAsk :: "batch_request_entry \<Rightarrow> ask" where
  "entryAsk e = \<lparr>asBody = brMessage e, asAttributes = texts (brMessageAttributes e), asGroup = brMessageGroupId e,
     asDeduplicated = (brMessageDeduplicationId e \<noteq> None)\<rparr>"

definition publishAsk :: "publish_request \<Rightarrow> ask" where
  "publishAsk r = \<lparr>asBody = prMessage r, asAttributes = texts (prMessageAttributes r), asGroup = prMessageGroupId r,
     asDeduplicated = (prMessageDeduplicationId r \<noteq> None)\<rparr>"

fun requests :: "trace \<Rightarrow> (string \<times> ask list) list" where
  "requests [] = []"
| "requests (CallPublish r # t) = (prTopicArn r, [publishAsk r]) # requests t"
| "requests (CallPublishBatch arn es # t) = (arn, map entryAsk es) # requests t"
| "requests (e # t) = requests t"

lemma requests_append [simp]: "requests (s @ t) = requests s @ requests t"
  by (induction s rule: requests.induct) simp_all

lemma requests_pings [simp]: "requests (pings k) = []"
  by (induction k) (simp_all add: pings_def)

lemma requests_logs: "\<forall>e \<in> set es. \<exists>l x a. e = Log l x a \<Longrightarrow> requests es = []"
  by (induction es) auto

text \<open>
  A program comes to an end having asked for all of \<open>plan\<close>, or, through an error and never a panic, for a
  part of it from the front; when \<open>ok\<close> holds it has no reason to fail.
\<close>

definition makes :: "bool \<Rightarrow> 'a program \<Rightarrow> (string \<times> ask list) list \<Rightarrow> bool" where
  "makes ok prog plan \<longleftrightarrow> (\<forall>t. \<exists>r t'. prog t = Some (r, t') \<and>
     (case r of
        Inr x \<Rightarrow> requests t' = requests t @ plan
      | Inl e \<Rightarrow> \<not> ok \<and> (\<exists>text x. e = Fatal text x) \<and> (\<exists>n. requests t' = requests t @ take n plan)))"

lemma makesD:
  "makes ok prog plan \<Longrightarrow> \<exists>r t'. prog t = Some (r, t') \<and> (case r of
     Inr x \<Rightarrow> requests t' = requests t @ plan
   | Inl e \<Rightarrow> \<not> ok \<and> (\<exists>text x. e = Fatal text x) \<and> (\<exists>n. requests t' = requests t @ take n plan))"
  unfolding makes_def by (rule spec)

lemma makes_followedBy:
  assumes "makes ok p as" and "\<And>x. makes ok (f x) bs"
  shows "makes ok (followedBy p f) (as @ bs)"
  unfolding makes_def
proof
  fix t
  from assms(1) obtain r t1 where p: "p t = Some (r, t1)" and r: "case r of
        Inr x \<Rightarrow> requests t1 = requests t @ as
      | Inl e \<Rightarrow> \<not> ok \<and> (\<exists>text x. e = Fatal text x) \<and> (\<exists>n. requests t1 = requests t @ take n as)"
    unfolding makes_def by blast
  show "\<exists>r t'. followedBy p f t = Some (r, t') \<and> (case r of
        Inr x \<Rightarrow> requests t' = requests t @ as @ bs
      | Inl e \<Rightarrow> \<not> ok \<and> (\<exists>text x. e = Fatal text x) \<and> (\<exists>n. requests t' = requests t @ take n (as @ bs)))"
  proof (cases r)
    case (Inl e)
    with r obtain n where n: "\<not> ok \<and> (\<exists>text x. e = Fatal text x)" "requests t1 = requests t @ take n as" by auto
    have "take n as = take (min n (length as)) (as @ bs)" by (simp add: min_def)
    with n have "\<exists>n. requests t1 = requests t @ take n (as @ bs)" by metis
    with n(1) p Inl show ?thesis by (simp add: followedBy_def)
  next
    case (Inr x)
    from assms(2) [of x] obtain r2 t2 where f: "f x t1 = Some (r2, t2)" and r2: "case r2 of
        Inr x \<Rightarrow> requests t2 = requests t1 @ bs
      | Inl e \<Rightarrow> \<not> ok \<and> (\<exists>text x. e = Fatal text x) \<and> (\<exists>n. requests t2 = requests t1 @ take n bs)"
      unfolding makes_def by blast
    have "\<exists>m. as @ take n bs = take m (as @ bs)" for n
      by (intro exI [of _ "length as + n"]) simp
    with p r Inr f r2 show ?thesis by (auto simp: followedBy_def split: sum.splits)
  qed
qed

lemma makes_must: "(ok \<longrightarrow> (\<exists>x. r = Inr x)) \<Longrightarrow> makes ok (must text r) []"
  by (auto simp: makes_def must_def split: sum.split)

lemma makes_given: "makes ok (f x) plan \<Longrightarrow> makes ok (followedBy (must text (Inr x)) f) plan"
  by (simp add: makes_def followedBy_def must_def)

lemma makes_printing: "\<forall>e \<in> set es. \<exists>l x a. e = Log l x a \<Longrightarrow> makes ok (printing es) []"
  by (simp add: makes_def printing_def requests_logs)

lemma makes_logBatchOutput: "makes ok (logBatchOutput label out) []"
  unfolding logBatchOutput_def by (rule makes_printing) auto

text \<open>The check of a client with the default options comes to an end, after pings only.\<close>

lemma newClient_checked:
  obtains r k where "newClient ctxErr api [] t = Some (r, t @ pings k)" "k \<le> 3"
    "\<forall>x. r = Inr x \<longrightarrow> x = apiClient api" "\<forall>e. r = Inl e \<longrightarrow> errIs e ErrPingFailed"
    "(\<forall>t. ctxErr t = None \<and> apiList api t = None) \<longrightarrow> r = Inr (apiClient api)"
proof -
  have "(2 :: 64 word) \<noteq> - 1" by simp
  then obtain r t' where v: "validateLoop ctxErr (apiList api) 2 0 None t = Some (r, t')"
    and out: "checkOutcome ctxErr (apiList api) 3 t r t'"
    using validateLoop_returns [of 3 2 0 None ctxErr "apiList api" t] by auto
  from out obtain k where k: "k \<le> 3" "\<forall>j < k. ctxErr (t @ pings j) = None \<and> apiList api (t @ pings (Suc j)) \<noteq> None"
    "case r of
        None \<Rightarrow> k < 3 \<and> ctxErr (t @ pings k) = None \<and> t' = t @ pings (Suc k) \<and> apiList api t' = None
      | Some e \<Rightarrow> errIs e ErrPingFailed \<and> t' = t @ pings k \<and> (ctxErr t' \<noteq> None \<or> k = 3)"
    unfolding checkOutcome_def by blast
  have c: "newClient ctxErr api [] t = Some (case r of Some e \<Rightarrow> Inl e | None \<Rightarrow> Inr (apiClient api), t')"
    using v by (simp add: newClient_def buildClientOptions_def newClientOptions_def validate_def split: option.split)
  show thesis
  proof (cases r)
    case None
    with c k show thesis by (intro that [of "Inr (apiClient api)" "Suc k"]) auto
  next
    case (Some e)
    have "apiList api (t @ pings 1) \<noteq> None" if "k = 3" using k(2) that by auto
    moreover have "ctxErr t' \<noteq> None \<or> k = 3" using k(3) Some by auto
    ultimately have "\<not> (\<forall>t. ctxErr t = None \<and> apiList api t = None)" by metis
    with Some c k show thesis by (intro that [of "Inl e" k]) auto
  qed
qed

lemma makes_newSNS:
  assumes "ok \<longrightarrow> (\<forall>t. ctxErr t = None \<and> apiList api t = None)"
  shows "makes ok (construct text (newSNS ctxErr api [])) []"
  unfolding makes_def
proof
  fix t
  obtain r k where r: "newClient ctxErr api [] t = Some (r, t @ pings k)"
    "(\<forall>t. ctxErr t = None \<and> apiList api t = None) \<longrightarrow> r = Inr (apiClient api)"
    by (rule newClient_checked [of ctxErr api t]) blast
  then show "\<exists>r t'. construct text (newSNS ctxErr api []) t = Some (r, t') \<and> (case r of
        Inr x \<Rightarrow> requests t' = requests t @ []
      | Inl e \<Rightarrow> \<not> ok \<and> (\<exists>text x. e = Fatal text x) \<and> (\<exists>n. requests t' = requests t @ take n []))"
    using assms by (cases r) (auto simp: construct_def newSNS_def must_def)
qed

section \<open>Publishing\<close>

text \<open>The producer of the program, over a client.\<close>

definition programProducer :: "(string \<Rightarrow> 8 word list) \<Rightarrow> (trace \<Rightarrow> err + 8 word list) \<Rightarrow> sns_client \<Rightarrow> producer" where
  "programProducer sum256 rd cl = \<lparr>pClient = cl,
     groupIDGen = Some (asGenerator (NewKeyBased sum256 [Some (WithFields [''tenant_id'', ''order_id''])])),
     dedupIDGen = Some (asGenerator (randomGenerate rd))\<rparr>"

lemma NewProducer_program: "NewProducer (Some cl) (producerOptions sum256 rd) = Inr (programProducer sum256 rd cl)"
  by (simp add: NewProducer_def producerOptions_def programProducer_def)

text \<open>The group of an order of a tenant.\<close>

definition orderGroup :: "(string \<Rightarrow> 8 word list) \<Rightarrow> string \<Rightarrow> string" where
  "orderGroup sum256 order = hexEncode (sum256 (''order_id:'' @ order @ '':tenant_id:acme''))"

lemma order_group:
  "NewKeyBased sum256 [Some (WithFields [''tenant_id'', ''order_id''])] t [(''tenant_id'', ''acme''), (''order_id'', order)] =
     Inr (orderGroup sum256 order)"
  by (simp add: NewKeyBased_def keyGenerate_def configOf_def newConfig_def selectKeys_def canonicalText_def at_key_def
      hashCanonical_def orderGroup_def FNV64_def SHA256_def join_Cons)

definition askOf :: "bool \<Rightarrow> string \<Rightarrow> string \<Rightarrow> string gomap \<Rightarrow> ask" where
  "askOf fifo g body attrs = \<lparr>asBody = body, asAttributes = attrs, asGroup = (if fifo then Some g else None),
     asDeduplicated = fifo\<rparr>"

text \<open>What the message needs for its ids: on a FIFO topic, fields the group generator has the group \<open>g\<close> for.\<close>

definition identified :: "(string \<Rightarrow> 8 word list) \<Rightarrow> bool \<Rightarrow> string gomap \<Rightarrow> string \<Rightarrow> bool" where
  "identified sum256 fifo attrs g \<longleftrightarrow> attrs \<noteq> [] \<and> texts (messageAttributes attrs) = attrs \<and> (fifo \<longrightarrow> g \<noteq> [] \<and>
     (\<forall>t. NewKeyBased sum256 [Some (WithFields [''tenant_id'', ''order_id''])] t attrs = Inr g))"

lemma program_ids:
  assumes "identified sum256 fifo attrs g"
  obtains (ids) d es where "resolveIDs (programProducer sum256 rd cl) fifo [] [] attrs t =
      (Return (Inr (if fifo then g else [], d)), t @ es)" "d \<noteq> [] \<longleftrightarrow> fifo" "requests es = []"
  | (refused) e es where "resolveIDs (programProducer sum256 rd cl) fifo [] [] attrs t = (Return (Inl e), t @ es)"
      "requests es = []" "\<exists>t e. rd t = Inl e"
proof (cases fifo)
  case False
  show thesis by (rule ids [of "[]" "[]"]) (use False in simp_all)
next
  case True
  let ?es = "[CallGenerate ''group'' attrs, CallGenerate ''deduplication'' attrs]"
  have g: "NewKeyBased sum256 [Some (WithFields [''tenant_id'', ''order_id''])] t attrs = Inr g" for t
    using assms True by (simp add: identified_def)
  have uuid: "formatUUID b \<noteq> []" for b by (simp add: formatUUID_def)
  have r: "resolveIDs (programProducer sum256 rd cl) True [] [] attrs t = (case rd (t @ ?es) of
      Inl e \<Rightarrow> (Return (Inl (FmtW ''failed to generate deduplication id: '' e)), t @ ?es)
    | Inr b \<Rightarrow> (Return (Inr (g, formatUUID (setVersion b))), t @ ?es))"
    by (simp add: resolveIDs_def generateID_def programProducer_def asGenerator_def g randomGenerate_def Let_def
        split: sum.split)
  show thesis
  proof (cases "rd (t @ ?es)")
    case (Inl e)
    then show thesis by (intro refused [of "FmtW ''failed to generate deduplication id: '' e" ?es]) (auto simp: r True)
  next
    case (Inr b)
    then show thesis using True by (intro ids [of "formatUUID (setVersion b)" ?es]) (simp_all add: r uuid)
  qed
qed

text \<open>The environment lets the program through.\<close>

definition healthy :: "sns_client \<Rightarrow> (trace \<Rightarrow> err + 8 word list) \<Rightarrow> bool" where
  "healthy cl rd \<longleftrightarrow> (\<forall>t. (\<exists>x. snsPublish cl t = Inr x) \<and> (\<exists>x. snsPublishBatch cl t = Inr x) \<and> (\<exists>b. rd t = Inr b))"

lemma makes_publish:
  assumes "ok \<longrightarrow> healthy cl rd" and "identified sum256 (isFIFOTopic arn) attrs g" and "body \<noteq> []"
  shows "makes ok (calling text (Publish (programProducer sum256 rd cl) (Some
      \<lparr>piAttributes = attrs, piTopicARN = arn, piMessage = body, piGroupID = [], piDeduplicationID = []\<rparr>)))
    [(arn, [askOf (isFIFOTopic arn) g body attrs])]"
  unfolding makes_def
proof
  fix t
  let ?p = "programProducer sum256 rd cl" and ?fifo = "isFIFOTopic arn"
  let ?inp = "\<lparr>piAttributes = attrs, piTopicARN = arn, piMessage = body, piGroupID = [], piDeduplicationID = []\<rparr>"
  have cl: "pClient ?p = cl" by (simp add: programProducer_def)
  from assms(2) show "\<exists>r t'. calling text (Publish ?p (Some ?inp)) t = Some (r, t') \<and> (case r of
        Inr x \<Rightarrow> requests t' = requests t @ [(arn, [askOf ?fifo g body attrs])]
      | Inl e \<Rightarrow> \<not> ok \<and> (\<exists>text x. e = Fatal text x) \<and>
          (\<exists>n. requests t' = requests t @ take n [(arn, [askOf ?fifo g body attrs])]))"
  proof (cases rule: program_ids [where t = t and rd = rd and cl = cl])
    case (ids d es)
    let ?r = "publishRequest ?inp (if ?fifo then g else []) d" and ?t = "t @ es"
    have ask: "publishAsk ?r = askOf ?fifo g body attrs" "prTopicArn ?r = arn"
      using assms(2) ids(2) by (auto simp: publishAsk_def publishRequest_def askOf_def identified_def nonEmpty_def)
    have req: "requests (?t @ [CallPublish ?r]) = requests t @ [(arn, [askOf ?fifo g body attrs])]"
      using ids(3) ask by simp
    have pub: "Publish ?p (Some ?inp) t = (case snsPublish cl (?t @ [CallPublish ?r]) of
        Inl e \<Rightarrow> (Return (Inl (FmtW (''failed to publish message to topic '' @ arn @ '': '') e)), ?t @ [CallPublish ?r])
      | Inr out \<Rightarrow> (Return (Inr (case out of Some (Some ident) \<Rightarrow> ident | _ \<Rightarrow> [])), ?t @ [CallPublish ?r]))"
      using assms(3) ids(1) by (simp add: Publish_def cl Let_def split: sum.split)
    show ?thesis
    proof (cases "snsPublish cl (?t @ [CallPublish ?r])")
      case (Inl e)
      with assms(1) have "\<not> ok" unfolding healthy_def by (metis sum.distinct(1))
      with Inl req show ?thesis
        by (auto simp: calling_def pub must_def simp del: requests_append intro!: exI [of _ 1])
    next
      case (Inr x)
      with req show ?thesis by (auto simp: calling_def pub must_def simp del: requests_append)
    qed
  next
    case (refused e es)
    with assms(1) have "\<not> ok" unfolding healthy_def by (metis sum.distinct(1))
    moreover have "Publish ?p (Some ?inp) t = (Return (Inl e), t @ es)"
      using assms(3) refused(1) by (simp add: Publish_def)
    ultimately show ?thesis using refused(2) by (auto simp: calling_def must_def intro!: exI [of _ 0])
  qed
qed

definition asksFor :: "(string \<Rightarrow> 8 word list) \<Rightarrow> bool \<Rightarrow> publish_batch_entry option \<Rightarrow> ask \<Rightarrow> bool" where
  "asksFor sum256 fifo m a \<longleftrightarrow> (\<exists>i body attrs g. m = entry i body attrs \<and> a = askOf fifo g body attrs \<and>
     identified sum256 fifo attrs g)"

lemma asksFor_entry: "identified sum256 fifo attrs g \<Longrightarrow> asksFor sum256 fifo (entry i body attrs) (askOf fifo g body attrs)"
  unfolding asksFor_def by blast

lemma program_entries:
  assumes "list_all2 (asksFor sum256 fifo) msgs asks"
  obtains (built) es ts where "batchEntries (programProducer sum256 rd cl) fifo msgs acc t = (Return (Inr (acc @ es)), t @ ts)"
      "map entryAsk es = asks" "requests ts = []"
  | (refused) e ts where "batchEntries (programProducer sum256 rd cl) fifo msgs acc t = (Return (Inl e), t @ ts)"
      "requests ts = []" "\<exists>t e. rd t = Inl e"
  using assms
proof (induction msgs asks arbitrary: acc t thesis rule: list_all2_induct)
  case Nil
  show ?case by (rule Nil(1) [of "[]" "[]"]) simp_all
next
  case (Cons m msgs a asks)
  from Cons(1) obtain i body attrs g where m: "m = entry i body attrs" "a = askOf fifo g body attrs"
    "identified sum256 fifo attrs g" by (auto simp: asksFor_def)
  from m(3) show ?case
  proof (cases rule: program_ids [where t = t and rd = rd and cl = cl])
    case (ids d ts)
    let ?e = "batchEntry (the m) (if fifo then g else []) d"
    have a: "entryAsk ?e = a"
      using m ids(2) by (auto simp: entryAsk_def batchEntry_def askOf_def identified_def nonEmpty_def entry_def)
    have b: "batchEntries (programProducer sum256 rd cl) fifo (m # msgs) acc t =
        batchEntries (programProducer sum256 rd cl) fifo msgs (acc @ [?e]) (t @ ts)"
      using ids(1) by (simp add: m(1) entry_def)
    show ?thesis
    proof (rule Cons.IH [of "acc @ [?e]" "t @ ts"])
      fix es ts' assume "batchEntries (programProducer sum256 rd cl) fifo msgs (acc @ [?e]) (t @ ts) =
          (Return (Inr ((acc @ [?e]) @ es)), (t @ ts) @ ts')" "map entryAsk es = asks" "requests ts' = []"
      with a b ids(3) show thesis by (intro Cons.prems(1) [of "?e # es" "ts @ ts'"]) simp_all
    next
      fix e ts' assume "batchEntries (programProducer sum256 rd cl) fifo msgs (acc @ [?e]) (t @ ts) =
          (Return (Inl e), (t @ ts) @ ts')" "requests ts' = []" "\<exists>t e. rd t = Inl e"
      with b ids(3) show thesis by (intro Cons.prems(2) [of e "ts @ ts'"]) simp_all
    qed
  next
    case (refused e es)
    then show ?thesis by (intro Cons.prems(2) [of e es]) (simp_all add: m(1) entry_def)
  qed
qed

lemma makes_batch:
  assumes "ok \<longrightarrow> healthy cl rd" and "list_all2 (asksFor sum256 (isFIFOTopic arn)) msgs asks"
    and "msgs \<noteq> []" and "length msgs \<le> 10"
  shows "makes ok (calling text (PublishBatch (programProducer sum256 rd cl) (Some \<lparr>pbTopicARN = arn, pbMessages = msgs\<rparr>)))
    [(arn, asks)]"
  unfolding makes_def
proof
  fix t
  let ?p = "programProducer sum256 rd cl" and ?inp = "\<lparr>pbTopicARN = arn, pbMessages = msgs\<rparr>"
  have cl: "pClient ?p = cl" by (simp add: programProducer_def)
  have b: "PublishBatch ?p (Some ?inp) t = andThen (batchEntries ?p (isFIFOTopic arn) msgs [] t) (publishEntries ?p arn)"
    using assms(3,4) by (simp add: PublishBatch_def maxBatchSize_def)
  from assms(2) show "\<exists>r t'. calling text (PublishBatch ?p (Some ?inp)) t = Some (r, t') \<and> (case r of
        Inr x \<Rightarrow> requests t' = requests t @ [(arn, asks)]
      | Inl e \<Rightarrow> \<not> ok \<and> (\<exists>text x. e = Fatal text x) \<and> (\<exists>n. requests t' = requests t @ take n [(arn, asks)]))"
  proof (cases rule: program_entries [where t = t and rd = rd and cl = cl and acc = "[]"])
    case (built es ts)
    let ?t = "(t @ ts) @ [CallPublishBatch arn es]"
    have req: "requests ?t = requests t @ [(arn, asks)]" using built(2,3) by simp
    have pub: "PublishBatch ?p (Some ?inp) t = (case snsPublishBatch cl ?t of
        Inl e \<Rightarrow> (Return (Inl (FmtW (''failed to publish batch to topic '' @ arn @ '': '') e)), ?t)
      | Inr out \<Rightarrow> (Return (Inr (mapBatchOutput out)), ?t))"
      unfolding b using built(1) by (simp add: publishEntries_def cl Let_def split: sum.split)
    show ?thesis
    proof (cases "snsPublishBatch cl ?t")
      case (Inl e)
      with assms(1) have "\<not> ok" unfolding healthy_def by (metis sum.distinct(1))
      with Inl req show ?thesis
        by (auto simp: calling_def pub must_def simp del: requests_append intro!: exI [of _ 1])
    next
      case (Inr x)
      with req show ?thesis by (auto simp: calling_def pub must_def simp del: requests_append)
    qed
  next
    case (refused e es)
    with assms(1) have "\<not> ok" unfolding healthy_def by (metis sum.distinct(1))
    moreover have "PublishBatch ?p (Some ?inp) t = (Return (Inl e), t @ es)" unfolding b using refused(1) by simp
    ultimately show ?thesis using refused(2) by (auto simp: calling_def must_def intro!: exI [of _ 0])
  qed
qed

section \<open>The plan of the program\<close>

text \<open>The topics of the program are plain or FIFO by their names.\<close>

definition topic :: "string \<Rightarrow> string" where
  "topic name = ''arn:aws:sns:us-east-1:000000000000:'' @ name"

lemma topic_kinds:
  "\<not> isFIFOTopic (topic ''example-standard-topic'')" "\<not> isFIFOTopic (topic ''example-orders-topic'')"
  "isFIFOTopic (topic ''example-fifo-topic.fifo'')" "isFIFOTopic (topic ''example-scheduled-topic.fifo'')"
  by (simp_all add: isFIFOTopic_def topic_def hasSuffix_def)

definition plan :: "(string \<Rightarrow> 8 word list) \<Rightarrow> (string \<times> ask list) list" where
  "plan sum256 = (let g = orderGroup sum256;
       order = (\<lambda>o'. [(''tenant_id'', ''acme''), (''order_id'', o')]) in
    [(topic ''example-standard-topic'',
        [askOf False [] ''{\"id\":\"u-1001\",\"text\":\"user created\"}'' [(''event_type'', ''user.created'')]]),
     (topic ''example-standard-topic'',
        [askOf False [] ''{\"id\":\"u-1001\",\"text\":\"user updated\"}'' [(''event_type'', ''user.updated'')],
         askOf False [] ''{\"id\":\"u-1002\",\"text\":\"user deleted\"}'' [(''event_type'', ''user.deleted'')]]),
     (topic ''example-fifo-topic.fifo'',
        [askOf True (g ''o-42'') ''{\"event\":\"order.placed\",\"order_id\":\"o-42\"}'' (order ''o-42'')]),
     (topic ''example-fifo-topic.fifo'',
        [askOf True (g ''o-42'') ''{\"event\":\"order.item_added\",\"order_id\":\"o-42\",\"sku\":\"abc\"}'' (order ''o-42''),
         askOf True (g ''o-42'') ''{\"event\":\"order.item_added\",\"order_id\":\"o-42\",\"sku\":\"xyz\"}'' (order ''o-42'')]),
     (topic ''example-orders-topic'',
        [askOf False [] (''{\"order_id\":\"o-1001\",\"customer_id\":\"c-42\",\"total\":129.99,'' @
            ''\"items\":[{\"sku\":\"abc\",\"quantity\":2},{\"sku\":\"xyz\",\"quantity\":1}]}'') [(''event_type'', ''order.placed'')]]),
     (topic ''example-scheduled-topic.fifo'',
        [askOf True (g ''o-77'') ''{\"event\":\"payment.retry\",\"order_id\":\"o-77\"}'' (order ''o-77''),
         askOf True (g ''o-88'') ''{\"event\":\"payment.retry\",\"order_id\":\"o-88\"}'' (order ''o-88'')])])"

lemma topic_arn: "BuildTopicARN ''us-east-1'' ''000000000000'' name = topic name"
  by (simp add: BuildTopicARN_def topic_def)

lemma local_conn: "NewConn load localConn = load [LoadRegion ''us-east-1'', LoadRetryer 10,
    LoadStaticCredentials ''test'' ''test'' [], LoadEndpoint ''http://localhost:4566'']"
  by (simp add: NewConn_def localConn_def newConnOptions_def buildLoadOptions_def hasStaticCredentials_def)

lemma identified_event: "identified sum256 False [(k, v)] g"
  by (simp add: identified_def texts_def messageAttributes_def)

lemma identified_order:
  assumes "\<forall>s. length (sum256 s) = 32"
  shows "identified sum256 True [(''tenant_id'', ''acme''), (''order_id'', order)] (orderGroup sum256 order)"
proof -
  have "length (orderGroup sum256 order) = 64" using assms by (simp add: orderGroup_def)
  then have "orderGroup sum256 order \<noteq> []" by auto
  then show ?thesis by (simp add: identified_def order_group texts_def messageAttributes_def)
qed

lemma makes_then: "makes ok p as \<Longrightarrow> (\<And>x. makes ok (f x) []) \<Longrightarrow> makes ok (followedBy p f) as"
  using makes_followedBy [of ok p as f "[]"] by simp

lemma publishing_functions:
  assumes "\<forall>s. length (sum256 s) = 32" and "ok \<longrightarrow> healthy cl rd"
  shows "makes ok (publishStandardSingle (programProducer sum256 rd cl) (topic ''example-standard-topic'')) [plan sum256 ! 0]"
    "makes ok (publishStandardBatch (programProducer sum256 rd cl) (topic ''example-standard-topic'')) [plan sum256 ! 1]"
    "makes ok (publishFIFOSingle (programProducer sum256 rd cl) (topic ''example-fifo-topic.fifo'')) [plan sum256 ! 2]"
    "makes ok (publishFIFOBatch (programProducer sum256 rd cl) (topic ''example-fifo-topic.fifo'')) [plan sum256 ! 3]"
    "makes ok (publishOrder (programProducer sum256 rd cl) (topic ''example-orders-topic'')) [plan sum256 ! 4]"
    "makes ok (publishScheduledRetry (programProducer sum256 rd cl) (topic ''example-scheduled-topic.fifo'')) [plan sum256 ! 5]"
proof -
  let ?p = "programProducer sum256 rd cl"
  have single: "makes ok (followedBy (calling label (Publish ?p (Some
      \<lparr>piAttributes = attrs, piTopicARN = arn, piMessage = body, piGroupID = [], piDeduplicationID = []\<rparr>)))
      (\<lambda>msgID. printing [Log LevelInfo line [(''message_id'', LStr msgID)]])) [(arn, [askOf fifo g body attrs])]"
    if "isFIFOTopic arn = fifo" "identified sum256 fifo attrs g" "body \<noteq> []" for label attrs arn body line fifo g
    using makes_publish [OF assms(2), of sum256 arn attrs g body label] that by (intro makes_then makes_printing) simp_all
  have batch: "makes ok (followedBy (calling label (PublishBatch ?p (Some
      \<lparr>pbTopicARN = arn, pbMessages = [entry i body attrs, entry i' body' attrs']\<rparr>)))
      (logBatchOutput line)) [(arn, [askOf fifo g body attrs, askOf fifo g' body' attrs'])]"
    if "isFIFOTopic arn = fifo" "identified sum256 fifo attrs g" "identified sum256 fifo attrs' g'"
    for label attrs arn body line fifo g i i' attrs' body' g'
    using that by (intro makes_then makes_logBatchOutput makes_batch assms(2)) (simp_all add: asksFor_entry)
  note facts = single batch topic_kinds identified_event identified_order [OF assms(1)]
  show "makes ok (publishStandardSingle ?p (topic ''example-standard-topic'')) [plan sum256 ! 0]"
    unfolding publishStandardSingle_def by (simp add: plan_def Let_def facts)
  show "makes ok (publishStandardBatch ?p (topic ''example-standard-topic'')) [plan sum256 ! 1]"
    unfolding publishStandardBatch_def by (simp add: plan_def Let_def facts)
  show "makes ok (publishFIFOSingle ?p (topic ''example-fifo-topic.fifo'')) [plan sum256 ! 2]"
    unfolding publishFIFOSingle_def by (simp add: plan_def Let_def facts)
  show "makes ok (publishFIFOBatch ?p (topic ''example-fifo-topic.fifo'')) [plan sum256 ! 3]"
    unfolding publishFIFOBatch_def by (simp add: plan_def Let_def facts)
  show "makes ok (publishOrder ?p (topic ''example-orders-topic'')) [plan sum256 ! 4]"
    unfolding publishOrder_def by (simp add: plan_def Let_def facts)
  show "makes ok (publishScheduledRetry ?p (topic ''example-scheduled-topic.fifo'')) [plan sum256 ! 5]"
    unfolding publishScheduledRetry_def by (simp add: plan_def Let_def facts)
qed

text \<open>What the program is given: a configuration, a context that lasts, and an SNS that answers.\<close>

definition working :: "(trace \<Rightarrow> err option) \<Rightarrow> (load_option list \<Rightarrow> err + 'cfg) \<Rightarrow> ('cfg \<Rightarrow> sns_client aws_api) \<Rightarrow>
    (trace \<Rightarrow> err + 8 word list) \<Rightarrow> bool" where
  "working ctxErr load api rd \<longleftrightarrow> (\<forall>opts. \<exists>cfg. load opts = Inr cfg) \<and> (\<forall>t. ctxErr t = None) \<and>
     (\<forall>cfg. healthy (apiClient (api cfg)) rd \<and> (\<forall>t. apiList (api cfg) t = None))"

lemma publishing_makes_plan:
  assumes "\<forall>s. length (sum256 s) = 32" and "ok \<longrightarrow> healthy cl rd"
  shows "makes ok (let standardARN = BuildTopicARN ''us-east-1'' ''000000000000'' ''example-standard-topic'';
       fifoARN = BuildTopicARN ''us-east-1'' ''000000000000'' ''example-fifo-topic.fifo'';
       ordersARN = BuildTopicARN ''us-east-1'' ''000000000000'' ''example-orders-topic'';
       scheduledARN = BuildTopicARN ''us-east-1'' ''000000000000'' ''example-scheduled-topic.fifo''
     in followedBy (publishStandardSingle (programProducer sum256 rd cl) standardARN) (\<lambda>_.
        followedBy (publishStandardBatch (programProducer sum256 rd cl) standardARN) (\<lambda>_.
        followedBy (publishFIFOSingle (programProducer sum256 rd cl) fifoARN) (\<lambda>_.
        followedBy (publishFIFOBatch (programProducer sum256 rd cl) fifoARN) (\<lambda>_.
        followedBy (publishOrder (programProducer sum256 rd cl) ordersARN) (\<lambda>_.
        followedBy (publishScheduledRetry (programProducer sum256 rd cl) scheduledARN) (\<lambda>_.
        printing [Log LevelInfo ''all messages published'' []])))))))
    (plan sum256)"
proof -
  note fns = publishing_functions [OF assms]
  have "plan sum256 = [plan sum256 ! 0] @ [plan sum256 ! 1] @ [plan sum256 ! 2] @ [plan sum256 ! 3] @
      [plan sum256 ! 4] @ [plan sum256 ! 5] @ []" by (simp add: plan_def Let_def)
  moreover have "makes ok (printing [Log LevelInfo ''all messages published'' []]) []" by (rule makes_printing) simp
  ultimately show ?thesis
    unfolding Let_def topic_arn by (metis (no_types, lifting) makes_followedBy fns)
qed

text \<open>The three steps before the publishing calls.\<close>

lemma makes_program:
  assumes "working ctxErr load api rd = ok" and "\<And>cfg. ok \<longrightarrow> healthy (apiClient (api cfg)) rd"
    and "\<And>cl. ok \<longrightarrow> healthy cl rd \<Longrightarrow> makes ok (rest (programProducer sum256 rd cl)) as"
  shows "makes ok (followedBy (must what (NewConn load localConn)) (\<lambda>cfg.
     followedBy (construct what' (NewSNS ctxErr api cfg [])) (\<lambda>snsClient.
     followedBy (must what'' (NewProducer (Some snsClient) (producerOptions sum256 rd))) rest))) as"
  unfolding local_conn
proof (cases "load [LoadRegion ''us-east-1'', LoadRetryer 10, LoadStaticCredentials ''test'' ''test'' [], LoadEndpoint ''http://localhost:4566'']")
  case (Inl e)
  with assms(1) have "\<not> ok" unfolding working_def by (metis sum.distinct(1))
  with Inl show "makes ok (followedBy (must what (load [LoadRegion ''us-east-1'', LoadRetryer 10,
      LoadStaticCredentials ''test'' ''test'' [], LoadEndpoint ''http://localhost:4566''])) (\<lambda>cfg.
     followedBy (construct what' (NewSNS ctxErr api cfg [])) (\<lambda>snsClient.
     followedBy (must what'' (NewProducer (Some snsClient) (producerOptions sum256 rd))) rest))) as"
    by (auto simp: makes_def followedBy_def must_def intro: exI [of _ 0])
next
  case (Inr cfg)
  let ?cl = "apiClient (api cfg)"
  have "makes ok (followedBy (construct what' (NewSNS ctxErr api cfg [])) (\<lambda>snsClient.
     followedBy (must what'' (NewProducer (Some snsClient) (producerOptions sum256 rd))) rest)) as"
    unfolding makes_def
  proof
    fix t
    obtain r k where r: "newClient ctxErr (api cfg) [] t = Some (r, t @ pings k)"
      "\<forall>x. r = Inr x \<longrightarrow> x = ?cl" "(\<forall>t. ctxErr t = None \<and> apiList (api cfg) t = None) \<longrightarrow> r = Inr ?cl"
      by (rule newClient_checked [of ctxErr "api cfg" t]) blast
    show "\<exists>r t'. followedBy (construct what' (NewSNS ctxErr api cfg [])) (\<lambda>snsClient.
        followedBy (must what'' (NewProducer (Some snsClient) (producerOptions sum256 rd))) rest) t = Some (r, t') \<and> (case r of
        Inr x \<Rightarrow> requests t' = requests t @ as
      | Inl e \<Rightarrow> \<not> ok \<and> (\<exists>text x. e = Fatal text x) \<and> (\<exists>n. requests t' = requests t @ take n as))"
    proof (cases r)
      case (Inl e)
      with r(3) assms(1) have "\<not> ok" by (auto simp: working_def)
      with r(1) Inl show ?thesis
        by (auto simp: followedBy_def construct_def newSNS_def must_def intro: exI [of _ 0])
    next
      case r': (Inr x)
      with r(2) have "x = ?cl" by simp
      with r(1) r' have "followedBy (construct what' (NewSNS ctxErr api cfg [])) (\<lambda>snsClient.
          followedBy (must what'' (NewProducer (Some snsClient) (producerOptions sum256 rd))) rest) t =
          rest (programProducer sum256 rd ?cl) (t @ pings k)"
        by (simp add: followedBy_def construct_def newSNS_def must_def NewProducer_program)
      moreover have "makes ok (rest (programProducer sum256 rd ?cl)) as" by (rule assms(3) [OF assms(2)])
      from makesD [OF this, of "t @ pings k", unfolded requests_append requests_pings append_Nil2] have "\<exists>r t'. rest (programProducer sum256 rd ?cl) (t @ pings k) = Some (r, t') \<and>
          (case r of Inr x \<Rightarrow> requests t' = requests t @ as
         | Inl e \<Rightarrow> \<not> ok \<and> (\<exists>text x. e = Fatal text x) \<and> (\<exists>n. requests t' = requests t @ take n as))" .
      ultimately show ?thesis by simp
    qed
  qed
  then show "makes ok (followedBy (must what (load [LoadRegion ''us-east-1'', LoadRetryer 10,
      LoadStaticCredentials ''test'' ''test'' [], LoadEndpoint ''http://localhost:4566''])) (\<lambda>cfg.
     followedBy (construct what' (NewSNS ctxErr api cfg [])) (\<lambda>snsClient.
     followedBy (must what'' (NewProducer (Some snsClient) (producerOptions sum256 rd))) rest))) as"
    unfolding Inr by (rule makes_given)
qed

text \<open>
  C19: The producer program always comes to an end, never through a panic. What it asks of SNS is its plan, six
  calls in order, or, when the configuration, the connectivity check, the random source or SNS fails, a part
  of the plan from the front, and it ends in \<open>log.Fatalf\<close>; with a working environment it publishes all of it.
  On FIFO topics every message has the group of its order and a deduplication id, on the others neither.
  Two orders of the plan share a group only through a collision of the digest.
\<close>

theorem producer_example_publishes:
  assumes "\<forall>s. length (sum256 s) = 32"
  shows "\<exists>r t'. producerMain ctxErr load api sum256 rd [] = Some (r, t') \<and>
    (case r of
       Inr u \<Rightarrow> requests t' = plan sum256
     | Inl e \<Rightarrow> (\<exists>text x. e = Fatal text x) \<and> (\<exists>n. requests t' = take n (plan sum256))) \<and>
    (working ctxErr load api rd \<longrightarrow> r = Inr ()) \<and>
    (orderGroup sum256 ''o-77'' = orderGroup sum256 ''o-88'' \<longrightarrow>
       sum256 ''order_id:o-77:tenant_id:acme'' = sum256 ''order_id:o-88:tenant_id:acme'')"
proof -
  define ok where "ok = working ctxErr load api rd"
  have "makes ok (producerMain ctxErr load api sum256 rd) (plan sum256)"
    unfolding producerMain_def
  proof (rule makes_program)
    show "working ctxErr load api rd = ok" by (simp add: ok_def)
    show "ok \<longrightarrow> healthy (apiClient (api cfg)) rd" for cfg by (simp add: ok_def working_def)
  qed (rule publishing_makes_plan [OF assms])
  then obtain r t' where "producerMain ctxErr load api sum256 rd [] = Some (r, t')" and "case r of
        Inr x \<Rightarrow> requests t' = plan sum256
      | Inl e \<Rightarrow> \<not> ok \<and> (\<exists>text x. e = Fatal text x) \<and> (\<exists>n. requests t' = take n (plan sum256))"
    using makesD [of ok "producerMain ctxErr load api sum256 rd" "plan sum256" "[]", unfolded requests.simps append_Nil] by blast
  moreover have "sum256 s = sum256 s'" if "hexEncode (sum256 s) = hexEncode (sum256 s')" for s s'
    using that assms by (simp add: hexEncode_inject)
  ultimately show ?thesis by (cases r) (simp_all add: ok_def orderGroup_def)
qed

lemma producer_example_publishes_witness:
  "\<exists>t'. producerMain (\<lambda>t. None) (\<lambda>opts. Inr ()) (\<lambda>_. \<lparr>apiClient = \<lparr>snsPublish = \<lambda>t. Inr (Some (Some ''m-1'')),
       snsPublishBatch = \<lambda>t. Inr None\<rparr>, apiList = \<lambda>t. None\<rparr>) (\<lambda>s. replicate 32 0) (\<lambda>t. Inr (replicate 16 0)) [] =
     Some (Inr (), t') \<and> length (requests t') = 6"
proof -
  let ?api = "\<lambda>_ :: unit. \<lparr>apiClient = \<lparr>snsPublish = \<lambda>t. Inr (Some (Some ''m-1'')), snsPublishBatch = \<lambda>t. Inr None\<rparr>,
    apiList = \<lambda>t. None\<rparr>"
  have "\<forall>s :: string. length ((\<lambda>s. replicate 32 0 :: 8 word list) s) = 32" by simp
  from producer_example_publishes [OF this, of "\<lambda>t. None" "\<lambda>opts. Inr ()" ?api "\<lambda>t. Inr (replicate 16 0)"]
  obtain r t' where p: "producerMain (\<lambda>t. None) (\<lambda>opts. Inr ()) ?api (\<lambda>s. replicate 32 0) (\<lambda>t. Inr (replicate 16 0)) [] = Some (r, t')"
    "case r of Inr u \<Rightarrow> requests t' = plan (\<lambda>s. replicate 32 0)
     | Inl e \<Rightarrow> (\<exists>text x. e = Fatal text x) \<and> (\<exists>n. requests t' = take n (plan (\<lambda>s. replicate 32 0)))"
    "working (\<lambda>t. None) (\<lambda>opts. Inr ()) ?api (\<lambda>t. Inr (replicate 16 0)) \<longrightarrow> r = Inr ()" by blast
  from p(3) have "r = Inr ()" by (simp add: working_def healthy_def)
  with p(1,2) show ?thesis by (intro exI [of _ t']) (simp add: plan_def Let_def)
qed

end
