(* ===== verification/Consumer_Examples.thy ===== *)
theory Consumer_Examples
  imports Broker Typed Retry_Loop Collectors Producer_Example
begin

text \<open>
  The consumer programs of \<open>src/examples/\<close>: \<open>basic\<close>, \<open>fifo\<close>, \<open>typed\<close>, \<open>middleware\<close> and
  \<open>fifo-scheduled-retry\<close>. Each \<open>main\<close> is a \<open>program\<close> that ends before it calls \<open>Run\<close>, with the broker or the
  consumer it made; from there the step relations of \<open>Broker\<close> and \<open>Consumer\<close> take over, and what \<open>Run\<close>
  returns decides the exit of the program. The AWS SDK, \<open>encoding/json\<close>, the OpenTelemetry SDK and the
  Prometheus registry are parameters; the HTTP server of the metrics and the shutdown of the exporters are
  I/O and left out. The theorems compose the modules with each other through the configuration the programs give them.
\<close>

section \<open>What the programs share\<close>

definition sqsConnection :: "(trace \<Rightarrow> err option) \<Rightarrow> (load_option list \<Rightarrow> err + 'cfg) \<Rightarrow>
    ('cfg \<Rightarrow> sqs_message sqs_client aws_api) \<Rightarrow> sqs_message sqs_client program" where
  "sqsConnection ctxErr load api = followedBy (must ''failed to create AWS config'' (NewConn load localConn)) (\<lambda>cfg.
     construct ''failed to create SQS client (construction or connectivity)'' (NewSQS ctxErr api cfg []))"

text \<open>The programs that run one route in a broker, given what \<open>router.New\<close> returned.\<close>

definition brokerProgram :: "(trace \<Rightarrow> err option) \<Rightarrow> (load_option list \<Rightarrow> err + 'cfg) \<Rightarrow>
    ('cfg \<Rightarrow> sqs_message sqs_client aws_api) \<Rightarrow> err + route \<Rightarrow> broker program" where
  "brokerProgram ctxErr load api newRoute =
     followedBy (sqsConnection ctxErr load api) (\<lambda>sqsClient.
     followedBy (must ''failed to create route'' newRoute) (\<lambda>route.
     must ''failed to create broker''
       (NewBroker (Some sqsClient) [Some route] [Some (BrokerLogger (Some NewLogger))])))"

text \<open>What \<open>main\<close> does with the result of \<open>Run\<close>: \<open>log.Fatalf\<close>, or the end of the program.\<close>

definition exitOf :: "string \<Rightarrow> err option \<Rightarrow> exit option" where
  "exitOf text r = (case r of None \<Rightarrow> None | Some e \<Rightarrow> Some (Fatal text e))"

section \<open>The basic program\<close>

text \<open>The payload's fields \<open>ID\<close> and \<open>Text\<close>; \<open>unmarshal\<close> is \<open>json.Unmarshal\<close> at its type.\<close>

type_synonym payload = "string \<times> string"

definition basicHandler :: "(string \<Rightarrow> payload \<Rightarrow> payload \<times> err option) \<Rightarrow> handler" where
  "basicHandler unmarshal c s = (case cur s of
     None \<Rightarrow> (HPanic nilDeref, s)
   | Some msg \<Rightarrow> (case Decode unmarshal msg ([], []) of
       (payload, Some e) \<Rightarrow> (HRet (Some e), s)
     | (payload, None) \<Rightarrow> (HRet None, emit [Log LevelInfo ''received message''
         [(''id'', LStr (fst payload)), (''text'', LStr (snd payload))]] s)))"

definition basicMain :: "(trace \<Rightarrow> err option) \<Rightarrow> (load_option list \<Rightarrow> err + 'cfg) \<Rightarrow>
    ('cfg \<Rightarrow> sqs_message sqs_client aws_api) \<Rightarrow> (string \<Rightarrow> payload \<Rightarrow> payload \<times> err option) \<Rightarrow> broker program" where
  "basicMain ctxErr load api unmarshal =
     brokerProgram ctxErr load api (NewRoute ''example-basic-queue'' (Some (basicHandler unmarshal)) [])"

section \<open>The FIFO program\<close>

definition attrTenantID :: string where "attrTenantID = ''tenant_id''"
definition attrOrderID :: string where "attrOrderID = ''order_id''"

text \<open>The payload's only field is \<open>Event\<close>.\<close>

definition fifoHandler :: "(string \<Rightarrow> string \<Rightarrow> string \<times> err option) \<Rightarrow> handler" where
  "fifoHandler unmarshal c s = (case cur s of
     None \<Rightarrow> (HPanic nilDeref, s)
   | Some msg \<Rightarrow>
     (let tenantID = UserMessageAttribute msg attrTenantID; orderID = UserMessageAttribute msg attrOrderID in
      case Decode unmarshal msg [] of
        (event, Some e) \<Rightarrow> (HRet (Some e), s)
      | (event, None) \<Rightarrow> (HRet None, emit [Log LevelInfo ''received FIFO message''
          [(''tenant'', LStr tenantID), (''order'', LStr orderID), (''event'', LStr event)]] s)))"

definition fifoMain :: "(trace \<Rightarrow> err option) \<Rightarrow> (load_option list \<Rightarrow> err + 'cfg) \<Rightarrow>
    ('cfg \<Rightarrow> sqs_message sqs_client aws_api) \<Rightarrow> (string \<Rightarrow> string \<Rightarrow> string \<times> err option) \<Rightarrow> broker program" where
  "fifoMain ctxErr load api unmarshal =
     brokerProgram ctxErr load api (NewRoute ''example-fifo-queue.fifo'' (Some (fifoHandler unmarshal))
       [Some (WithRunMode PerGroupID), Some (WithCustomGroupFields [attrTenantID, attrOrderID]),
        Some (WithWorkerPoolSize 5)])"

section \<open>The typed program\<close>

text \<open>\<open>float64\<close> values are only printed, and that is left out: their type is a parameter.\<close>

record item =
  itSKU :: string
  itQuantity :: go_int

record 'f order_placed =
  opOrderID :: string
  opCustomerID :: string
  opItems :: "item list"
  opTotal :: 'f

definition handleOrder :: "ctx \<Rightarrow> 'f order_placed \<Rightarrow> hstate \<Rightarrow> hresult \<times> hstate" where
  "handleOrder c order s = (HRet None, emit [Log LevelInfo ''received order''
     [(''id'', LStr (opOrderID order)), (''customer'', LStr (opCustomerID order)),
      (''items'', LInt (int (length (opItems order))))]] s)"

definition typedMain :: "(trace \<Rightarrow> err option) \<Rightarrow> (load_option list \<Rightarrow> err + 'cfg) \<Rightarrow>
    ('cfg \<Rightarrow> sqs_message sqs_client aws_api) \<Rightarrow> ('f order_placed \<Rightarrow> err + string) \<Rightarrow>
    (string \<Rightarrow> 'f order_placed \<times> err option) \<Rightarrow> broker program" where
  "typedMain ctxErr load api marshal unmarshal =
     (let handler = WrapHandler (JSONCodec marshal unmarshal) handleOrder in
      brokerProgram ctxErr load api (NewRoute ''example-typed-queue'' (Some handler) []))"

section \<open>The middleware program\<close>

definition middlewareHandler :: "(string \<Rightarrow> payload \<Rightarrow> payload \<times> err option) \<Rightarrow> handler" where
  "middlewareHandler unmarshal c s = (case cur s of
     None \<Rightarrow> (HPanic nilDeref, s)
   | Some msg \<Rightarrow> (case Decode unmarshal msg ([], []) of
       (payload, Some e) \<Rightarrow> (HRet (Some e), s)
     | (payload, None) \<Rightarrow> (HRet None, s)))"

text \<open>The exporter, the merged resource and the provider over them are the OpenTelemetry SDK's.\<close>

definition newTracerProvider :: "err + 'ex \<Rightarrow> err + 'res \<Rightarrow> ('ex \<Rightarrow> 'res \<Rightarrow> 'tp) \<Rightarrow> err + 'tp" where
  "newTracerProvider newExporter merge provider = (case newExporter of
     Inl e \<Rightarrow> Inl e
   | Inr exporter \<Rightarrow> (case merge of
       Inl e \<Rightarrow> Inl e
     | Inr res \<Rightarrow> Inr (provider exporter res)))"

text \<open>
  The four middlewares, with the options given to \<open>Metrics\<close> and \<open>OTel\<close> and the collectors registered:
  \<open>reg\<close> is the registry of the program, \<open>st\<close> its state, \<open>def\<close> and \<open>global\<close> the defaults of the two libraries,
  and \<open>start tp\<close> the span context a provider puts into the context.
\<close>

record ('s, 'tp) observability =
  obRegistry :: "'s registry"
  obState :: 's
  obDefault :: "'s registry option"
  obGlobal :: 'tp
  obStart :: "'tp \<Rightarrow> trace \<Rightarrow> string option"
  obStack :: string
  obNow :: "trace \<Rightarrow> int"

definition middlewareStack :: "('s, 'tp) observability \<Rightarrow> 'tp \<Rightarrow> string \<Rightarrow> (middleware list \<times> metric_collectors \<times> 's) outcome" where
  "middlewareStack ob tp queue = (case loadMetricsConfig (obDefault ob) [Some (WithMetricsRegisterer (Some (obRegistry ob)))] of
     Panic p \<Rightarrow> Panic p
   | Return mcfg \<Rightarrow> (case registerer mcfg of
       None \<Rightarrow> Panic nilDeref
     | Some reg \<Rightarrow> (case metricsCollectors reg 0 (obState ob) of (mc, st) \<Rightarrow>
       (case loadOTelConfig (obGlobal ob) [Some (WithTracerProvider (Some tp))] of
          Panic p \<Rightarrow> Panic p
        | Return ocfg \<Rightarrow> Return ([Recovery (obStack ob), Logging (obNow ob), Metrics (obNow ob) queue,
            OTel (linkFromContext ocfg) (obStart ob (tracerProvider ocfg)) queue], mc, st)))))"

text \<open>The connection and the tracer provider; then, after the metrics server is started, the route and the broker.\<close>

definition middlewareSetup :: "(trace \<Rightarrow> err option) \<Rightarrow> (load_option list \<Rightarrow> err + 'cfg) \<Rightarrow>
    ('cfg \<Rightarrow> sqs_message sqs_client aws_api) \<Rightarrow> err + 'tp \<Rightarrow> (sqs_message sqs_client \<times> 'tp) program" where
  "middlewareSetup ctxErr load api tracer =
     followedBy (sqsConnection ctxErr load api) (\<lambda>sqsClient.
     followedBy (must ''failed to create tracer provider'' tracer) (\<lambda>tp t. Some (Inr (sqsClient, tp), t)))"

text \<open>The program for any handler; \<open>middlewareMain\<close> is the program as it is.\<close>

definition middlewareProgram :: "(trace \<Rightarrow> err option) \<Rightarrow> (load_option list \<Rightarrow> err + 'cfg) \<Rightarrow>
    ('cfg \<Rightarrow> sqs_message sqs_client aws_api) \<Rightarrow> err + 'tp \<Rightarrow> ('s, 'tp) observability \<Rightarrow> handler \<Rightarrow>
    (broker \<times> metric_collectors \<times> 's) program" where
  "middlewareProgram ctxErr load api tracer ob h =
     followedBy (middlewareSetup ctxErr load api tracer) (\<lambda>(sqsClient, tp).
     followedBy (must ''failed to create route'' (NewRoute ''example-middleware-queue'' (Some h) [])) (\<lambda>route.
     case middlewareStack ob tp ''example-middleware-queue'' of
       Panic p \<Rightarrow> (\<lambda>t. Some (Inl (Crash p), t))
     | Return (mws, mc, st) \<Rightarrow>
       followedBy (must ''failed to create broker'' (NewBroker (Some sqsClient) [Some route]
         [Some (BrokerLogger (Some NewLogger)), Some (BrokerMiddleware (map Some mws))])) (\<lambda>b t.
       Some (Inr (b, mc, st), t))))"

definition middlewareMain :: "(trace \<Rightarrow> err option) \<Rightarrow> (load_option list \<Rightarrow> err + 'cfg) \<Rightarrow>
    ('cfg \<Rightarrow> sqs_message sqs_client aws_api) \<Rightarrow> err + 'tp \<Rightarrow> ('s, 'tp) observability \<Rightarrow>
    (string \<Rightarrow> payload \<Rightarrow> payload \<times> err option) \<Rightarrow> (broker \<times> metric_collectors \<times> 's) program" where
  "middlewareMain ctxErr load api tracer ob unmarshal =
     middlewareProgram ctxErr load api tracer ob (middlewareHandler unmarshal)"

section \<open>The scheduled retry program\<close>

definition failingHandler :: handler where
  "failingHandler c s = (case cur s of
     None \<Rightarrow> (HPanic nilDeref, s)
   | Some msg \<Rightarrow> (let ident = Identifier msg in
       (HRet (Some (Fmt ''simulated processing failure for message %q'' [ArgStr ident])),
        emit [Log LevelInfo ''received message, forcing failure to trigger a scheduled retry'' [(''id'', LStr ident)]] s)))"

text \<open>Its methods print the call, which the event of the call is, and return.\<close>

definition loggingMetrics :: recorder where
  "loggingMetrics t = None"

definition targetQueueARN :: string where "targetQueueARN = ''arn:aws:sqs:us-east-1:000000000000:example-scheduled.fifo''"
definition executionRoleARN :: string where "executionRoleARN = ''arn:aws:iam::000000000000:role/loafer-scheduler''"
definition dlqQueueURL :: string where "dlqQueueURL = ''http://localhost:4566/000000000000/example-scheduled-dlq.fifo''"

definition scheduledMain :: "(trace \<Rightarrow> err option) \<Rightarrow> (load_option list \<Rightarrow> err + 'cfg) \<Rightarrow>
    ('cfg \<Rightarrow> sqs_message sqs_client aws_api) \<Rightarrow> ('cfg \<Rightarrow> scheduler_client aws_api) \<Rightarrow> consumer program" where
  "scheduledMain ctxErr load sqs sched =
     followedBy (must ''failed to create AWS config'' (NewConn load localConn)) (\<lambda>cfg.
     followedBy (construct ''failed to create SQS client (construction or connectivity)'' (NewSQS ctxErr sqs cfg [])) (\<lambda>sqsClient.
     followedBy (construct ''failed to create Scheduler client (construction or connectivity)''
       (NewScheduler ctxErr sched cfg [])) (\<lambda>schedClient.
     followedBy (must ''failed to create route'' (NewRoute ''example-scheduled.fifo'' (Some failingHandler)
       [Some (WithScheduledRetry [Some (WithSchedulerIdentity targetQueueARN executionRoleARN),
          Some (WithScheduledDLQ dlqQueueURL), Some (WithMaxRetryCount 3), Some (WithBackoff second (30 * second))])])) (\<lambda>route.
     must ''failed to create consumer'' (NewConsumer (Some sqsClient) (Some route)
       [Some (WithSchedulerClient (Some schedClient)), Some (WithLogger (Some NewLogger)),
        Some (WithMetrics (Some loggingMetrics))])))))"

section \<open>Up to Run\<close>

lemma sqsConnection_returns:
  obtains (config) e opts where "sqsConnection ctxErr load api t = Some (Inl (Fatal ''failed to create AWS config'' e), t)"
      "load opts = Inl e"
  | (ping) e k where "sqsConnection ctxErr load api t =
      Some (Inl (Fatal ''failed to create SQS client (construction or connectivity)'' e), t @ pings k)" "k \<le> 3" "errIs e ErrPingFailed"
  | (connected) cfg k where "sqsConnection ctxErr load api t = Some (Inr (apiClient (api cfg)), t @ pings k)" "k \<le> 3"
proof (cases "load [LoadRegion ''us-east-1'', LoadRetryer 10, LoadStaticCredentials ''test'' ''test'' [],
    LoadEndpoint ''http://localhost:4566'']")
  case (Inl e)
  then show thesis by (intro config [OF _ Inl]) (simp add: sqsConnection_def local_conn followedBy_def must_def)
next
  case (Inr cfg)
  obtain r k where r: "newClient ctxErr (api cfg) [] t = Some (r, t @ pings k)" "k \<le> 3"
    "\<forall>x. r = Inr x \<longrightarrow> x = apiClient (api cfg)" "\<forall>e. r = Inl e \<longrightarrow> errIs e ErrPingFailed"
    by (rule newClient_checked [of ctxErr "api cfg" t]) blast
  with Inr have "sqsConnection ctxErr load api t = must ''failed to create SQS client (construction or connectivity)'' r (t @ pings k)"
    by (simp add: sqsConnection_def local_conn followedBy_def must_def construct_def newSQS_def)
  with r show thesis by (cases r) (auto simp: must_def intro: ping connected)
qed

definition exampleBroker :: "sqs_message sqs_client \<Rightarrow> route \<Rightarrow> middleware list \<Rightarrow> broker" where
  "exampleBroker cl r mws = \<lparr>bkClient = cl, bkLog = NewLogger, bkRoutes = [Some r], bkGlobals = mws,
     bkRetryTimeout = brokerRetryTimeout, bkShutdownTimeout = 0\<rparr>"

lemma NewBroker_example:
  "NewBroker (Some cl) [Some r] [Some (BrokerLogger (Some NewLogger))] = Inr (exampleBroker cl r [])"
  "NewBroker (Some cl) [Some r] [Some (BrokerLogger (Some NewLogger)), Some (BrokerMiddleware (map Some mws))] =
     Inr (exampleBroker cl r mws)"
  by (simp_all add: NewBroker_def exampleBroker_def)

text \<open>The routes of the programs.\<close>

lemma NewRoute_default: "q \<noteq> [] \<Longrightarrow> NewRoute q (Some h) [] = Inr (defaultRoute q h)"
  by (simp add: NewRoute_def clampVisibility_def defaultRoute_def minVisibilityTimeout_def go_sint)

definition fifoRoute :: "handler \<Rightarrow> route" where
  "fifoRoute h = (defaultRoute ''example-fifo-queue.fifo'' h)\<lparr>runMode := PerGroupID,
     customGroupFields := [''tenant_id'', ''order_id''], workerPoolSize := 5\<rparr>"

lemma NewRoute_fifo:
  "NewRoute ''example-fifo-queue.fifo'' (Some h) [Some (WithRunMode PerGroupID),
     Some (WithCustomGroupFields [attrTenantID, attrOrderID]), Some (WithWorkerPoolSize 5)] = Inr (fifoRoute h)"
  by (simp add: NewRoute_def clampVisibility_def defaultRoute_def minVisibilityTimeout_def go_sint modeValid_def
      fifoRoute_def attrTenantID_def attrOrderID_def)

section \<open>Running to the end\<close>

text \<open>
  A run of the broker in which no goroutine panics, after which the program exits in good order only when a
  signal cancelled the context, and with an error only when the URL of the queue could not be resolved; and
  which, once the context is cancelled, goes on to its return.
\<close>

definition runs_to_end :: "broker \<Rightarrow> ctx \<Rightarrow> (string \<Rightarrow> sns_envelope) \<Rightarrow> bool" where
  "runs_to_end b ctx parse \<longleftrightarrow> (\<forall>st. brokered b ctx parse st \<longrightarrow>
     (\<forall>m \<in> set (bsMembers st). \<not> crashed m) \<and>
     (\<forall>r. bsPhase st = Returned r \<longrightarrow> (case exitOf ''broker stopped with error'' r of
        None \<Rightarrow> bsExternal st
      | Some x \<Rightarrow> \<exists>e. x = Fatal ''broker stopped with error'' e \<and> errIs e ErrQueueResolve)) \<and>
     (bsCancelled st \<longrightarrow> (\<nexists>f. f 0 = st \<and> (\<forall>k. broker_step b ctx parse (f k) (f (Suc k)))) \<and>
        (\<forall>st'. (broker_step b ctx parse)\<^sup>*\<^sup>* st st' \<and> (\<nexists>st''. broker_step b ctx parse st' st'') \<longrightarrow>
           (\<exists>r. bsPhase st' = Returned r))))"

text \<open>A route on the Visibility model, without DLQ and batched deletes, whose handler never panics on a message.\<close>

definition quietRoute :: "route \<Rightarrow> middleware list \<Rightarrow> bool" where
  "quietRoute r mws \<longleftrightarrow> retryModel r = VisibilityRetryModel \<and> dlqConfig r = None \<and> \<not> deleteBatch r \<and>
     0 < sint (workerPoolSize r) \<and> sint (workerPoolSize r) < 2 ^ 32 \<and>
     (\<forall>c s p. cur s \<noteq> None \<longrightarrow> fst (Chain (mws @ middlewares r) (route.handler r) c s) \<noteq> HPanic p)"

lemma example_member:
  assumes "b = exampleBroker cl r mws" and "rt \<in> set (bkRoutes b)" and "memberConsumer b rt = Inr c"
  shows "coClient c = cl \<and> coRoute c = r \<and> coGlobals c = mws \<and> coScheduler c = None"
proof -
  have "0 < sint (bkRetryTimeout b)" "rt = Some r"
    using assms(1,2) by (simp_all add: exampleBroker_def brokerRetryTimeout_def second_def)
  with memberConsumer_Some [of b r] assms(1,3) show ?thesis by (auto simp: exampleBroker_def)
qed

lemma runSetup_plain:
  assumes "retryModel (coRoute c) = VisibilityRetryModel" and "\<not> deleteBatch (coRoute c)" and "runSetup c rd now rnd t = (res, t')"
  shows "(\<exists>e. res = Inl e \<and> errIs e ErrQueueResolve) \<or>
    (\<exists>url vm. res = Inr ((newDispatcher (coClient c) (coRoute c) url vm (coScheduler c) rd now rnd (coGlobals c))
       \<lparr>dMetrics := coMetrics c, dBatcher := False\<rparr>))"
  using assms by (auto simp: runSetup_def batchDeleteClient_def resolveQueueURL_def Let_def route_consts
      split: sum.splits option.splits)

lemma quiet_process:
  assumes "quietRoute r mws" and "d = (newDispatcher cl r url vm sc rd now rnd mws)\<lparr>dMetrics := ms, dBatcher := b\<rparr>"
  shows "process d c st \<noteq> (Panic p, st')"
proof
  assume "process d c st = (Panic p, st')"
  from process_panics_from [OF this] assms have "\<exists>st1. handled d c st = (HPanic p, st1)"
    by (auto simp: newDispatcher_simps quietRoute_def route_consts)
  then have "fst (Chain (mws @ middlewares r) (route.handler r) c
      \<lparr>cur = Some (pMsg st), htrace = pTrace st @ [SpawnVisibility (Identifier (pMsg st))]\<rparr>) = HPanic p"
    using assms(2) by (auto simp: invoke_def newDispatcher_simps split: prod.splits)
  then show False using assms(1) by (auto simp: quietRoute_def)
qed

lemma example_setup:
  assumes "b = exampleBroker cl r mws" and "retryModel r = VisibilityRetryModel" and "\<not> deleteBatch r"
    and "rt \<in> set (bkRoutes b)" and "memberConsumer b rt = Inr c" and "runSetup c rd now rnd [] = (Inr d, t)"
  shows "\<exists>url vm. d = (newDispatcher cl r url vm None rd now rnd mws)\<lparr>dMetrics := coMetrics c, dBatcher := False\<rparr>"
  using example_member [OF assms(1,4,5)] runSetup_plain [OF _ _ assms(6)] assms(2,3) by auto

lemma example_batched:
  assumes "b = exampleBroker cl r mws" and "retryModel r = VisibilityRetryModel" and "\<not> deleteBatch r"
  shows "batched_ok b"
  unfolding batched_ok_def
proof (intro allI impI)
  fix rt c rd now rnd d t
  assume c: "rt \<in> set (bkRoutes b) \<and> memberConsumer b rt = Inr c \<and> runSetup c rd now rnd [] = (Inr d, t) \<and> dBatcher d"
  with example_setup [OF assms, of rt c rd now rnd d t] have "\<not> dBatcher d" by auto
  with c show "0 < batchCapacity d \<and> polite (dHandler d)" by simp
qed

lemma example_running:
  assumes "b = exampleBroker cl r mws" and "retryModel r = VisibilityRetryModel" and "\<not> deleteBatch r"
    and "brokered b ctx parse st" and "Running c d s bt \<in> set (bsMembers st)"
  obtains url vm rd now rnd where "bt = None" "reached c d ctx parse s" "coClient c = cl"
    "d = (newDispatcher cl r url vm None rd now rnd mws)\<lparr>dMetrics := coMetrics c, dBatcher := False\<rparr>"
proof -
  have "batched_ok b" by (rule example_batched [OF assms(1-3)])
  from brokered_members [OF assms(4) this] assms(5) have m: "member_reached b ctx parse (Running c d s bt)"
    by (auto simp: members_reached_def)
  from brokered_members_of [OF assms(4,5)] obtain rt rd now rnd t where
    c: "rt \<in> set (bkRoutes b)" "memberConsumer b rt = Inr c" "runSetup c rd now rnd [] = (Inr d, t)" "dBatcher d \<longleftrightarrow> bt \<noteq> None"
    by auto
  from example_setup [OF assms(1-3) c(1-3)] obtain url vm where
    d: "d = (newDispatcher cl r url vm None rd now rnd mws)\<lparr>dMetrics := coMetrics c, dBatcher := False\<rparr>" by blast
  with c(4) have "bt = None" by simp
  with m have "reached c d ctx parse s" by simp
  with d \<open>bt = None\<close> example_member [OF assms(1) c(1,2)] show thesis by (intro that) auto
qed

lemma quiet_runs_to_end:
  assumes "quietRoute r mws" and "b = exampleBroker cl r mws" and "\<forall>t. receiveMessage cl t \<noteq> Inr None"
  shows "runs_to_end b ctx parse"
proof -
  have r: "retryModel r = VisibilityRetryModel" "\<not> deleteBatch r" using assms(1) by (simp_all add: quietRoute_def)
  have conf: "\<not> 0 <s bkShutdownTimeout b" "0 < sint (bkRetryTimeout b)" "bkRoutes b = [Some r]"
    by (simp_all add: assms(2) exampleBroker_def brokerRetryTimeout_def second_def)
  have batched: "batched_ok b" by (rule example_batched [OF assms(2) r])
  have quiet: "\<not> crashed m" if st: "brokered b ctx parse st" and m: "m \<in> set (bsMembers st)" for st m
  proof
    assume "crashed m"
    then obtain c d s bt p where run: "m = Running c d s bt" "rsPhase s = Crashed p"
      by (auto simp: crashed_def split: member.splits phase.splits)
    from m run(1) have "Running c d s bt \<in> set (bsMembers st)" by simp
    then obtain url vm rd now rnd where d: "bt = None" "reached c d ctx parse s" "coClient c = cl"
      "d = (newDispatcher cl r url vm None rd now rnd mws)\<lparr>dMetrics := coMetrics c, dBatcher := False\<rparr>"
      by (rule example_running [OF assms(2) r st])
    have "process d ctx st \<noteq> (Panic p, st')" for st st' by (rule quiet_process [OF assms(1) d(4)])
    moreover have "0 < sint (dWorkerPoolSize d)" "sint (dWorkerPoolSize d) < 2 ^ 32"
      using assms(1) by (auto simp: d(4) newDispatcher_simps quietRoute_def go_sint)
    ultimately show False
      using reached_crash_cause [OF d(2) run(2)] assms(3) d(3) by (auto simp: crashCause_def mod_pos_pos_trivial)
  qed
  show ?thesis
    unfolding runs_to_end_def
  proof (intro allI impI conjI)
    fix st assume st: "brokered b ctx parse st"
    show "\<forall>m \<in> set (bsMembers st). \<not> crashed m" using quiet [OF st] by blast
    show "case exitOf ''broker stopped with error'' x of None \<Rightarrow> bsExternal st
        | Some x \<Rightarrow> \<exists>e. x = Fatal ''broker stopped with error'' e \<and> errIs e ErrQueueResolve" if "bsPhase st = Returned x" for x
    proof (cases x)
      case None
      with brokered_return [OF st conf(1)] that conf(3) show ?thesis by (simp add: return_inv_def exitOf_def)
    next
      case (Some e)
      with brokered_return [OF st conf(1)] that have "bsFirst st = Some e" by (simp add: return_inv_def)
      with brokered_inv [OF st] have "Done (Some e) \<in> set (bsMembers st) \<or> (\<exists>r \<in> set (bkRoutes b). memberConsumer b r = Inl e)"
        by (auto simp: broker_inv_def)
      then have "Done (Some e) \<in> set (bsMembers st)" using memberConsumer_Some [OF conf(2), of r] by (auto simp: conf(3))
      from brokered_members_of [OF st this] obtain rt c rd now rnd t where
        c: "rt \<in> set (bkRoutes b)" "memberConsumer b rt = Inr c" "runSetup c rd now rnd [] = (Inl e, t)" by auto
      with example_member [OF assms(2) c(1,2)] runSetup_plain [OF _ _ c(3)] r Some show ?thesis by (auto simp: exitOf_def)
    qed
    assume c: "bsCancelled st"
    show "\<nexists>f. f 0 = st \<and> (\<forall>k. broker_step b ctx parse (f k) (f (Suc k)))"
      using broker_terminates batched st c by metis
    show "\<exists>r. bsPhase st' = Returned r"
      if run: "(broker_step b ctx parse)\<^sup>*\<^sup>* st st' \<and> (\<nexists>st''. broker_step b ctx parse st' st'')" for st'
    proof -
      have "brokered b ctx parse st'" using broker_run [OF _ st batched c] run by blast
      from broker_rests [OF st batched c] run quiet [OF this] show ?thesis by blast
    qed
  qed
qed

lemma quiet_default:
  "(\<And>c s p. cur s \<noteq> None \<Longrightarrow> fst (Chain mws h c s) \<noteq> HPanic p) \<Longrightarrow> quietRoute (defaultRoute q h) mws"
  "(\<And>c s p. cur s \<noteq> None \<Longrightarrow> fst (Chain mws h c s) \<noteq> HPanic p) \<Longrightarrow> quietRoute (fifoRoute h) mws"
  by (auto simp: quietRoute_def defaultRoute_def fifoRoute_def)

lemma quiet_handlers:
  "cur s \<noteq> None \<Longrightarrow> fst (basicHandler u1 c s) \<noteq> HPanic p"
  "cur s \<noteq> None \<Longrightarrow> fst (fifoHandler u2 c s) \<noteq> HPanic p"
  "cur s \<noteq> None \<Longrightarrow> fst (WrapHandler (JSONCodec mar u3) handleOrder c s) \<noteq> HPanic p"
  by (auto simp: basicHandler_def fifoHandler_def WrapHandler_def handleOrder_def Let_def split: prod.split option.split)

text \<open>The rest of a program, once the SQS client is there.\<close>

lemma sqs_program:
  assumes "main = followedBy (sqsConnection ctxErr load api) rest" and "\<And>cfg k. k \<le> 3 \<Longrightarrow>
      \<exists>r. rest (apiClient (api cfg)) (pings k) = Some (r, pings k) \<and> (case r of Inl x \<Rightarrow> Q x | Inr y \<Rightarrow> P y)"
    and "\<And>e opts. load opts = Inl e \<Longrightarrow> Q (Fatal ''failed to create AWS config'' e)"
    and "\<And>e. errIs e ErrPingFailed \<Longrightarrow> Q (Fatal ''failed to create SQS client (construction or connectivity)'' e)"
  shows "\<exists>r k. main [] = Some (r, pings k) \<and> k \<le> 3 \<and> (case r of Inl x \<Rightarrow> Q x | Inr y \<Rightarrow> P y)"
proof (cases rule: sqsConnection_returns [of ctxErr load api "[]"])
  case (config e opts)
  then have "main [] = Some (Inl (Fatal ''failed to create AWS config'' e), pings 0)"
    by (simp add: assms(1) followedBy_def pings_def)
  with assms(3) [OF config(2)] show ?thesis by (intro exI conjI) (assumption, simp_all)
next
  case (ping e k)
  then have "main [] = Some (Inl (Fatal ''failed to create SQS client (construction or connectivity)'' e), pings k)"
    by (simp add: assms(1) followedBy_def)
  with ping(2) assms(4) [OF ping(3)] show ?thesis by (intro exI conjI) (assumption, simp_all)
next
  case (connected cfg k)
  from assms(2) [OF connected(2), of cfg] obtain r where
    r: "rest (apiClient (api cfg)) (pings k) = Some (r, pings k)" "case r of Inl x \<Rightarrow> Q x | Inr y \<Rightarrow> P y" by blast
  with connected have "main [] = Some (r, pings k)" by (simp add: assms(1) followedBy_def)
  with connected(2) r(2) show ?thesis by blast
qed

text \<open>How a program can end before \<open>Run\<close>: the SDK refused the configuration, or the check of the client failed.\<close>

definition exits_early :: "(load_option list \<Rightarrow> err + 'cfg) \<Rightarrow> exit \<Rightarrow> bool" where
  "exits_early load x \<longleftrightarrow> (\<exists>e. x = Fatal ''failed to create AWS config'' e \<and> (\<exists>opts. load opts = Inl e)) \<or>
     (\<exists>e. x = Fatal ''failed to create SQS client (construction or connectivity)'' e \<and> errIs e ErrPingFailed)"

lemma broker_program:
  assumes "quietRoute route []" and "\<forall>cfg t. receiveMessage (apiClient (api cfg)) t \<noteq> Inr None"
  shows "\<exists>r k. brokerProgram ctxErr load api (Inr route) [] = Some (r, pings k) \<and> k \<le> 3 \<and>
    (case r of Inl x \<Rightarrow> exits_early load x | Inr b \<Rightarrow> runs_to_end b ctx parse)"
proof (rule sqs_program [OF brokerProgram_def])
  show "\<exists>r. followedBy (must ''failed to create route'' (Inr route)) (\<lambda>route. must ''failed to create broker''
        (NewBroker (Some (apiClient (api cfg))) [Some route] [Some (BrokerLogger (Some NewLogger))])) (pings k) = Some (r, pings k) \<and>
      (case r of Inl x \<Rightarrow> exits_early load x | Inr b \<Rightarrow> runs_to_end b ctx parse)" for cfg k
    using quiet_runs_to_end [OF assms(1) refl, of "apiClient (api cfg)" ctx parse] assms(2)
    by (simp add: followedBy_def must_def NewBroker_example)
qed (auto simp: exits_early_def)

text \<open>
  C15: The broker programs run to their end. Provided SQS never answers \<open>ReceiveMessage\<close> with neither output nor
  error, \<open>basic\<close>, \<open>fifo\<close> and \<open>typed\<close> come to \<open>Run\<close> after at most three pings, or exit because the configuration was
  refused or the connectivity check failed: their routes and their broker are always accepted. From there no
  goroutine ever panics; \<open>Run\<close> returns nil only after a signal, an error only if the URL of the queue could not be
  resolved, and once the context is cancelled it returns, without infinite run or deadlock.
\<close>

theorem broker_examples_run_to_end:
  assumes "\<forall>cfg t. receiveMessage (apiClient (api cfg)) t \<noteq> Inr None"
    and "main \<in> {basicMain ctxErr load api u1, fifoMain ctxErr load api u2, typedMain ctxErr load api mar u3}"
  shows "\<exists>r k. main [] = Some (r, pings k) \<and> k \<le> 3 \<and>
    (case r of Inl x \<Rightarrow> exits_early load x | Inr b \<Rightarrow> runs_to_end b ctx parse)"
proof -
  have q: "quietRoute (defaultRoute q (basicHandler u1)) []" "quietRoute (fifoRoute (fifoHandler u2)) []"
    "quietRoute (defaultRoute q (WrapHandler (JSONCodec mar u3) handleOrder)) []" for q
    by (intro quiet_default; simp add: quiet_handlers)+
  from assms(2) consider "main = brokerProgram ctxErr load api (Inr (defaultRoute ''example-basic-queue'' (basicHandler u1)))"
    | "main = brokerProgram ctxErr load api (Inr (fifoRoute (fifoHandler u2)))"
    | "main = brokerProgram ctxErr load api (Inr (defaultRoute ''example-typed-queue'' (WrapHandler (JSONCodec mar u3) handleOrder)))"
    by (auto simp: basicMain_def fifoMain_def typedMain_def NewRoute_default NewRoute_fifo Let_def)
  then have "\<exists>route. quietRoute route [] \<and> main = brokerProgram ctxErr load api (Inr route)"
    using q by cases blast+
  then show ?thesis using broker_program [OF _ assms(1)] by blast
qed

text \<open>SQS with an empty queue.\<close>

definition emptyQueue :: "sqs_message sqs_client aws_api" where
  "emptyQueue = \<lparr>apiClient = quietClient\<lparr>receiveMessage := (\<lambda>t. Inr (Some [])),
     getQueueUrl := (\<lambda>t. Inr (Some (Some ''https://q'')))\<rparr>, apiList = (\<lambda>t. None)\<rparr>"

lemma broker_examples_run_to_end_witness:
  "\<exists>r k. basicMain (\<lambda>t. None) (\<lambda>opts. Inr ()) (\<lambda>_. emptyQueue) (\<lambda>s p. (p, None)) [] =
     Some (r, pings k) \<and> k \<le> 3 \<and>
     (case r of Inl x \<Rightarrow> exits_early (\<lambda>opts. Inr ()) x | Inr b \<Rightarrow> runs_to_end b exampleCtx (\<lambda>b. zero_envelope))"
proof (rule broker_examples_run_to_end)
  show "\<forall>cfg t. receiveMessage (apiClient emptyQueue) t \<noteq> Inr None" by (simp add: emptyQueue_def)
  show "basicMain (\<lambda>t. None) (\<lambda>opts. Inr ()) (\<lambda>_. emptyQueue) (\<lambda>s p. (p, None)) \<in>
    {basicMain (\<lambda>t. None) (\<lambda>opts. Inr ()) (\<lambda>_. emptyQueue) (\<lambda>s p. (p, None)),
     fifoMain (\<lambda>t. None) (\<lambda>opts. Inr ()) (\<lambda>_. emptyQueue) (\<lambda>s p. (p, None)),
     typedMain (\<lambda>t. None) (\<lambda>opts. Inr ()) (\<lambda>_. emptyQueue) (\<lambda>v :: unit order_placed. Inr []) (\<lambda>s. (\<lparr>opOrderID = [], opCustomerID = [], opItems = [], opTotal = ()\<rparr>, None))}" by blast
qed

section \<open>The middleware program\<close>

lemma followedBy_assoc: "followedBy (followedBy p f) g = followedBy p (\<lambda>x. followedBy (f x) g)"
  by (rule ext) (simp add: followedBy_def split: option.split sum.split)

lemma middlewareStack_given:
  assumes "metricsCollectors (obRegistry ob) 0 (obState ob) = (mc, st)"
  shows "middlewareStack ob tp q = Return ([Recovery (obStack ob), Logging (obNow ob), Metrics (obNow ob) q,
     OTel False (obStart ob tp) q], mc, st)"
  using assms by (simp add: middlewareStack_def loadMetricsConfig_def loadOTelConfig_def)

lemma quiet_recovered: "quietRoute (defaultRoute q h) (Recovery stack # mws)"
proof (rule quiet_default)
  show "fst (Chain (Recovery stack # mws) h c s) \<noteq> HPanic p" for c s p
    using Recovery_returns [of stack "Chain mws h" c s] by auto
qed

text \<open>
  C20: With its middlewares the program survives any handler: whatever the handler of the route does, panics
  included, no goroutine of \<open>Run\<close> panics and \<open>Run\<close> ends as in the other broker programs, provided SQS never
  answers \<open>ReceiveMessage\<close> with neither output nor error. The program comes to \<open>Run\<close> unless the SDK refused the
  configuration, the connectivity check or the tracer provider failed, and the collectors its middleware updates
  are then registered in its own registry.
\<close>

theorem middleware_example_survives_handlers:
  assumes "\<forall>cfg t. receiveMessage (apiClient (api cfg)) t \<noteq> Inr None"
    and "lawful_registry (obRegistry ob) gathered" and "gathered (obState ob) = {}"
  shows "\<exists>r k. middlewareProgram ctxErr load api tracer ob h [] = Some (r, pings k) \<and> k \<le> 3 \<and>
    (case r of
       Inl x \<Rightarrow> exits_early load x \<or> (\<exists>e. x = Fatal ''failed to create tracer provider'' e \<and> tracer = Inl e)
     | Inr (b, mc, st) \<Rightarrow> runs_to_end b ctx parse \<and> holds_metrics (gathered st) mc)"
proof (rule sqs_program [OF middlewareProgram_def [unfolded middlewareSetup_def followedBy_assoc]])
  have "no_clash (gathered (obState ob))" by (simp add: no_clash_def assms(3))
  from metrics_registered [OF assms(2) this, of 0] obtain mc st where
    mc: "metricsCollectors (obRegistry ob) 0 (obState ob) = (mc, st)" "holds_metrics (gathered st) mc" by blast
  have run: "runs_to_end (exampleBroker (apiClient (api cfg)) (defaultRoute q h) (Recovery stack # mws)) ctx parse"
    for cfg q stack mws
    by (rule quiet_runs_to_end [OF quiet_recovered refl]) (use assms(1) in blast)
  fix cfg and k :: nat
  let ?rest = "\<lambda>sqsClient. followedBy (must ''failed to create tracer provider'' tracer) (\<lambda>x.
     followedBy (\<lambda>t. Some (Inr (sqsClient, x), t)) (\<lambda>(sqsClient, tp).
     followedBy (must ''failed to create route'' (NewRoute ''example-middleware-queue'' (Some h) [])) (\<lambda>route.
     case middlewareStack ob tp ''example-middleware-queue'' of
       Panic p \<Rightarrow> (\<lambda>t. Some (Inl (Crash p), t))
     | Return (mws, mc, st) \<Rightarrow>
       followedBy (must ''failed to create broker'' (NewBroker (Some sqsClient) [Some route]
         [Some (BrokerLogger (Some NewLogger)), Some (BrokerMiddleware (map Some mws))])) (\<lambda>b t.
       Some (Inr (b, mc, st), t)))))"
  show "\<exists>r. ?rest (apiClient (api cfg)) (pings k) = Some (r, pings k) \<and>
     (case r of
       Inl x \<Rightarrow> exits_early load x \<or> (\<exists>e. x = Fatal ''failed to create tracer provider'' e \<and> tracer = Inl e)
     | Inr (b, mc, st) \<Rightarrow> runs_to_end b ctx parse \<and> holds_metrics (gathered st) mc)"
    using mc(2) run by (cases tracer)
      (auto simp: followedBy_def must_def NewRoute_default middlewareStack_given [OF mc(1)] NewBroker_example(2)
        simp del: list.map)
qed (auto simp: exits_early_def)

lemma middleware_example_survives_handlers_witness:
  "\<exists>r k. middlewareProgram (\<lambda>t. None) (\<lambda>opts. Inr ()) (\<lambda>_. emptyQueue) (Inr ())
     \<lparr>obRegistry = listRegistry, obState = [], obDefault = None, obGlobal = (), obStart = (\<lambda>tp t. None),
      obStack = ''stack'', obNow = (\<lambda>t. 0)\<rparr> (\<lambda>c s. (HPanic ''boom'', s)) [] = Some (r, pings k) \<and> k \<le> 3 \<and>
     (case r of
       Inl x \<Rightarrow> exits_early (\<lambda>opts. Inr ()) x \<or> (\<exists>e. x = Fatal ''failed to create tracer provider'' e \<and> (Inr () :: err + unit) = Inl e)
     | Inr (b, mc, st) \<Rightarrow> runs_to_end b exampleCtx (\<lambda>b. zero_envelope) \<and> holds_metrics (listGathered st) mc)"
  by (rule middleware_example_survives_handlers)
    (simp_all add: emptyQueue_def listRegistry_lawful, simp add: listGathered_def)

section \<open>The FIFO program and the producer program\<close>

lemma brokerProgram_result:
  assumes "brokerProgram ctxErr load api (Inr route) t = Some (Inr b, t')"
  obtains cfg where "b = exampleBroker (apiClient (api cfg)) route []"
proof (cases rule: sqsConnection_returns [of ctxErr load api t])
  case (connected cfg k)
  with assms have "b = exampleBroker (apiClient (api cfg)) route []"
    by (simp add: brokerProgram_def followedBy_def must_def NewBroker_example)
  then show thesis by (rule that)
qed (use assms in \<open>simp_all add: brokerProgram_def followedBy_def\<close>)

text \<open>The message a FIFO queue delivers, under the handle \<open>h\<close>, for what SNS was asked with raw message delivery.\<close>

definition rawDelivery :: "(string \<Rightarrow> sns_envelope) \<Rightarrow> string \<Rightarrow> ask \<Rightarrow> message" where
  "rawDelivery parse h a = newMessage parse \<lparr>smBody = Some (asBody a), smReceiptHandle = Some h,
     smAttributes = (case asGroup a of None \<Rightarrow> [] | Some g \<Rightarrow> [(messageGroupIDKey, g)]),
     smMessageAttributes = map (\<lambda>(k, v). (k, Some v)) (asAttributes a)\<rparr>"

definition sameOrder :: "message \<Rightarrow> message \<Rightarrow> bool" where
  "sameOrder m m' \<longleftrightarrow> SystemAttributeByKey m messageGroupIDKey = SystemAttributeByKey m' messageGroupIDKey \<and>
     (\<forall>f \<in> {''tenant_id'', ''order_id''}. UserMessageAttribute m f = UserMessageAttribute m' f \<and> UserMessageAttribute m f \<noteq> [])"

lemma sameOrder_key:
  assumes "dCustomGroupFields d = [''tenant_id'', ''order_id'']" and "sameOrder m m'"
  shows "msgGroupKey d m = msgGroupKey d m'"
  using assms by (auto simp: msgGroupKey_def sameOrder_def Let_def)

text \<open>The messages the producer program publishes about the order o-42, one alone and two in a batch.\<close>

lemma plan_order_42:
  assumes "a \<in> set (snd (plan sum256 ! 2)) \<union> set (snd (plan sum256 ! 3))"
    and "a' \<in> set (snd (plan sum256 ! 2)) \<union> set (snd (plan sum256 ! 3))"
  shows "sameOrder (rawDelivery parse h a) (rawDelivery parse h' a')"
proof -
  have "asAttributes x = [(''tenant_id'', ''acme''), (''order_id'', ''o-42'')] \<and> asGroup x = Some (orderGroup sum256 ''o-42'')"
    if "x \<in> set (snd (plan sum256 ! 2)) \<union> set (snd (plan sum256 ! 3))" for x
    using that by (auto simp: plan_def Let_def askOf_def)
  with assms show ?thesis
    by (simp add: sameOrder_def rawDelivery_def newMessage_def SystemAttributeByKey_def UserMessageAttribute_def)
qed

text \<open>
  C14: The FIFO program keeps what belongs to one order in order. In every run of its broker, messages of one
  group that carry the same tenant and order go to the same of its five workers, whatever their bodies; so do
  the three messages the producer program publishes about the order o-42, when SNS delivers them raw. The
  messages of one key of one batch are processed in the order they came, each committed up to the first that
  fails, and the rest held back.
\<close>

theorem fifo_example_keeps_orders_together:
  assumes "fifoMain ctxErr load api unmarshal [] = Some (Inr b, t)"
    and "brokered b ctx parse st" and "Running c d s bt \<in> set (bsMembers st)"
  shows "(\<forall>m m'. sameOrder m m' \<longrightarrow> fst (workerIndex d m) = fst (workerIndex d m')) \<and>
    (\<forall>m. \<exists>i. fst (workerIndex d m) = Return i \<and> 0 \<le> sint i \<and> sint i < 5) \<and>
    (\<forall>a \<in> set (snd (plan sum256 ! 2)) \<union> set (snd (plan sum256 ! 3)).
     \<forall>a' \<in> set (snd (plan sum256 ! 2)) \<union> set (snd (plan sum256 ! 3)).
       fst (workerIndex d (rawDelivery parse h a)) = fst (workerIndex d (rawDelivery parse h' a'))) \<and>
    (\<exists>rest. groupSent (rsPool s) ad k = map (fst \<circ> snd) (groupDone (rsPool s) ad k) @ rest) \<and>
    (\<exists>n. groupVerdicts (rsPool s) ad k = replicate n Committed \<or>
      (\<exists>held. groupVerdicts (rsPool s) ad k = replicate n Committed @ verdict.Failed # replicate held Held))"
proof -
  let ?r = "fifoRoute (fifoHandler unmarshal)"
  from assms(1) have "brokerProgram ctxErr load api (Inr ?r) [] = Some (Inr b, t)" by (simp add: fifoMain_def NewRoute_fifo)
  then obtain cfg where b: "b = exampleBroker (apiClient (api cfg)) ?r []" by (rule brokerProgram_result)
  have r: "retryModel ?r = VisibilityRetryModel" "\<not> deleteBatch ?r" by (simp_all add: fifoRoute_def defaultRoute_def)
  from assms(3) obtain url vm rd now rnd where d: "reached c d ctx parse s"
    "d = (newDispatcher (apiClient (api cfg)) ?r url vm None rd now rnd [])\<lparr>dMetrics := coMetrics c, dBatcher := False\<rparr>"
    by (rule example_running [OF b r assms(2)])
  have dp: "dMode d = PerGroupID" "dCustomGroupFields d = [''tenant_id'', ''order_id'']" "dWorkerPoolSize d = 5"
    "dRetryModel d = VisibilityRetryModel" "dHandler d = fifoHandler unmarshal"
    by (simp_all add: d(2) newDispatcher_simps fifoRoute_def defaultRoute_def go_sint)
  have "orderedGroups d" using dp by (simp add: orderedGroups_def)
  moreover have "polite (dHandler d)"
    by (auto simp: dp(5) polite_def fifoHandler_def Let_def split: option.split prod.split)
  ultimately have order: "(\<exists>rest. groupSent (rsPool s) ad k = map (fst \<circ> snd) (groupDone (rsPool s) ad k) @ rest) \<and>
    (\<exists>n. groupVerdicts (rsPool s) ad k = replicate n Committed \<or>
      (\<exists>held. groupVerdicts (rsPool s) ad k = replicate n Committed @ verdict.Failed # replicate held Held))"
    using group_in_order [OF d(1)] by blast
  have same: "fst (workerIndex d m) = fst (workerIndex d m')" if "sameOrder m m'" for m m'
    using sameOrder_key [OF dp(2) that] by (simp add: workerIndex_def dp(1) Let_def)
  have "\<exists>i. fst (workerIndex d m) = Return i \<and> 0 \<le> sint i \<and> sint i < 5" for m
    using groupIndex_range [of d "msgGroupKey d m"] by (simp add: workerIndex_def dp Let_def)
  with order same plan_order_42 show ?thesis by blast
qed

text \<open>A broker program whose queue exists gets its consumer to work.\<close>

lemma example_starts:
  assumes "b = exampleBroker cl r mws" and "retryModel r = VisibilityRetryModel" and "\<not> deleteBatch r"
    and "\<And>t. getQueueUrl cl t = Inr (Some (Some url))"
  obtains st c d s where "brokered b ctx parse st" "Running c d s None \<in> set (bsMembers st)"
proof -
  let ?s0 = "startBroker b"
  have conf: "0 < sint (bkRetryTimeout b)" "bkRoutes b = [Some r]"
    by (simp_all add: assms(1) exampleBroker_def brokerRetryTimeout_def second_def)
  let ?c = "\<lparr>coClient = bkClient b, coRoute = r, coLog = bkLog b, coMetrics = None,
     coScheduler = None, coGlobals = bkGlobals b, coRetryTimeout = bkRetryTimeout b\<rparr>"
  have mc: "memberConsumer b (Some r) = Inr ?c" by (rule memberConsumer_Some [OF conf(1)])
  have cl: "bkClient b = cl" by (simp add: assms(1) exampleBroker_def)
  obtain d t where d: "runSetup ?c (\<lambda>t. Inr []) (\<lambda>t. 0) (\<lambda>n. Return 0) [] = (Inr d, t)" "\<not> dBatcher d"
    using assms(2,3) by (simp add: runSetup_def batchDeleteClient_def resolveQueueURL_def Let_def route_consts cl assms(4))
  let ?s1 = "?s0\<lparr>bsTodo := [], bsMembers := [Starting ?c]\<rparr>"
  have "broker_step b ctx parse ?s0 ?s1"
    using broker_step.launch [of ?s0 "Some r" "[]" b ?c ctx parse] mc
    by (simp add: startBroker_def alive_def conf(2))
  moreover have "broker_step b ctx parse ?s1 (?s1\<lparr>bsMembers := [startMember ?c d (bsCancelled ?s1) t]\<rparr>)"
    using broker_step.set_up [of ?s1 0 ?c "\<lambda>t. Inr []" "\<lambda>t. 0" "\<lambda>n. Return 0" d t b ctx parse] d(1)
    by (simp add: alive_def crashed_def)
  ultimately have "brokered b ctx parse (?s1\<lparr>bsMembers := [startMember ?c d (bsCancelled ?s1) t]\<rparr>)"
    unfolding brokered_def by (meson converse_rtranclp_into_rtranclp rtranclp.rtrancl_refl)
  with d(2) show thesis by (intro that) (assumption, simp add: startMember_def)
qed

lemma fifo_example_keeps_orders_together_witness:
  "\<exists>b t st c d s i. fifoMain (\<lambda>t. None) (\<lambda>opts. Inr ()) (\<lambda>_. emptyQueue) (\<lambda>s p. (p, None)) [] = Some (Inr b, t) \<and>
     brokered b exampleCtx (\<lambda>b. zero_envelope) st \<and> Running c d s None \<in> set (bsMembers st) \<and>
     fst (workerIndex d example_message) = Return i \<and> sint i < 5"
proof -
  let ?r = "fifoRoute (fifoHandler (\<lambda>s p. (p, None)))"
  obtain b t where b: "fifoMain (\<lambda>t. None) (\<lambda>opts. Inr ()) (\<lambda>_. emptyQueue) (\<lambda>s p. (p, None)) [] = Some (Inr b, t)"
    "b = exampleBroker (apiClient emptyQueue) ?r []"
    by (simp add: fifoMain_def NewRoute_fifo brokerProgram_def sqsConnection_def local_conn followedBy_def must_def construct_def
        newSQS_def newClient_def buildClientOptions_def newClientOptions_def validate_def validateLoop.simps emptyQueue_def
        NewBroker_example)
  have r: "retryModel ?r = VisibilityRetryModel" "\<not> deleteBatch ?r" by (simp_all add: fifoRoute_def defaultRoute_def)
  have "getQueueUrl (apiClient emptyQueue) t = Inr (Some (Some ''https://q''))" for t by (simp add: emptyQueue_def)
  then obtain st c d s where st: "brokered b exampleCtx (\<lambda>b. zero_envelope) st" "Running c d s None \<in> set (bsMembers st)"
    by (rule example_starts [OF b(2) r])
  from fifo_example_keeps_orders_together [OF b(1) st, of "\<lambda>s. []" "''h''" "''h2''" 0 "[]"] b(1) st show ?thesis by blast
qed

section \<open>The scheduled retry program\<close>

definition scheduledExample :: sched_config where
  "scheduledExample = \<lparr>TargetQueueARN = targetQueueARN, ExecutionRoleARN = executionRoleARN, DLQQueueURL = dlqQueueURL,
     MaxRetryCount = 3, BaseBackoff = second, MaxBackoff = 30 * second\<rparr>"

lemma valid_scheduledExample: "valid_sched scheduledExample"
  by (simp add: valid_sched_def scheduledExample_def targetQueueARN_def executionRoleARN_def dlqQueueURL_def second_def)

definition scheduledExampleRoute :: route where
  "scheduledExampleRoute = (defaultRoute ''example-scheduled.fifo'' failingHandler)
     \<lparr>retryModel := ScheduledRetryModel, scheduledRetry := Some scheduledExample\<rparr>"

lemma NewRoute_scheduled:
  "NewRoute ''example-scheduled.fifo'' (Some failingHandler)
     [Some (WithScheduledRetry [Some (WithSchedulerIdentity targetQueueARN executionRoleARN),
        Some (WithScheduledDLQ dlqQueueURL), Some (WithMaxRetryCount 3), Some (WithBackoff second (30 * second))])] =
   Inr scheduledExampleRoute"
proof -
  have "assembleSched [Some (WithSchedulerIdentity targetQueueARN executionRoleARN),
      Some (WithScheduledDLQ dlqQueueURL), Some (WithMaxRetryCount 3), Some (WithBackoff second (30 * second))] = scheduledExample"
    by (simp add: assembleSched_def zero_sched_def scheduledExample_def second_def)
  moreover have "validateScheduledRetry (defaultRoute ''example-scheduled.fifo'' failingHandler) scheduledExample = None"
    by (simp add: validate_iff valid_scheduledExample defaultRoute_def)
  ultimately show ?thesis
    by (simp add: NewRoute_def scheduledExampleRoute_def clampVisibility_def minVisibilityTimeout_def go_sint defaultRoute_def)
qed

lemma scheduledMain_result:
  assumes "scheduledMain ctxErr load sqs sched [] = Some (Inr co, t)"
  obtains cfg where "co = \<lparr>coClient = apiClient (sqs cfg), coRoute = scheduledExampleRoute, coLog = NewLogger,
    coMetrics = Some loggingMetrics, coScheduler = Some (apiClient (sched cfg)), coGlobals = [],
    coRetryTimeout = defaultRetryTimeout\<rparr>"
proof -
  let ?opts = "[LoadRegion ''us-east-1'', LoadRetryer 10, LoadStaticCredentials ''test'' ''test'' [],
    LoadEndpoint ''http://localhost:4566'']"
  obtain cfg where cfg: "load ?opts = Inr cfg"
    using assms by (cases "load ?opts") (simp_all add: scheduledMain_def local_conn followedBy_def must_def)
  obtain r k where r: "newClient ctxErr (sqs cfg) [] [] = Some (r, pings k)" "\<forall>x. r = Inr x \<longrightarrow> x = apiClient (sqs cfg)"
    by (rule newClient_checked [of ctxErr "sqs cfg" "[]"]) auto
  obtain r' k' where r': "newClient ctxErr (sched cfg) [] (pings k) = Some (r', pings k @ pings k')"
    "\<forall>x. r' = Inr x \<longrightarrow> x = apiClient (sched cfg)"
    by (rule newClient_checked [of ctxErr "sched cfg" "pings k"]) auto
  show thesis
    using assms r r' cfg
    by (intro that [of cfg]) (auto simp: scheduledMain_def local_conn followedBy_def must_def construct_def newSQS_def
        newScheduler_def NewRoute_scheduled NewConsumer_def split: sum.splits)
qed

text \<open>The ids of the random generator are ASCII.\<close>

lemma valid_uuid: "validUTF8 (formatUUID b)"
proof (rule validUTF8_ascii)
  have digit: "byte (hexdigit n) < 0x80" if "n < 16" for n
    using that by (auto simp: hexdigit_def)
  have "byte c < 0x80" if "c \<in> set (hexbyte w)" for c w
  proof -
    have "unat (drop_bit 4 w) < 16" "unat (w AND 15) < 16" by simp_all
    with that digit show ?thesis by (auto simp: hexbyte_def)
  qed
  then have "\<forall>c \<in> set (hexEncode bs). byte c < 0x80" for bs by (auto simp: hexEncode_def)
  then show "\<forall>c \<in> set (formatUUID b). byte c < 0x80" by (auto simp: formatUUID_def)
qed

lemma scheduled_setup:
  assumes "scheduledMain ctxErr load sqs sched [] = Some (Inr co, t)" and "runSetup co rd now rnd t1 = (Inr d, t2)"
    and "validUTF8 (dQueueURL d)" and "\<forall>t. 0 \<le> now t \<and> now t < (315537897600 - 86400) * 1000000000"
  obtains rs p where "loop_ready d scheduledExample rs" "dRetryScheduler d = Some rs" "dDlqPublisher d = Some p"
    "dHandler d = failingHandler" "rsTargetQueueURL rs = dQueueURL d" "dpQueueURL p = dlqQueueURL"
    "coScheduler co = Some (rsClient rs)" "dpClient p = coClient co"
    "rsIdgen rs = randomGenerate rd" "dpDedup p = randomGenerate rd"
proof -
  from assms(1) obtain cfg where co: "co = \<lparr>coClient = apiClient (sqs cfg), coRoute = scheduledExampleRoute, coLog = NewLogger,
    coMetrics = Some loggingMetrics, coScheduler = Some (apiClient (sched cfg)), coGlobals = [],
    coRetryTimeout = defaultRetryTimeout\<rparr>" by (rule scheduledMain_result)
  have route: "\<not> deleteBatch scheduledExampleRoute" "retryModel scheduledExampleRoute = ScheduledRetryModel"
    by (simp_all add: scheduledExampleRoute_def defaultRoute_def)
  from assms(2) obtain url vm where d: "d = (newDispatcher (apiClient (sqs cfg)) scheduledExampleRoute url vm
      (Some (apiClient (sched cfg))) rd now rnd [])\<lparr>dMetrics := Some loggingMetrics, dBatcher := False\<rparr>"
    by (auto simp: co runSetup_def batchDeleteClient_def route Let_def split: sum.splits prod.splits)
  let ?rs = "newRetryScheduler (apiClient (sched cfg)) targetQueueARN executionRoleARN url (randomGenerate rd) now"
  let ?p = "\<lparr>dpClient = apiClient (sqs cfg), dpDedup = randomGenerate rd, dpQueueURL = dlqQueueURL\<rparr>"
  have dp: "dRetryModel d = ScheduledRetryModel" "dHandler d = failingHandler" "dScheduledRetry d = Some scheduledExample"
    "dRetryScheduler d = Some ?rs" "dDlqPublisher d = Some ?p" "dQueueURL d = url"
    by (simp_all add: d newDispatcher_def Let_def scheduledExampleRoute_def defaultRoute_def)
      (simp_all add: scheduledExample_def)
  have "polite failingHandler" by (auto simp: polite_def failingHandler_def Let_def split: option.split)
  moreover have "\<forall>t s. randomGenerate rd t [] = Inr s \<longrightarrow> validUTF8 s"
    by (auto simp: randomGenerate_def valid_uuid split: sum.splits)
  ultimately have "loop_ready d scheduledExample ?rs"
    using assms(3,4) dp by (simp add: loop_ready_def valid_scheduledExample newRetryScheduler_def)
  with dp show thesis by (intro that [of ?rs ?p]) (simp_all add: co newRetryScheduler_def)
qed

lemma random_ids:
  assumes "\<forall>t. \<exists>b. rd t = Inr b"
  shows "\<exists>u. randomGenerate rd t m = Inr u"
proof -
  obtain b where "rd t = Inr b" using assms by blast
  then show ?thesis by (simp add: randomGenerate_def)
qed

text \<open>
  C7: In the scheduled retry program every message ends in the DLQ. Let the consumer the program makes get a
  message that was not retried yet, and let schedules be fired by the local scheduler: the message comes back at
  most three times, with its body and group, counted one up each time. Each delivery is processed without a
  panic and fails; before the third retry it asks for a further schedule back to its queue, by one CreateSchedule call,
  after it for a dead letter, by one SendMessage call to the DLQ of the program. Either call is made unless the system has
  no random bytes, and the delivery is committed behind it exactly when the program's client accepted it.
\<close>

theorem scheduled_example_ends_in_dlq:
  assumes "scheduledMain ctxErr load sqs sched [] = Some (Inr co, t)" and "runSetup co rd now rnd t1 = (Inr d, t2)"
    and "validUTF8 (dQueueURL d)" and "\<forall>t. 0 \<le> now t \<and> now t < (315537897600 - 86400) * 1000000000"
    and "bounces d c parse msg k m" and "valid_message msg" and "fst (parseRetryCount msg) = 0"
  shows "k \<le> 3 \<and> sint (fst (parseRetryCount m)) = int k \<and> Body m = Body msg \<and>
    SystemAttributeByKey m messageGroupIDKey = SystemAttributeByKey msg messageGroupIDKey \<and>
    (\<exists>rs p. coScheduler co = Some (rsClient rs) \<and> rsTargetQueueURL rs = dQueueURL d \<and>
      dpClient p = coClient co \<and> dpQueueURL p = dlqQueueURL \<and>
      (\<forall>st r st1 res st'. pMsg st = m \<and> handled d c st = (r, st1) \<and> process d c st = (res, st') \<longrightarrow>
        res = Return () \<and> (\<exists>new. outcomes (pTrace st') = outcomes (pTrace st) @ new \<and>
          (if k < 3
           then asksRetry d rs scheduledExample (askTrace st1) m new \<and>
             ((\<forall>t. \<exists>b. rd t = Inr b) \<longrightarrow> (\<exists>i. take 1 new = [CallSchedule i]))
           else asksDeadLetter d p (askTrace st1) m new \<and>
             ((\<forall>t. \<exists>b. rd t = Inr b) \<longrightarrow> (\<exists>i. take 1 new = [CallSend i] \<and> deadLetter p m i))))))"
proof -
  from assms(1-4) obtain rs p where d: "loop_ready d scheduledExample rs" "dRetryScheduler d = Some rs"
    "dDlqPublisher d = Some p" "dHandler d = failingHandler" and co: "rsTargetQueueURL rs = dQueueURL d"
    "dpQueueURL p = dlqQueueURL" "coScheduler co = Some (rsClient rs)" "dpClient p = coClient co"
    and ids: "rsIdgen rs = randomGenerate rd" "dpDedup p = randomGenerate rd" by (rule scheduled_setup)
  have max: "sint (MaxRetryCount scheduledExample) = 3" by (simp add: scheduledExample_def)
  have kept: "kept scheduledExample msg k m"
    by (rule bounces_kept [OF assms(5) d(1) assms(6)]) (simp add: assms(7) max)
  have next': "sint (nextCount m) \<le> sint (MaxRetryCount scheduledExample) \<longleftrightarrow> k < 3"
    using kept_count(1) [OF valid_scheduledExample kept] assms(7) max by auto
  have ready: "dRetryModel d = ScheduledRetryModel" "polite (dHandler d)" "dScheduledRetry d = Some scheduledExample"
    using d(1) by (simp_all add: loop_ready_def)
  have "res = Return () \<and> (\<exists>new. outcomes (pTrace st') = outcomes (pTrace st) @ new \<and>
      (if k < 3
       then asksRetry d rs scheduledExample (askTrace st1) m new \<and>
         ((\<forall>t. \<exists>b. rd t = Inr b) \<longrightarrow> (\<exists>i. take 1 new = [CallSchedule i]))
       else asksDeadLetter d p (askTrace st1) m new \<and>
         ((\<forall>t. \<exists>b. rd t = Inr b) \<longrightarrow> (\<exists>i. take 1 new = [CallSend i] \<and> deadLetter p m i))))"
    if "pMsg st = m" "handled d c st = (r, st1)" "process d c st = (res, st')" for st r st1 res st'
  proof -
    note h = that(2)
    obtain x where r: "r = HRet (Some x)" using h by (auto simp: invoke_def d(4) failingHandler_def Let_def)
    have "Some x \<noteq> None \<or> BackedOff (pMsg st1)" by simp
    from failure_asks [OF scheduled_failure [OF ready d(2,3) that(2) [unfolded r] this that(3)], unfolded that(1) next' ids]
    show ?thesis using random_ids [of rd] by (cases "k < 3") (simp; metis)+
  qed
  moreover have "k \<le> 3" "sint (fst (parseRetryCount m)) = int k" "Body m = Body msg"
    "SystemAttributeByKey m messageGroupIDKey = SystemAttributeByKey msg messageGroupIDKey"
    using kept max assms(7) by (simp_all add: kept_def)
  ultimately show ?thesis using co by (intro conjI exI [of _ rs] exI [of _ p]) blast+
qed

lemma scheduled_example_ends_in_dlq_witness:
  "\<exists>co d t t2 i. scheduledMain (\<lambda>t. None) (\<lambda>opts. Inr ()) (\<lambda>_. emptyQueue)
       (\<lambda>_. \<lparr>apiClient = \<lparr>createSchedule = \<lambda>t. None\<rparr>, apiList = \<lambda>t. None\<rparr>) [] = Some (Inr co, t) \<and>
     runSetup co (\<lambda>t. Inr (replicate 16 0)) (\<lambda>t. 0) (\<lambda>n. Return 0) [] = (Inr d, t2) \<and>
     outcomes (pTrace (snd (process d exampleCtx \<lparr>pMsg = rawDelivery (\<lambda>b. zero_envelope) ''h'' (askOf True ''g'' ''{}'' []),
       pBarriers = (\<lambda>a. None), pTrace = []\<rparr>))) = [CallSchedule i, CallDelete ''https://q'' ''h'']"
proof -
  let ?load = "\<lambda>opts. Inr ()" and ?sqs = "\<lambda>_ :: unit. emptyQueue"
    and ?sched = "\<lambda>_ :: unit. \<lparr>apiClient = \<lparr>createSchedule = \<lambda>t. None\<rparr>, apiList = \<lambda>t. None\<rparr>"
    and ?m = "rawDelivery (\<lambda>b. zero_envelope) ''h'' (askOf True ''g'' ''{}'' [])"
  obtain co t where co: "scheduledMain (\<lambda>t. None) ?load ?sqs ?sched [] = Some (Inr co, t)"
    and c: "coClient co = apiClient emptyQueue" "coRoute co = scheduledExampleRoute" "coScheduler co = Some \<lparr>createSchedule = \<lambda>t. None\<rparr>"
    by (simp add: scheduledMain_def local_conn followedBy_def must_def construct_def newSQS_def newScheduler_def newClient_def
        buildClientOptions_def newClientOptions_def validate_def validateLoop.simps emptyQueue_def NewRoute_scheduled NewConsumer_def)
  obtain d t2 where d: "runSetup co (\<lambda>t. Inr (replicate 16 0)) (\<lambda>t. 0) (\<lambda>n. Return 0) [] = (Inr d, t2)" "dQueueURL d = ''https://q''"
    "\<not> dBatcher d"
    by (simp add: runSetup_def batchDeleteClient_def resolveQueueURL_def Let_def c scheduledExampleRoute_def defaultRoute_def
        emptyQueue_def newDispatcher_def)
  have url: "validUTF8 (dQueueURL d)" by (simp add: d(2) validUTF8_ascii)
  have msg: "valid_message ?m" "fst (parseRetryCount ?m) = 0"
    by (simp_all add: valid_message_def rawDelivery_def askOf_def newMessage_def Body_def SystemAttributeByKey_def
        UserMessageAttributes_def messageGroupIDKey_def validUTF8_ascii parseRetryCount_def UserMessageAttribute_def)
  define st where "st = \<lparr>pMsg = ?m, pBarriers = (\<lambda>a. None), pTrace = []\<rparr>"
  obtain res st' where p: "process d exampleCtx st = (res, st')" by force
  obtain r st1 where h: "handled d exampleCtx st = (r, st1)" by force
  have now: "\<forall>t :: trace. 0 \<le> (\<lambda>t. 0 :: int) t \<and> (\<lambda>t. 0 :: int) t < (315537897600 - 86400) * 1000000000" by simp
  have bytes: "\<forall>t :: trace. \<exists>b. (\<lambda>t. Inr (replicate 16 0) :: err + 8 word list) t = Inr b" by simp
  note ends = scheduled_example_ends_in_dlq
    [OF co d(1) url now bounces.received [where c = exampleCtx and parse = "\<lambda>b. zero_envelope"] msg]
  have at: "pMsg st = ?m \<and> handled d exampleCtx st = (r, st1) \<and> process d exampleCtx st = (res, st')"
    using h p by (simp add: st_def)
  from ends [THEN conjunct2, THEN conjunct2, THEN conjunct2, THEN conjunct2]
  have "\<exists>rs new i. coScheduler co = Some (rsClient rs) \<and> outcomes (pTrace st') = outcomes (pTrace st) @ new \<and>
      asksRetry d rs scheduledExample (askTrace st1) ?m new \<and> take 1 new = [CallSchedule i]"
    using at bytes by (simp only: zero_less_numeral if_True) blast
  then obtain rs new i where cl: "coScheduler co = Some (rsClient rs)" and out: "outcomes (pTrace st') = new"
    and ask: "asksRetry d rs scheduledExample (askTrace st1) ?m new" "take 1 new = [CallSchedule i]"
    by (auto simp: st_def)
  have "rsClient rs = \<lparr>createSchedule = \<lambda>t. None\<rparr>" using cl c(3) by simp
  then have "createSchedule (rsClient rs) t = None" for t by simp
  with ask have "new = [CallSchedule i, commitEvent d ?m]" by (auto simp: asksRetry_def split: sum.splits)
  moreover have "commitEvent d ?m = CallDelete ''https://q'' ''h''"
    by (simp add: commitEvent_def d(2,3) rawDelivery_def newMessage_def Identifier_def askOf_def)
  ultimately have "outcomes (pTrace (snd (process d exampleCtx st))) = [CallSchedule i, CallDelete ''https://q'' ''h'']"
    using out p by simp
  with co d(1) show ?thesis unfolding st_def by blast
qed

end
