(* ===== verification/Goroutines.thy ===== *)
theory Goroutines
  imports Consumer
begin

text \<open>
  All goroutines of a dispatcher (\<open>src/consumer/dispatch.go\<close>, \<open>visibility.go\<close>): the workers, each in the
  middle of a call of \<open>process\<close>, the visibility goroutine of every message, the handlers, and the
  \<open>WaitGroup\<close> that \<open>stop\<close> waits on. \<open>Worker_Pool\<close> runs \<open>process\<close> in one step; here it is the steps it
  consists of, and between any two of them every other goroutine may move.

  \<^item> The handler is any code: it may call \<open>Backoff\<close>, which blocks while the channel is full, and \<open>Dispatch\<close>,
    leave any event that is not an outcome of the dispatcher, return at any time or never. So the steps
    include those of every handler wrapped by any middlewares.
  \<^item> A state contains the state of the pool, so that its invariants and its histories are those of
    \<open>Worker_Pool\<close>; beside it what each working worker is at, the messages handed to a handler so far with the
    loop variables of their visibility goroutine, and the counter of the \<open>WaitGroup\<close>.
  \<^item> The part of \<open>process\<close> after the handler is one step (\<open>settle\<close>): of what other goroutines see, it writes the
    barrier entry of its group, closes the dispatch channel of its message, and makes its calls.
\<close>

section \<open>State\<close>

text \<open>What becomes of a message by the result of its handler, under the Visibility model.\<close>

definition settled :: "err option \<Rightarrow> message \<Rightarrow> verdict" where
  "settled err m = (if err = None \<and> \<not> BackedOff m then Committed else Failed)"

text \<open>A message whose handler was called, and the variables of its visibility goroutine.\<close>

record flying =
  yMsg :: message
  yCount :: go_int
  yExtension :: go_int32
  yReturned :: bool

text \<open>
  Where in \<open>process\<close> a working worker is: before the check of the barrier, in the handler, in the handler blocked
  in a call of \<open>Backoff\<close>, or behind the handler. The number is that of the message in flight.
\<close>

datatype stage = Fetched | Handling nat | Blocked nat duration | Handled nat "err option"

record crew =
  crPool :: pool
  crStages :: "stage list"
  crFlying :: "flying list"
  crWg :: int
  crCancelled :: bool
  crStopping :: bool
  crStopped :: bool

definition startCrew :: "dispatcher \<Rightarrow> bool \<Rightarrow> trace \<Rightarrow> crew" where
  "startCrew d cancelled t = \<lparr>crPool = startPool d t, crStages = replicate (poolSize d) Fetched, crFlying = [],
     crWg = int (poolSize d), crCancelled = cancelled, crStopping = False, crStopped = False\<rparr>"

definition goVisibility :: "visibilityManager \<Rightarrow> message \<Rightarrow> flying" where
  "goVisibility v m = \<lparr>yMsg = m, yCount = 0, yExtension = vmVisibilityTimeout v, yReturned = False\<rparr>"

abbreviation worker :: "crew \<Rightarrow> nat \<Rightarrow> worker" where
  "worker s i \<equiv> poWorkers (crPool s) ! i"

abbreviation workers :: "crew \<Rightarrow> nat" where
  "workers s \<equiv> length (poWorkers (crPool s))"

text \<open>The updates the steps are made of.\<close>

definition stageTo :: "nat \<Rightarrow> stage \<Rightarrow> crew \<Rightarrow> crew" where
  "stageTo i g s = s\<lparr>crStages := (crStages s)[i := g]\<rparr>"

definition messageTo :: "nat \<Rightarrow> message \<Rightarrow> crew \<Rightarrow> crew" where
  "messageTo a m s = s\<lparr>crFlying := (crFlying s)[a := (crFlying s ! a)\<lparr>yMsg := m\<rparr>]\<rparr>"

text \<open>\<open>return\<close> of a visibility goroutine, with its deferred \<open>wg.Done\<close>.\<close>

definition landed :: "nat \<Rightarrow> crew \<Rightarrow> crew" where
  "landed a s = s\<lparr>crFlying := (crFlying s)[a := (crFlying s ! a)\<lparr>yReturned := True\<rparr>], crWg := crWg s - 1\<rparr>"

definition traceTo :: "trace \<Rightarrow> crew \<Rightarrow> crew" where
  "traceTo t s = s\<lparr>crPool := (crPool s)\<lparr>poTrace := t\<rparr>\<rparr>"

section \<open>Steps\<close>

text \<open>The library's goroutines.\<close>

inductive crew_step :: "dispatcher \<Rightarrow> (duration \<Rightarrow> go_int32) \<Rightarrow> crew \<Rightarrow> crew \<Rightarrow> bool" for d conv where
  take: "i < workers s \<Longrightarrow> worker s i = Idle \<Longrightarrow> recv (poChannels (crPool s) ! i) = Received msg ch \<Longrightarrow>
    crew_step d conv s (stageTo i Fetched (s\<lparr>crPool := (crPool s)\<lparr>poChannels := (poChannels (crPool s))[i := ch],
      poWorkers := (poWorkers (crPool s))[i := Working msg]\<rparr>\<rparr>))"
| hold: "i < workers s \<Longrightarrow> worker s i = Working msg \<Longrightarrow> crStages s ! i = Fetched \<Longrightarrow>
    held d (processState msg (crPool s)) \<Longrightarrow>
    crew_step d conv s (s\<lparr>crPool := finish i msg Held (holdForOrder d (processState msg (crPool s))) (crPool s)\<rparr>)"
| launch: "i < workers s \<Longrightarrow> worker s i = Working msg \<Longrightarrow> crStages s ! i = Fetched \<Longrightarrow>
    \<not> held d (processState msg (crPool s)) \<Longrightarrow>
    crew_step d conv s (stageTo i (Handling (length (crFlying s))) (s\<lparr>crWg := crWg s + 1,
      crPool := recordIn [SpawnVisibility (Identifier msg)] (crPool s),
      crFlying := crFlying s @ [goVisibility (dVisibility d) msg]\<rparr>))"
| unblock: "i < workers s \<Longrightarrow> worker s i = Working msg \<Longrightarrow> crStages s ! i = Blocked a delay \<Longrightarrow>
    m = yMsg (crFlying s ! a) \<Longrightarrow> send delay (backoffChannel m) = Sent ch \<Longrightarrow>
    crew_step d conv s (stageTo i (Handling a) (messageTo a (m\<lparr>backoffChannel := ch\<rparr>) s))"
| settle: "i < workers s \<Longrightarrow> worker s i = Working msg \<Longrightarrow> crStages s ! i = Handled a err \<Longrightarrow>
    m = yMsg (crFlying s ! a) \<Longrightarrow> settle d err (processState m (crPool s)) = (Return (), st) \<Longrightarrow>
    crew_step d conv s (messageTo a (pMsg st) (s\<lparr>crPool := finish i msg (settled err m) st (crPool s)\<rparr>))"
| leave: "i < workers s \<Longrightarrow> worker s i = Idle \<Longrightarrow> recv (poChannels (crPool s) ! i) = RecvClosed \<Longrightarrow>
    crew_step d conv s (s\<lparr>crPool := (crPool s)\<lparr>poWorkers := (poWorkers (crPool s))[i := Gone]\<rparr>, crWg := crWg s - 1\<rparr>)"
| limit: "a < length (crFlying s) \<Longrightarrow> y = crFlying s ! a \<Longrightarrow> \<not> yReturned y \<Longrightarrow>
    vmExtensionLimit (dVisibility d) <s yCount y \<Longrightarrow> crew_step d conv s (landed a s)"
| got_done: "a < length (crFlying s) \<Longrightarrow> y = crFlying s ! a \<Longrightarrow> \<not> yReturned y \<Longrightarrow>
    \<not> vmExtensionLimit (dVisibility d) <s yCount y \<Longrightarrow> crCancelled s \<Longrightarrow> crew_step d conv s (landed a s)"
| got_dispatch: "a < length (crFlying s) \<Longrightarrow> y = crFlying s ! a \<Longrightarrow> \<not> yReturned y \<Longrightarrow>
    \<not> vmExtensionLimit (dVisibility d) <s yCount y \<Longrightarrow> dispatched (yMsg y) \<Longrightarrow> crew_step d conv s (landed a s)"
| got_backoff: "a < length (crFlying s) \<Longrightarrow> y = crFlying s ! a \<Longrightarrow> \<not> yReturned y \<Longrightarrow>
    \<not> vmExtensionLimit (dVisibility d) <s yCount y \<Longrightarrow> \<not> vmScheduled (dVisibility d) \<Longrightarrow>
    recv (backoffChannel (yMsg y)) = Received delay ch \<Longrightarrow>
    crew_step d conv s (landed a (messageTo a ((yMsg y)\<lparr>backoffChannel := ch\<rparr>)
      (traceTo (changeVisibility (dVisibility d) (Identifier (yMsg y)) (backoffSeconds conv delay) (poTrace (crPool s))) s)))"
| tick: "a < length (crFlying s) \<Longrightarrow> y = crFlying s ! a \<Longrightarrow> \<not> yReturned y \<Longrightarrow>
    \<not> vmExtensionLimit (dVisibility d) <s yCount y \<Longrightarrow>
    e = (if 0 <s yCount y then yExtension y + vmVisibilityTimeout (dVisibility d) else yExtension y) \<Longrightarrow>
    crew_step d conv s (traceTo (changeVisibility (dVisibility d) (Identifier (yMsg y)) e (poTrace (crPool s)))
      (s\<lparr>crFlying := (crFlying s)[a := y\<lparr>yCount := yCount y + 1, yExtension := e\<rparr>]\<rparr>))"

text \<open>The handlers: user code with the message in its hands.\<close>

inductive user_step :: "crew \<Rightarrow> crew \<Rightarrow> bool" where
  backoff: "i < workers s \<Longrightarrow> worker s i = Working msg \<Longrightarrow> crStages s ! i = Handling a \<Longrightarrow>
    Backoff delay (yMsg (crFlying s ! a)) = (m, False) \<Longrightarrow> user_step s (messageTo a m s)"
| backoff_blocks: "i < workers s \<Longrightarrow> worker s i = Working msg \<Longrightarrow> crStages s ! i = Handling a \<Longrightarrow>
    Backoff delay (yMsg (crFlying s ! a)) = (m, True) \<Longrightarrow> user_step s (stageTo i (Blocked a delay) (messageTo a m s))"
| dispatch: "i < workers s \<Longrightarrow> worker s i = Working msg \<Longrightarrow> crStages s ! i = Handling a \<Longrightarrow>
    user_step s (messageTo a (Dispatch (yMsg (crFlying s ! a))) s)"
| emit: "i < workers s \<Longrightarrow> worker s i = Working msg \<Longrightarrow> crStages s ! i = Handling a \<Longrightarrow>
    \<not> isOutcome e \<Longrightarrow> user_step s (s\<lparr>crPool := recordIn [e] (crPool s)\<rparr>)"
| returns: "i < workers s \<Longrightarrow> worker s i = Working msg \<Longrightarrow> crStages s ! i = Handling a \<Longrightarrow>
    user_step s (stageTo i (Handled a err) s)"

text \<open>
  The goroutine of the polling loop, and the cancellation: events of the loop, a barrier for a new batch, \<open>dispatch\<close>
  of a message of a batch, and \<open>stop\<close>, which closes the channels and waits for the counter to be zero. A panic has no
  step here: of \<open>dispatch\<close> and of \<open>close\<close> it cannot happen (theory \<open>Consumer\<close>), and one of a handler ends the program.
\<close>

inductive poll_step :: "dispatcher \<Rightarrow> (string \<Rightarrow> sns_envelope) \<Rightarrow> crew \<Rightarrow> crew \<Rightarrow> bool" for d parse where
  cancel: "poll_step d parse s (s\<lparr>crCancelled := True\<rparr>)"
| poll: "\<not> crStopping s \<Longrightarrow> \<not> isOutcome e \<Longrightarrow> poll_step d parse s (s\<lparr>crPool := recordIn [e] (crPool s)\<rparr>)"
| batch: "\<not> crStopping s \<Longrightarrow> orderedGroups d \<Longrightarrow> poBarriers (crPool s) a = None \<Longrightarrow>
    poll_step d parse s (s\<lparr>crPool := (crPool s)\<lparr>poBarriers := (poBarriers (crPool s))(a := newBatchBarrier d)\<rparr>\<rparr>)"
| deliver: "\<not> crStopping s \<Longrightarrow> legalRand rnd \<Longrightarrow> m \<in> set (deliveries parse b ms) \<Longrightarrow>
    (case b of None \<Rightarrow> \<not> orderedGroups d | Some a \<Rightarrow> orderedGroups d \<and> poBarriers (crPool s) a \<noteq> None) \<Longrightarrow>
    workerIndex (d\<lparr>dRandIntN := rnd\<rparr>) m = (Return w, m') \<Longrightarrow>
    enqueue w m' (crPool s) = Enqueued p \<Longrightarrow> poll_step d parse s (s\<lparr>crPool := p\<rparr>)"
| stop: "\<not> crStopping s \<Longrightarrow> closeAll (poChannels (crPool s)) = Return chs \<Longrightarrow>
    poll_step d parse s (s\<lparr>crStopping := True, crPool := (crPool s)\<lparr>poChannels := chs\<rparr>\<rparr>)"
| waited: "crStopping s \<Longrightarrow> \<not> crStopped s \<Longrightarrow> crWg s = 0 \<Longrightarrow> poll_step d parse s (s\<lparr>crStopped := True\<rparr>)"

definition any_step :: "dispatcher \<Rightarrow> (duration \<Rightarrow> go_int32) \<Rightarrow> (string \<Rightarrow> sns_envelope) \<Rightarrow> crew \<Rightarrow> crew \<Rightarrow> bool" where
  "any_step d conv parse s s' \<longleftrightarrow> crew_step d conv s s' \<or> user_step s s' \<or> poll_step d parse s s'"

definition crewed :: "dispatcher \<Rightarrow> (duration \<Rightarrow> go_int32) \<Rightarrow> (string \<Rightarrow> sns_envelope) \<Rightarrow> crew \<Rightarrow> bool" where
  "crewed d conv parse s \<longleftrightarrow> (\<exists>cancelled t. commits t = [] \<and> (any_step d conv parse)\<^sup>*\<^sup>* (startCrew d cancelled t) s)"

section \<open>The pool in the crew\<close>

lemma update_simps [simp]:
  "crPool (stageTo i g s) = crPool s" "crFlying (stageTo i g s) = crFlying s" "crWg (stageTo i g s) = crWg s"
  "crStages (stageTo i g s) = (crStages s)[i := g]"
  "crPool (messageTo a m s) = crPool s" "crStages (messageTo a m s) = crStages s" "crWg (messageTo a m s) = crWg s"
  "crFlying (messageTo a m s) = (crFlying s)[a := (crFlying s ! a)\<lparr>yMsg := m\<rparr>]"
  "crPool (landed a s) = crPool s" "crStages (landed a s) = crStages s" "crWg (landed a s) = crWg s - 1"
  "crFlying (landed a s) = (crFlying s)[a := (crFlying s ! a)\<lparr>yReturned := True\<rparr>]"
  "crPool (traceTo t s) = (crPool s)\<lparr>poTrace := t\<rparr>" "crStages (traceTo t s) = crStages s"
  "crFlying (traceTo t s) = crFlying s" "crWg (traceTo t s) = crWg s"
  by (simp_all add: stageTo_def messageTo_def landed_def traceTo_def)

lemma update_flags [simp]:
  "crStopping (stageTo i g s) = crStopping s" "crStopping (messageTo a m s) = crStopping s"
  "crStopping (landed a s) = crStopping s" "crStopping (traceTo t s) = crStopping s"
  "crStopped (stageTo i g s) = crStopped s" "crStopped (messageTo a m s) = crStopped s"
  "crStopped (landed a s) = crStopped s" "crStopped (traceTo t s) = crStopped s"
  by (simp_all add: stageTo_def messageTo_def landed_def traceTo_def)

lemma recordIn_simps [simp]: "poWorkers (recordIn es p) = poWorkers p" "poChannels (recordIn es p) = poChannels p"
  "poBarriers (recordIn es p) = poBarriers p" "poSent (recordIn es p) = poSent p" "poDone (recordIn es p) = poDone p"
  "poTrace (recordIn es p) = poTrace p @ es"
  by (simp_all add: recordIn_def)

lemma commits_quiet: "\<not> isOutcome e \<Longrightarrow> commits [e] = []"
  by (cases e) simp_all

lemma pool_inv_finish:
  assumes "pool_inv d p" and "i < length (poWorkers p)" and "poWorkers p ! i = Working msg"
  shows "pool_inv d (finish i msg v st p)"
proof -
  note inv = pool_invD [OF assms(1)]
  have i: "i < poolSize d" using assms(2) inv by simp
  have "sentTo p i = doneBy (finish i msg v st p) i @ buf (poChannels p ! i)"
    using inv(4) [OF i] assms(3) by (simp add: doneBy_def)
  with assms i show ?thesis
    unfolding pool_inv_def by (auto simp: sentTo_def doneBy_def nth_list_update)
qed

lemma pool_inv_trace [simp]: "pool_inv d (p\<lparr>poTrace := t\<rparr>) = pool_inv d p"
  "pool_inv d (recordIn es p) = pool_inv d p" "pool_inv d (p\<lparr>poBarriers := b\<rparr>) = pool_inv d p"
  by (rule pool_inv_cong; simp)+

lemma crew_step_pool_inv:
  assumes "crew_step d conv s s'" and "pool_inv d (crPool s)"
  shows "pool_inv d (crPool s')"
  using assms
proof (induction rule: crew_step.induct)
  case (take i s msg ch)
  from pool_step_inv [OF take(4) pool_step.take [OF take(1-3)]] show ?case by simp
next
  case (leave i s)
  from pool_step_inv [OF leave(4) pool_step.leave [OF leave(1-3)]] show ?case by simp
qed (simp_all add: pool_inv_finish)

lemma user_step_pool:
  assumes "user_step s s'"
  shows "pool_inv d (crPool s') = pool_inv d (crPool s)" "poWorkers (crPool s') = poWorkers (crPool s)"
    "poSent (crPool s') = poSent (crPool s)" "poDone (crPool s') = poDone (crPool s)"
    "poBarriers (crPool s') = poBarriers (crPool s)" "poChannels (crPool s') = poChannels (crPool s)"
    "commits (poTrace (crPool s')) = commits (poTrace (crPool s))"
  using assms by (induction) (simp_all add: commits_quiet)

lemma poll_step_pool_inv:
  assumes "poll_step d parse s s'" and "pool_inv d (crPool s)"
  shows "pool_inv d (crPool s')"
  using assms
proof (induction rule: poll_step.induct)
  case (deliver s rnd m b ms w m' p)
  from enqueue_inv [OF deliver(7,6)] show ?case by simp
next
  case (stop s chs)
  from closeAll_Return [OF stop(2)] pool_inv_close [OF stop(3)] show ?case by simp
qed simp_all

section \<open>Messages in flight\<close>

fun flightOf :: "stage \<Rightarrow> nat option" where
  "flightOf Fetched = None"
| "flightOf (Handling a) = Some a"
| "flightOf (Blocked a delay) = Some a"
| "flightOf (Handled a err) = Some a"

definition flies :: "crew \<Rightarrow> nat \<Rightarrow> message \<Rightarrow> nat \<Rightarrow> bool" where
  "flies s i msg a \<longleftrightarrow> i < workers s \<and> worker s i = Working msg \<and> flightOf (crStages s ! i) = Some a"

lemma goVisibility_simps [simp]: "yMsg (goVisibility v m) = m" "yCount (goVisibility v m) = 0"
  "\<not> yReturned (goVisibility v m)"
  by (simp_all add: goVisibility_def)

definition sameMessage :: "message \<Rightarrow> message \<Rightarrow> bool" where
  "sameMessage m m' \<longleftrightarrow> original m = original m' \<and> barrier m = barrier m' \<and> groupKey m = groupKey m'"

text \<open>Every message in the hands of a handler is in flight, and of one worker only.\<close>

definition link_inv :: "dispatcher \<Rightarrow> crew \<Rightarrow> bool" where
  "link_inv d s \<longleftrightarrow> workers s = poolSize d \<and> length (crStages s) = poolSize d \<and>
     (\<forall>i msg a. flies s i msg a \<longrightarrow> a < length (crFlying s) \<and> sameMessage (yMsg (crFlying s ! a)) msg) \<and>
     (\<forall>i j msg msg' a. flies s i msg a \<longrightarrow> flies s j msg' a \<longrightarrow> i = j)"

lemma link_inv_keep:
  assumes "link_inv d s" and "workers s' = workers s" "length (crStages s') = length (crStages s)"
    and "length (crFlying s') = length (crFlying s)"
    and "\<And>i msg a. flies s' i msg a \<Longrightarrow> flies s i msg a"
    and "\<And>a. a < length (crFlying s) \<Longrightarrow> sameMessage (yMsg (crFlying s' ! a)) (yMsg (crFlying s ! a))"
  shows "link_inv d s'"
proof -
  note old = assms(1) [unfolded link_inv_def]
  have "a < length (crFlying s') \<and> sameMessage (yMsg (crFlying s' ! a)) msg" if "flies s' i msg a" for i msg a
  proof -
    have a: "a < length (crFlying s)" "sameMessage (yMsg (crFlying s ! a)) msg"
      using old assms(5) [OF that] by blast+
    then show ?thesis using assms(4) assms(6) [OF a(1)] by (simp add: sameMessage_def)
  qed
  moreover have "i = j" if "flies s' i msg a" "flies s' j msg' a" for i j msg msg' a
    using old assms(5) [OF that(1)] assms(5) [OF that(2)] by blast
  ultimately show ?thesis using old assms(2,3) unfolding link_inv_def by simp
qed

lemma sameMessage_refl [simp]: "sameMessage m m" "sameMessage (m\<lparr>backoffChannel := c\<rparr>) m" "sameMessage (Dispatch m) m"
  by (simp_all add: sameMessage_def)

lemma sameMessage_Backoff: "Backoff delay m = (m', b) \<Longrightarrow> sameMessage m' m"
  by (auto simp: Backoff_def Let_def sameMessage_def split: sent.splits)

lemma processScheduled_msg:
  "pMsg (snd (processScheduled d err st)) = Dispatch (pMsg st)"
  unfolding processScheduled_def Let_def retained_def
  by (auto split: prod.split option.split)

lemma settle_msg:
  assumes "settle d err st = (r, st')"
  shows "pMsg st' = Dispatch (pMsg st) \<or>
    pMsg st' = pMsg st \<and> BackedOff (pMsg st) \<and> dRetryModel d \<noteq> ScheduledRetryModel"
proof (cases "dRetryModel d = ScheduledRetryModel")
  case True
  with assms have "processScheduled d err st = (r, st')" by (simp add: settle_def)
  with processScheduled_msg [of d err st] show ?thesis by simp
next
  case vis: False
  show ?thesis
  proof (cases "BackedOff (pMsg st)")
    case True
    then show ?thesis using assms vis by (simp add: settle_def) (metis failGroup_simps(1))
  next
    case False
    let ?st = "st\<lparr>pMsg := Dispatch (pMsg st)\<rparr>"
    obtain o1 st1 where obs: "observeDLQ d (failGroup d ?st) = (o1, st1)" by force
    then have m: "pMsg st1 = Dispatch (pMsg st)" using observeDLQ_spec(3) [OF obs] by simp
    have "pMsg (snd (settle d err st)) = Dispatch (pMsg st)"
      using vis False obs m by (simp add: settle_def Let_def split: option.split outcome.split bool.split)
    with assms show ?thesis by simp
  qed
qed

lemma sameMessage_settle: "settle d err st = (r, st') \<Longrightarrow> sameMessage (pMsg st') (pMsg st)"
  using settle_msg by fastforce

text \<open>Updates of one message in flight, and of the stage of one worker.\<close>

lemma nth_update_same:
  "sameMessage (yMsg y) (yMsg (ys ! a)) \<Longrightarrow> sameMessage (yMsg (ys[a := y] ! b)) (yMsg (ys ! b))"
  by (cases "a < length ys"; cases "b = a") (simp_all add: list_update_beyond)

lemma link_inv_crew:
  assumes "crew_step d conv s s'" and "link_inv d s"
  shows "link_inv d s'"
  using assms
proof (induction rule: crew_step.induct)
  case (take i s msg ch)
  then show ?case
    by (intro link_inv_keep [OF take(4)]) (auto simp: flies_def nth_list_update link_inv_def split: if_splits)
next
  case (hold i s msg)
  then show ?case
    by (intro link_inv_keep [OF hold(5)]) (auto simp: flies_def nth_list_update split: if_splits)
next
  case (launch i s msg)
  let ?s' = "stageTo i (Handling (length (crFlying s))) (s\<lparr>crWg := crWg s + 1,
      crPool := recordIn [SpawnVisibility (Identifier msg)] (crPool s),
      crFlying := crFlying s @ [goVisibility (dVisibility d) msg]\<rparr>)"
  have f: "flies ?s' j m a \<longleftrightarrow> (if j = i then m = msg \<and> a = length (crFlying s) else flies s j m a)" for j m a
    using launch by (auto simp: flies_def nth_list_update link_inv_def)
  have "a < length (crFlying s) \<and> sameMessage (yMsg (crFlying s ! a)) m" if "flies s j m a" for j m a
    using launch(5) that by (auto simp: link_inv_def)
  then have old: "a < Suc (length (crFlying s))" "a \<noteq> length (crFlying s)"
    "sameMessage (yMsg (crFlying s ! a)) m" if "flies s j m a" for j m a
    using that by (metis less_SucI, metis less_irrefl, metis)
  have "\<forall>j m a. flies ?s' j m a \<longrightarrow> a < length (crFlying ?s') \<and> sameMessage (yMsg (crFlying ?s' ! a)) m"
    using old(1,2,3) by (auto simp: f nth_append less_Suc_eq split: if_splits)
  moreover have "\<forall>j k m m' a. flies ?s' j m a \<longrightarrow> flies ?s' k m' a \<longrightarrow> j = k"
    using launch(5) old(2) by (auto simp: f link_inv_def split: if_splits)
  ultimately show ?case using launch(5) by (simp add: link_inv_def)
next
  case (unblock i s msg a delay m ch)
  then show ?case
    by (intro link_inv_keep [OF unblock(6)] nth_update_same)
      (auto simp: flies_def nth_list_update link_inv_def intro!: nth_update_same split: if_splits)
next
  case (settle i s msg a err m st)
  have "sameMessage (pMsg st) (yMsg (crFlying s ! a))"
    using sameMessage_settle [OF settle(5)] settle(4) by (simp add: processState_def)
  with settle show ?case
    by (intro link_inv_keep [OF settle(6)])
      (auto simp: flies_def nth_list_update intro!: nth_update_same split: if_splits)
next
  case (leave i s)
  then show ?case
    by (intro link_inv_keep [OF leave(4)]) (auto simp: flies_def nth_list_update split: if_splits)
qed (erule link_inv_keep; auto simp: flies_def intro!: nth_update_same)+

lemma link_inv_user:
  assumes "user_step s s'" and "link_inv d s"
  shows "link_inv d s'"
  using assms
proof (induction rule: user_step.induct)
  case (backoff i s msg a delay m)
  from sameMessage_Backoff [OF backoff(4)] show ?case
    by (intro link_inv_keep [OF backoff(5)]) (auto simp: flies_def intro!: nth_update_same)
next
  case (backoff_blocks i s msg a delay m)
  with sameMessage_Backoff [OF backoff_blocks(4)] show ?case
    by (intro link_inv_keep [OF backoff_blocks(5)])
      (auto simp: flies_def nth_list_update link_inv_def intro!: nth_update_same split: if_splits)
next
  case (returns i s msg a err)
  then show ?case
    by (intro link_inv_keep [OF returns(4)]) (auto simp: flies_def nth_list_update link_inv_def split: if_splits)
qed (erule link_inv_keep; auto simp: flies_def intro!: nth_update_same)+

lemma link_inv_poll:
  assumes "poll_step d parse s s'" and "link_inv d s"
  shows "link_inv d s'"
  using assms
proof (induction rule: poll_step.induct)
  case (deliver s rnd m b ms w m' p)
  from enqueue_keeps [OF deliver(6)] show ?case
    by (intro link_inv_keep [OF deliver(7)]) (auto simp: flies_def)
qed (erule link_inv_keep; simp add: flies_def)+

section \<open>How a visibility goroutine ends\<close>

definition fresh :: "message \<Rightarrow> bool" where
  "fresh m \<longleftrightarrow> backoffChannel m = make_chan 1 \<and> \<not> dispatched m \<and> \<not> BackedOff m"

text \<open>The backoff channel of a message in flight, and when its goroutine has a signal to return on.\<close>

definition mailbox :: "visibilityManager \<Rightarrow> flying \<Rightarrow> bool" where
  "mailbox v y \<longleftrightarrow> (let ch = backoffChannel (yMsg y) in chan_ok ch \<and> cap ch = 1 \<and> \<not> closed ch \<and>
     (BackedOff (yMsg y) \<longrightarrow> buf ch \<noteq> [] \<or> yReturned y \<or> vmScheduled v))"

definition ending :: "visibilityManager \<Rightarrow> flying \<Rightarrow> bool" where
  "ending v y \<longleftrightarrow> dispatched (yMsg y) \<or> yReturned y \<or> \<not> vmScheduled v \<and> buf (backoffChannel (yMsg y)) \<noteq> []"

definition flying_inv :: "dispatcher \<Rightarrow> crew \<Rightarrow> bool" where
  "flying_inv d s \<longleftrightarrow> (\<forall>x \<in> set (poSent (crPool s)). fresh (snd x)) \<and>
     (\<forall>a < length (crFlying s). mailbox (dVisibility d) (crFlying s ! a) \<and>
        ((\<nexists>i msg. flies s i msg a) \<longrightarrow> ending (dVisibility d) (crFlying s ! a)))"

definition grows :: "visibilityManager \<Rightarrow> flying \<Rightarrow> flying \<Rightarrow> bool" where
  "grows v y y' \<longleftrightarrow> (mailbox v y \<longrightarrow> mailbox v y' \<and> (ending v y \<longrightarrow> ending v y'))"

lemma grows_refl [simp]: "grows v y y"
  by (simp add: grows_def)

lemma grows_update: "(\<And>y. y = ys ! a \<Longrightarrow> grows v y y') \<Longrightarrow> grows v (ys ! b) (ys[a := y'] ! b)"
  by (cases "a < length ys"; cases "b = a") (simp_all add: list_update_beyond)

lemma grows_send:
  assumes "send delay (backoffChannel (yMsg y)) = Sent ch" and "backoffChannel m = ch"
    and "dispatched m = dispatched (yMsg y)"
  shows "grows v y (y\<lparr>yMsg := m\<rparr>)"
proof (cases "mailbox v y")
  case True
  then have ok: "chan_ok (backoffChannel (yMsg y))" by (simp add: mailbox_def Let_def)
  have "cap ch = cap (backoffChannel (yMsg y))" using assms(1) by (auto simp: send_def split: if_splits)
  with True ch.send_Sent [OF ok assms(1)] assms(2,3) show ?thesis
    by (simp add: grows_def mailbox_def ending_def Let_def)
qed (simp add: grows_def)

lemma grows_Backoff:
  assumes "Backoff delay (yMsg y) = (m, b)"
  shows "grows v y (y\<lparr>yMsg := m\<rparr>)"
proof (cases b)
  case False
  with assms obtain ch where "send delay (backoffChannel (yMsg y)) = Sent ch" "backoffChannel m = ch"
    "dispatched m = dispatched (yMsg y)" by (auto simp: Backoff_def Let_def split: sent.splits)
  then show ?thesis by (rule grows_send)
next
  case True
  show ?thesis
  proof (cases "mailbox v y")
    case mb: True
    have m: "backoffChannel m = backoffChannel (yMsg y)" "dispatched m = dispatched (yMsg y)"
      and full: "\<nexists>ch. send delay (backoffChannel (yMsg y)) = Sent ch"
      using assms True by (auto simp: Backoff_def Let_def split: sent.splits)
    have "buf (backoffChannel (yMsg y)) \<noteq> []"
      using full mb by (auto simp: mailbox_def Let_def send_def)
    with mb m show ?thesis by (simp add: grows_def mailbox_def ending_def Let_def)
  qed (simp add: grows_def)
qed

lemma grows_received:
  assumes "recv (backoffChannel (yMsg y)) = Received delay ch"
  shows "grows v y (y\<lparr>yMsg := (yMsg y)\<lparr>backoffChannel := ch\<rparr>, yReturned := True\<rparr>)"
proof (cases "mailbox v y")
  case True
  then have ok: "chan_ok (backoffChannel (yMsg y))" by (simp add: mailbox_def Let_def)
  have "cap ch = cap (backoffChannel (yMsg y))" using assms by (auto simp: recv_def split: list.splits if_splits)
  with True ch.recv_Received [OF ok assms] show ?thesis
    by (simp add: grows_def mailbox_def ending_def Let_def)
qed (simp add: grows_def)

lemma grows_other [simp]: "grows v y (y\<lparr>yReturned := True\<rparr>)"
  "grows v y (y\<lparr>yCount := n, yExtension := e\<rparr>)" "grows v y (y\<lparr>yMsg := Dispatch (yMsg y)\<rparr>)"
  by (simp_all add: grows_def mailbox_def ending_def Let_def BackedOff_def) (simp_all add: Dispatch_def)

lemma grows_settle:
  assumes "settle d err st = (r, st')" and "pMsg st = yMsg y"
  shows "grows v y (y\<lparr>yMsg := pMsg st'\<rparr>)"
  using settle_msg [OF assms(1)] assms(2) by fastforce

text \<open>A message is behind \<open>settle\<close> only with a signal for its goroutine, when the manager is the one of its model.\<close>

lemma ending_settle:
  assumes "settle d err st = (r, st')" and "pMsg st = yMsg y" and "mailbox v y"
    and "vmScheduled v \<Longrightarrow> dRetryModel d = ScheduledRetryModel"
  shows "ending v (y\<lparr>yMsg := pMsg st'\<rparr>)"
  using settle_msg [OF assms(1)]
proof
  assume "pMsg st' = Dispatch (pMsg st)"
  then show ?thesis by (simp add: ending_def Dispatch_def)
next
  assume "pMsg st' = pMsg st \<and> BackedOff (pMsg st) \<and> dRetryModel d \<noteq> ScheduledRetryModel"
  then show ?thesis using assms(2,3,4) by (auto simp: ending_def mailbox_def Let_def)
qed

lemma flying_inv_keep:
  assumes "flying_inv d s" and "poSent (crPool s') = poSent (crPool s)"
    and "length (crFlying s') = length (crFlying s)"
    and "\<And>i msg a. flies s i msg a \<Longrightarrow> flies s' i msg a"
    and "\<And>a. a < length (crFlying s) \<Longrightarrow> grows (dVisibility d) (crFlying s ! a) (crFlying s' ! a)"
  shows "flying_inv d s'"
proof -
  have "mailbox (dVisibility d) (crFlying s' ! a) \<and> ((\<nexists>i msg. flies s' i msg a) \<longrightarrow> ending (dVisibility d) (crFlying s' ! a))"
    if "a < length (crFlying s)" for a
    using assms(1) that assms(4) assms(5) [OF that] unfolding flying_inv_def grows_def by blast
  with assms show ?thesis unfolding flying_inv_def by simp
qed

lemma flying_inv_stage:
  assumes "flying_inv d s" and "flies s i msg a" and "s' = stageTo i g (messageTo a m s)"
    and "flightOf g = Some a" and "i < length (crStages s)"
    and "grows (dVisibility d) (crFlying s ! a) ((crFlying s ! a)\<lparr>yMsg := m\<rparr>)"
  shows "flying_inv d s'"
  by (rule flying_inv_keep [OF assms(1)])
    (use assms in \<open>auto simp: flies_def nth_list_update intro!: grows_update\<close>)

lemma fresh_goVisibility: "fresh m \<Longrightarrow> mailbox v (goVisibility v m)"
  by (simp add: fresh_def mailbox_def Let_def) (simp add: make_chan_def)

lemma fresh_dispatched:
  assumes "m \<in> set (deliveries parse b ms)" and "workerIndex d m = (r, m')"
  shows "fresh m'"
  using assms by (auto simp: deliveries_def newMessage_def workerIndex_def Let_def fresh_def BackedOff_def split: if_splits)

lemma flying_inv_launch:
  assumes "flying_inv d s" and "link_inv d s" and "pool_inv d (crPool s)"
    and "i < workers s" "worker s i = Working msg" "crStages s ! i = Fetched"
  shows "flying_inv d (stageTo i (Handling (length (crFlying s))) (s\<lparr>crWg := crWg s + 1,
    crPool := recordIn [SpawnVisibility (Identifier msg)] (crPool s),
    crFlying := crFlying s @ [goVisibility (dVisibility d) msg]\<rparr>))" (is "flying_inv d ?s'")
proof -
  let ?n = "length (crFlying s)"
  have len: "i < length (crStages s)" using assms(2,4) by (simp add: link_inv_def)
  have "fresh msg" using assms(1) sent_working [OF assms(3-5)] by (force simp: flying_inv_def)
  then have box: "mailbox (dVisibility d) (goVisibility (dVisibility d) msg)" by (rule fresh_goVisibility)
  have f: "flies ?s' j m a" if "flies s j m a" for j m a
    using that assms(6) by (cases "j = i") (auto simp: flies_def)
  have new: "flies ?s' i msg ?n" using assms(4,5) len by (simp add: flies_def)
  have "mailbox (dVisibility d) (crFlying ?s' ! a) \<and> ((\<nexists>j m. flies ?s' j m a) \<longrightarrow> ending (dVisibility d) (crFlying ?s' ! a))"
    if "a < Suc ?n" for a
  proof (cases "a = ?n")
    case True
    then show ?thesis using new box by auto
  next
    case False
    with that have "a < ?n" "crFlying ?s' ! a = crFlying s ! a" by (simp_all add: nth_append)
    then show ?thesis using assms(1) f unfolding flying_inv_def by metis
  qed
  with assms(1) show ?thesis unfolding flying_inv_def by simp
qed

lemma flying_inv_settle:
  assumes "flying_inv d s" and "link_inv d s" and managed: "vmScheduled (dVisibility d) \<Longrightarrow> dRetryModel d = ScheduledRetryModel"
    and "i < workers s" "worker s i = Working msg" "crStages s ! i = Handled a err" "m = yMsg (crFlying s ! a)"
    and settle: "settle d err (processState m (crPool s)) = (Return (), st)"
  shows "flying_inv d (messageTo a (pMsg st) (s\<lparr>crPool := finish i msg (settled err m) st (crPool s)\<rparr>))"
    (is "flying_inv d ?s'")
proof -
  let ?y = "(crFlying s ! a)\<lparr>yMsg := pMsg st\<rparr>"
  have m: "pMsg (processState m (crPool s)) = yMsg (crFlying s ! a)" using assms(7) by (simp add: processState_def)
  have fl: "flies s i msg a" using assms(4-6) by (simp add: flies_def)
  then have a: "a < length (crFlying s)" using assms(2) by (auto simp: link_inv_def)
  then have box: "mailbox (dVisibility d) (crFlying s ! a)" using assms(1) by (simp add: flying_inv_def)
  have end': "ending (dVisibility d) ?y" by (rule ending_settle [OF settle m box managed])
  have grow: "grows (dVisibility d) (crFlying s ! b) (crFlying ?s' ! b)" for b
    using grows_settle [OF settle m] by (simp add: grows_update)
  have f: "flies ?s' j m' b" if "flies s j m' b" "b \<noteq> a" for j m' b
    using that assms(6) by (cases "j = i") (auto simp: flies_def)
  have "mailbox (dVisibility d) (crFlying ?s' ! b) \<and> ((\<nexists>j m'. flies ?s' j m' b) \<longrightarrow> ending (dVisibility d) (crFlying ?s' ! b))"
    if "b < length (crFlying s)" for b
  proof (cases "b = a")
    case True
    then show ?thesis using grow [of b] box end' that by (simp add: grows_def)
  next
    case False
    then show ?thesis using grow [of b] f assms(1) that unfolding flying_inv_def grows_def by blast
  qed
  with assms(1) show ?thesis unfolding flying_inv_def by simp
qed

lemma flying_inv_crew:
  assumes "crew_step d conv s s'" and "flying_inv d s" and "link_inv d s" and "pool_inv d (crPool s)"
    and managed: "vmScheduled (dVisibility d) \<Longrightarrow> dRetryModel d = ScheduledRetryModel"
  shows "flying_inv d s'"
  using assms(1-4)
proof (induction rule: crew_step.induct)
  case (take i s msg ch)
  then show ?case by (intro flying_inv_keep [OF take(4)]) (auto simp: flies_def nth_list_update)
next
  case (hold i s msg)
  then show ?case by (intro flying_inv_keep [OF hold(5)]) (auto simp: flies_def nth_list_update)
next
  case (launch i s msg)
  from flying_inv_launch [OF launch(5-7,1-3)] show ?case .
next
  case (unblock i s msg a delay m ch)
  have "flies s i msg a" using unblock(1-3) by (simp add: flies_def)
  from flying_inv_stage [OF unblock(6) this refl] show ?case
    using unblock(1,4,5,7) by (simp add: link_inv_def grows_send)
next
  case (settle i s msg a err m st)
  from flying_inv_settle [OF settle(6,7) managed settle(1-5)] show ?case .
next
  case (leave i s)
  then show ?case by (intro flying_inv_keep [OF leave(4)]) (auto simp: flies_def nth_list_update)
next
  case (got_backoff a s y delay ch)
  then show ?case
    by (intro flying_inv_keep [OF got_backoff(7)]) (auto simp: flies_def grows_received intro!: grows_update)
next
  case (tick a s y e)
  have "grows (dVisibility d) y (y\<lparr>yCount := yCount y + 1, yExtension := e\<rparr>)" by simp
  then show ?case
    by (intro flying_inv_keep [OF tick(6)]) (auto simp: flies_def tick(2) intro!: grows_update)
qed (erule flying_inv_keep; auto simp: flies_def intro!: grows_update)+

lemma flying_inv_user:
  assumes "user_step s s'" and "flying_inv d s" and "link_inv d s"
  shows "flying_inv d s'"
  using assms
proof (induction rule: user_step.induct)
  case (backoff i s msg a delay m)
  from grows_Backoff [OF backoff(4)] show ?case
    by (intro flying_inv_keep [OF backoff(5)]) (auto simp: flies_def intro!: grows_update)
next
  case (backoff_blocks i s msg a delay m)
  have "flies s i msg a" using backoff_blocks(1-3) by (simp add: flies_def)
  from flying_inv_stage [OF backoff_blocks(5) this refl] show ?case
    using backoff_blocks(1,6) grows_Backoff [OF backoff_blocks(4)] by (simp add: link_inv_def)
next
  case (returns i s msg a err)
  then show ?case
    by (intro flying_inv_keep [OF returns(4)]) (auto simp: flies_def nth_list_update link_inv_def)
qed (erule flying_inv_keep; auto simp: flies_def intro!: grows_update)+

lemma flying_inv_poll:
  assumes "poll_step d parse s s'" and "flying_inv d s"
  shows "flying_inv d s'"
  using assms
proof (induction rule: poll_step.induct)
  case (deliver s rnd m b ms w m' p)
  have "fresh m'" by (rule fresh_dispatched [OF deliver(3,5)])
  with deliver(7) enqueue_keeps [OF deliver(6)] show ?case
    by (auto simp: flying_inv_def flies_def)
qed (simp_all add: flying_inv_def flies_def)

section \<open>The WaitGroup\<close>

fun present :: "worker \<Rightarrow> nat" where
  "present Gone = 0" | "present w = 1"

definition airborne :: "flying \<Rightarrow> nat" where
  "airborne y = (if yReturned y then 0 else 1)"

text \<open>The goroutines there are: workers that have not left, visibility goroutines that have not returned.\<close>

definition live :: "crew \<Rightarrow> nat" where
  "live s = sum_list (map present (poWorkers (crPool s))) + sum_list (map airborne (crFlying s))"

definition wg_inv :: "crew \<Rightarrow> bool" where
  "wg_inv s \<longleftrightarrow> crWg s = int (live s) \<and> (crStopped s \<longrightarrow> crStopping s \<and> live s = 0)"

lemma present_update:
  "i < length ws \<Longrightarrow> ws ! i \<noteq> Gone \<Longrightarrow> w \<noteq> Gone \<Longrightarrow> sum_list (map present (ws[i := w])) = sum_list (map present ws)"
  using sum_list_update_plus [of i ws present w] by (cases "ws ! i"; cases w) simp_all

lemma airborne_update:
  "yReturned y = yReturned (ys ! a) \<Longrightarrow> sum_list (map airborne (ys[a := y])) = sum_list (map airborne ys)"
  using sum_list_update_plus [of a ys airborne y]
  by (cases "a < length ys") (simp_all add: airborne_def list_update_beyond)

lemma live_none:
  assumes "live s = 0"
  shows "i < workers s \<Longrightarrow> worker s i = Gone" "a < length (crFlying s) \<Longrightarrow> yReturned (crFlying s ! a)"
proof -
  assume "i < workers s"
  with assms have "present (worker s i) = 0" by (auto simp: live_def)
  then show "worker s i = Gone" by (cases "worker s i") simp_all
next
  assume "a < length (crFlying s)"
  with assms have "airborne (crFlying s ! a) = 0" by (auto simp: live_def)
  then show "yReturned (crFlying s ! a)" by (simp add: airborne_def split: if_splits)
qed

text \<open>Nothing is left that could move.\<close>

lemma live_none_rests:
  assumes "live s = 0"
  shows "\<not> crew_step d conv s s'" "\<not> user_step s s'"
proof -
  show "\<not> crew_step d conv s s'"
  proof
    assume "crew_step d conv s s'"
    then show False by cases (use live_none [OF assms] in \<open>fastforce+\<close>)
  qed
  show "\<not> user_step s s'"
  proof
    assume "user_step s s'"
    then show False by cases (use live_none [OF assms] in \<open>fastforce+\<close>)
  qed
qed

lemma live_landed:
  assumes "a < length (crFlying s)" and "\<not> yReturned (crFlying s ! a)"
  shows "live (landed a s) + 1 = live s"
  using sum_list_update_plus [OF assms(1), of airborne "(crFlying s ! a)\<lparr>yReturned := True\<rparr>"] assms(2)
  by (simp add: live_def airborne_def)

lemma live_simps [simp]: "live (stageTo i g s) = live s" "live (messageTo a m s) = live s" "live (traceTo t s) = live s"
  by (simp_all add: live_def airborne_update)

lemma wg_inv_crew:
  assumes "crew_step d conv s s'" and "wg_inv s"
  shows "wg_inv s'"
proof -
  have run: "\<not> crStopped s" using assms live_none_rests(1) by (auto simp: wg_inv_def)
  have "crStopped s' = crStopped s \<and> (crWg s = int (live s) \<longrightarrow> crWg s' = int (live s'))"
    using assms(1)
  proof (induction rule: crew_step.induct)
    case (leave i s)
    then show ?case
      using sum_list_update_plus [OF leave(1), of present Gone] by (simp add: live_def)
  next
    case (limit a s y)
    then show ?case using live_landed [of a s] by simp
  next
    case (got_done a s y)
    then show ?case using live_landed [of a s] by simp
  next
    case (got_dispatch a s y)
    then show ?case using live_landed [of a s] by simp
  next
    case (got_backoff a s y delay ch)
    then show ?case
      using live_landed [of a "messageTo a ((yMsg y)\<lparr>backoffChannel := ch\<rparr>) (traceTo (changeVisibility (dVisibility d)
        (Identifier (yMsg y)) (backoffSeconds conv delay) (poTrace (crPool s))) s)"] by simp
  qed (simp_all add: live_def present_update airborne_update airborne_def del: One_nat_def)
  with assms(2) run show ?thesis by (simp add: wg_inv_def)
qed

lemma wg_inv_user:
  assumes "user_step s s'" and "wg_inv s"
  shows "wg_inv s'"
proof -
  have run: "\<not> crStopped s" using assms live_none_rests(2) by (auto simp: wg_inv_def)
  have "crStopped s' = crStopped s \<and> crWg s' = crWg s \<and> live s' = live s"
    using assms(1) by induction (simp_all add: live_def airborne_update)
  with assms(2) run show ?thesis by (simp add: wg_inv_def)
qed

lemma wg_inv_poll:
  assumes "poll_step d parse s s'" and "wg_inv s"
  shows "wg_inv s'"
  using assms
proof (induction rule: poll_step.induct)
  case (deliver s rnd m b ms w m' p)
  with enqueue_keeps [OF deliver(6)] show ?case by (simp add: wg_inv_def live_def)
next
  case (waited s)
  have "live (s\<lparr>crStopped := True\<rparr>) = live s" by (simp add: live_def)
  with waited show ?case by (simp add: wg_inv_def)
qed (simp_all add: wg_inv_def live_def)

section \<open>Groups\<close>

lemma routed_crew:
  assumes "crew_step d conv s s'" and "routed d (crPool s)"
  shows "routed d (crPool s')"
  using assms by induction (simp_all add: routed_def)

lemma routed_poll:
  assumes "poll_step d parse s s'" and "routed d (crPool s)"
  shows "routed d (crPool s')"
  using assms
proof (induction rule: poll_step.induct)
  case (deliver s rnd m b ms w m' p)
  have "poSent p = poSent (crPool s) @ [(nat (sint w), m')]" using enqueue_keeps [OF deliver(6)] by blast
  moreover have "groupKey m' = msgGroupKey d m'" "groupIndex d (groupKey m') = Return w" if "dMode d = PerGroupID"
    using workerIndex_routed [OF that deliver(5)] by simp_all
  ultimately show ?case using deliver(7) by (auto simp: routed_def)
qed (simp_all add: routed_def)

text \<open>A group has one worker, so no two workers are at messages of one group.\<close>

lemma one_worker:
  assumes "pool_inv d p" and "routed d p" and "dMode d = PerGroupID"
    and "i < length (poWorkers p)" "poWorkers p ! i = Working m"
    and "j < length (poWorkers p)" "poWorkers p ! j = Working m'" and "groupKey m = groupKey m'"
  shows "i = j"
proof -
  have "\<exists>w. groupIndex d (groupKey m) = Return w \<and> i = nat (sint w)"
    using assms(2,3) sent_working [OF assms(1,4,5)] by (auto simp: routed_def)
  moreover have "\<exists>w. groupIndex d (groupKey m') = Return w \<and> j = nat (sint w)"
    using assms(2,3) sent_working [OF assms(1,6,7)] by (auto simp: routed_def)
  ultimately show ?thesis using assms(8) by auto
qed

text \<open>What \<open>settle\<close> leaves in the barriers and commits under the Visibility model.\<close>

lemma settle_effects:
  assumes "settle d err st = (Return (), st')" and "dRetryModel d \<noteq> ScheduledRetryModel"
  shows "pBarriers st' = (if settled err (pMsg st) = Failed then pBarriers (failGroup d st) else pBarriers st)"
    "commits (pTrace st') = commits (pTrace st) @ (if settled err (pMsg st) = Committed then [Identifier (pMsg st)] else [])"
  using settle_spec(2) [OF assms] commits_of_outcomes [OF settle_spec(1) [OF assms]]
  by (auto simp: settled_def split: option.split)

definition books_inv :: "dispatcher \<Rightarrow> crew \<Rightarrow> bool" where
  "books_inv d s \<longleftrightarrow> order_inv d (crPool s) \<and> (\<forall>i msg a. flies s i msg a \<longrightarrow> \<not> heldIn d msg (crPool s)) \<and>
     commits (poTrace (crPool s)) = committed (crPool s)"

lemma books_inv_keep:
  assumes "books_inv d s" and "poSent (crPool s') = poSent (crPool s)" "poDone (crPool s') = poDone (crPool s)"
    and "poBarriers (crPool s') = poBarriers (crPool s)"
    and "commits (poTrace (crPool s')) = commits (poTrace (crPool s))"
    and "\<And>i msg a. flies s' i msg a \<Longrightarrow> \<exists>a'. flies s i msg a'"
  shows "books_inv d s'"
proof -
  have "order_inv d (crPool s') = order_inv d (crPool s)" by (rule order_inv_cong) (simp_all add: assms(2-4))
  moreover have "heldIn d msg (crPool s') = heldIn d msg (crPool s)" for msg
    by (simp add: heldIn_def assms(4) split: option.split)
  ultimately show ?thesis using assms(1,3,5,6) unfolding books_inv_def committed_def by metis
qed

lemma commits_changeVisibility [simp]: "commits (changeVisibility v h n t) = commits t"
  by (simp add: changeVisibility_def Let_def split: option.split)

text \<open>The step that ends a message: the barrier entry of its group is nobody else's.\<close>

lemma books_inv_finish:
  assumes "books_inv d s" and "pool_inv d (crPool s)" and "routed d (crPool s)"
    and "i < workers s" and "worker s i = Working msg" and "crPool s' = finish i msg v st (crPool s)"
    and "\<And>j m a. flies s' j m a \<Longrightarrow> j \<noteq> i \<and> flies s j m a"
    and held: "orderedGroups d \<Longrightarrow> v = Held \<longleftrightarrow> heldIn d msg (crPool s)"
    and bars: "orderedGroups d \<Longrightarrow> pBarriers st = (case barrier msg of None \<Rightarrow> poBarriers (crPool s)
      | Some a \<Rightarrow> if v = Failed then (poBarriers (crPool s))(a := fail (poBarriers (crPool s) a) (groupKey msg))
        else poBarriers (crPool s))"
    and commits: "commits (pTrace st) = commits (poTrace (crPool s)) @ (if v = Committed then [Identifier msg] else [])"
  shows "books_inv d s'"
  unfolding books_inv_def
proof (intro conjI allI impI)
  show "order_inv d (crPool s')"
    by (rule order_inv_finish [OF assms(2) _ assms(4,5) held bars assms(6)]) (use assms(1) in \<open>simp_all add: books_inv_def\<close>)
  show "commits (poTrace (crPool s')) = committed (crPool s')"
    using assms(1,6) commits by (simp add: books_inv_def committed_def)
  fix j m a
  assume "flies s' j m a"
  from assms(7) [OF this] have ji: "j \<noteq> i" and fl: "flies s j m a" by simp_all
  then have free: "\<not> heldIn d m (crPool s)" using assms(1) by (auto simp: books_inv_def)
  have "groupKey m \<noteq> groupKey msg" if "orderedGroups d"
    using one_worker [OF assms(2,3) _ _ _ assms(4,5), of j m] fl ji that by (auto simp: flies_def orderedGroups_def)
  with free bars show "\<not> heldIn d m (crPool s')"
    by (auto simp: heldIn_def assms(6) bar.fd_fl split: option.splits if_splits)
qed

lemma books_inv_crew:
  assumes "crew_step d conv s s'" and "books_inv d s" and "link_inv d s" and "pool_inv d (crPool s)"
    and "routed d (crPool s)" and vis: "dRetryModel d \<noteq> ScheduledRetryModel"
  shows "books_inv d s'"
  using assms(1-5)
proof (induction rule: crew_step.induct)
  case (take i s msg ch)
  then show ?case
    by (intro books_inv_keep [OF take(4)]) (auto simp: flies_def nth_list_update link_inv_def split: if_splits)
next
  case (hold i s msg)
  have "heldIn d msg (crPool s)" using hold(4) by (simp add: held_processState)
  with hold(1) show ?case
    by (intro books_inv_finish [OF hold(5,7,8,1,2)])
      (auto simp: flies_def nth_list_update holdForOrder_def processState_def split: if_splits option.split)
next
  case (launch i s msg)
  let ?p = "recordIn [SpawnVisibility (Identifier msg)] (crPool s)"
  have same: "order_inv d ?p = order_inv d (crPool s)" by (rule order_inv_cong) simp_all
  have h: "heldIn d m ?p = heldIn d m (crPool s)" for m by (simp add: heldIn_def split: option.split)
  let ?s' = "stageTo i (Handling (length (crFlying s))) (s\<lparr>crWg := crWg s + 1, crPool := ?p,
      crFlying := crFlying s @ [goVisibility (dVisibility d) msg]\<rparr>)"
  from launch(4) have free: "\<not> heldIn d msg (crPool s)" by (simp add: held_processState)
  have "\<not> heldIn d m ?p" if "flies ?s' j m a" for j m a
  proof (cases "j = i")
    case True
    then have "m = msg" using that launch(2) by (simp add: flies_def)
    then show ?thesis using free h by simp
  next
    case False
    then have "flies s j m a" using that by (simp add: flies_def)
    then show ?thesis using launch(5) by (auto simp: books_inv_def h)
  qed
  with launch(5) same show ?case by (auto simp: books_inv_def committed_def)
next
  case (unblock i s msg a delay m ch)
  then show ?case
    by (intro books_inv_keep [OF unblock(6)]) (auto simp: flies_def nth_list_update link_inv_def split: if_splits)
next
  case (settle i s msg a err m st)
  have "flies s i msg a" using settle(1-3) by (simp add: flies_def)
  then have same: "sameMessage m msg" and free: "\<not> heldIn d msg (crPool s)"
    using settle(4,6,7) by (auto simp: link_inv_def books_inv_def)
  then have id: "Identifier m = Identifier msg" "barrier m = barrier msg" "groupKey m = groupKey msg"
    by (simp_all add: sameMessage_def Identifier_def)
  note eff = settle_effects [OF settle(5) vis]
  show ?case
  proof (rule books_inv_finish [OF settle(6,8,9,1,2)])
    show "settled err m = Held \<longleftrightarrow> heldIn d msg (crPool s)" using free by (simp add: settled_def)
    show "pBarriers st = (case barrier msg of None \<Rightarrow> poBarriers (crPool s) | Some a \<Rightarrow>
        if settled err m = Failed then (poBarriers (crPool s))(a := fail (poBarriers (crPool s) a) (groupKey msg))
        else poBarriers (crPool s))" if "orderedGroups d"
      using eff(1) that by (simp add: processState_def failGroup_def id split: option.split)
    show "commits (pTrace st) = commits (poTrace (crPool s)) @ (if settled err m = Committed then [Identifier msg] else [])"
      using eff(2) by (simp add: processState_def id)
  qed (use settle(1) in \<open>auto simp: flies_def nth_list_update split: if_splits\<close>)
next
  case (leave i s)
  then show ?case by (intro books_inv_keep [OF leave(4)]) (auto simp: flies_def nth_list_update split: if_splits)
qed (erule books_inv_keep; auto simp: flies_def)+

lemma books_inv_user:
  assumes "user_step s s'" and "books_inv d s" and "link_inv d s"
  shows "books_inv d s'"
proof (rule books_inv_keep [OF assms(2)])
  show "poSent (crPool s') = poSent (crPool s)" "poDone (crPool s') = poDone (crPool s)"
    "poBarriers (crPool s') = poBarriers (crPool s)" "commits (poTrace (crPool s')) = commits (poTrace (crPool s))"
    using user_step_pool [OF assms(1)] by blast+
  fix i msg a
  assume "flies s' i msg a"
  with assms(1,3) show "\<exists>a'. flies s i msg a'"
    by induction (auto simp: flies_def nth_list_update link_inv_def split: if_splits)
qed

lemma books_inv_poll:
  assumes "poll_step d parse s s'" and "books_inv d s"
  shows "books_inv d s'"
  using assms
proof (induction rule: poll_step.induct)
  case (poll s e)
  then show ?case by (intro books_inv_keep [OF poll(3)]) (auto simp: flies_def commits_quiet)
next
  case (batch s a)
  have "order_inv d ((crPool s)\<lparr>poBarriers := (poBarriers (crPool s))(a := newBatchBarrier d)\<rparr>)"
    by (rule order_inv_alloc [where s = "crPool s", OF _ batch(3)])
      (use batch(2,4) in \<open>simp_all add: books_inv_def newBatchBarrier_def\<close>)
  moreover have "committed ((crPool s)\<lparr>poBarriers := b\<rparr>) = committed (crPool s)" for b by (simp add: committed_def)
  moreover have "heldIn d m ((crPool s)\<lparr>poBarriers := (poBarriers (crPool s))(a := newBatchBarrier d)\<rparr>) =
      heldIn d m (crPool s)" for m
    using batch(2,3) by (auto simp: heldIn_def newBatchBarrier_def split: option.split)
  ultimately show ?case using batch(4) by (simp add: books_inv_def flies_def)
next
  case (deliver s rnd m b ms w m' p)
  note keeps = enqueue_keeps [OF deliver(6)]
  have bm: "barrier m' = b"
    using workerIndex_barrier [OF deliver(5)] deliver(3) by (auto simp: deliveries_def)
  have "order_inv d p"
    by (rule order_inv_enqueue [OF _ deliver(6)])
      (use deliver(4,7) bm in \<open>auto simp: books_inv_def split: option.splits\<close>)
  moreover have "heldIn d msg p = heldIn d msg (crPool s)" for msg by (simp add: heldIn_def keeps split: option.split)
  ultimately show ?case using deliver(7) keeps by (auto simp: books_inv_def committed_def flies_def)
next
  case (stop s chs)
  then show ?case by (intro books_inv_keep [OF stop(3)]) (auto simp: flies_def)
qed (erule books_inv_keep; auto simp: flies_def)+

section \<open>Reachable crews\<close>

text \<open>The visibility manager is scheduled-aware only under the Scheduled Retry model, as \<open>Run\<close> makes it.\<close>

definition managed :: "dispatcher \<Rightarrow> bool" where
  "managed d \<longleftrightarrow> (vmScheduled (dVisibility d) \<longrightarrow> dRetryModel d = ScheduledRetryModel)"

lemma runSetup_managed:
  assumes "runSetup co rd now rnd t = (Inr d, t')"
  shows "managed d"
  using assms
  by (auto simp: runSetup_def managed_def newDispatcher_def newVisibilityManager_def newScheduledVisibilityManager_def
      Let_def split: if_splits sum.splits prod.splits option.splits)

definition crew_inv :: "dispatcher \<Rightarrow> crew \<Rightarrow> bool" where
  "crew_inv d s \<longleftrightarrow> pool_inv d (crPool s) \<and> link_inv d s \<and> wg_inv s \<and> routed d (crPool s) \<and>
     (crStopping s \<longrightarrow> (\<forall>ch \<in> set (poChannels (crPool s)). closed ch)) \<and>
     (managed d \<longrightarrow> flying_inv d s) \<and> (dRetryModel d \<noteq> ScheduledRetryModel \<longrightarrow> books_inv d s)"

lemma crew_inv_start:
  assumes "commits t = []"
  shows "crew_inv d (startCrew d cancelled t)"
proof -
  let ?s = "startCrew d cancelled t"
  have none: "\<not> flies ?s i msg a" for i msg a by (simp add: flies_def startCrew_def startPool_def)
  have p: "crPool ?s = startPool d t" "crFlying ?s = []" "crWg ?s = int (poolSize d)" "\<not> crStopped ?s" "\<not> crStopping ?s"
    "length (crStages ?s) = poolSize d" by (simp_all add: startCrew_def)
  have q: "poWorkers (startPool d t) = replicate (poolSize d) Idle" "poSent (startPool d t) = []"
    "poDone (startPool d t) = []" "poTrace (startPool d t) = t" "poBarriers (startPool d t) = (\<lambda>a. None)"
    by (simp_all add: startPool_def)
  have "link_inv d ?s" "flying_inv d ?s" by (simp_all add: link_inv_def flying_inv_def none p q)
  moreover have "wg_inv ?s" by (simp add: wg_inv_def live_def p q sum_list_replicate)
  moreover have "books_inv d ?s"
    using assms by (simp add: books_inv_def none p q order_inv_def groupVerdicts_def groupDone_def groupSent_def committed_def)
  moreover have "routed d (crPool ?s)" by (simp add: routed_def p q)
  ultimately show ?thesis using start_inv [of d t] by (simp add: crew_inv_def p)
qed

lemma closed_crew:
  assumes "crew_step d conv s s'" and "pool_inv d (crPool s)"
  shows "map closed (poChannels (crPool s')) = map closed (poChannels (crPool s)) \<and> crStopping s' = crStopping s"
  using assms
proof (induction rule: crew_step.induct)
  case (take i s msg ch)
  note inv = pool_invD [OF take(4)]
  have i: "i < length (poChannels (crPool s))" using take inv by simp
  have "closed ch = closed (poChannels (crPool s) ! i)" using ch.recv_Received [OF inv(3) take(3)] i inv by simp
  then show ?case using i by (simp add: map_update_same)
qed simp_all

lemma closed_map: "(\<forall>ch \<in> set chs. closed ch) \<longleftrightarrow> map closed chs = replicate (length chs) True"
  by (induction chs) auto

lemma crew_inv_step:
  assumes "any_step d conv parse s s'" and "crew_inv d s"
  shows "crew_inv d s'"
proof -
  consider "crew_step d conv s s'" | "user_step s s'" | "poll_step d parse s s'"
    using assms(1) by (auto simp: any_step_def)
  then show ?thesis
  proof cases
    case 1
    have "length (poChannels (crPool s')) = length (poChannels (crPool s))"
      using closed_crew [OF 1] assms(2) by (metis crew_inv_def length_map)
    then show ?thesis
      using crew_step_pool_inv [OF 1] link_inv_crew [OF 1] wg_inv_crew [OF 1] routed_crew [OF 1]
        flying_inv_crew [OF 1] books_inv_crew [OF 1] closed_crew [OF 1] assms(2)
      unfolding crew_inv_def managed_def closed_map by metis
  next
    case 2
    have "crStopping s' = crStopping s" using 2 by cases simp_all
    then show ?thesis
      using user_step_pool [OF 2] link_inv_user [OF 2] wg_inv_user [OF 2] flying_inv_user [OF 2]
        books_inv_user [OF 2] routed_cong [of "crPool s'" "crPool s" d] assms(2)
      unfolding crew_inv_def by metis
  next
    case 3
    have "crStopping s' \<longrightarrow> (\<forall>ch \<in> set (poChannels (crPool s')). closed ch)"
      using 3 assms(2)
    proof (induction rule: poll_step.induct)
      case (stop s chs)
      from closeAll_Return [OF stop(2)] show ?case by simp
    qed (simp_all add: crew_inv_def)
    then show ?thesis
      using poll_step_pool_inv [OF 3] link_inv_poll [OF 3] wg_inv_poll [OF 3] routed_poll [OF 3]
        flying_inv_poll [OF 3] books_inv_poll [OF 3] assms(2)
      unfolding crew_inv_def by blast
  qed
qed

lemma crewed_inv:
  assumes "crewed d conv parse s"
  shows "crew_inv d s"
proof -
  from assms obtain cancelled t where "commits t = []" "(any_step d conv parse)\<^sup>*\<^sup>* (startCrew d cancelled t) s"
    by (auto simp: crewed_def)
  from this(2,1) show ?thesis
    by (induction rule: rtranclp_induct) (auto intro: crew_inv_start crew_inv_step)
qed

lemma crewed_step: "crewed d conv parse s \<Longrightarrow> any_step d conv parse s s' \<Longrightarrow> crewed d conv parse s'"
  unfolding crewed_def by (meson rtranclp.rtrancl_into_rtrancl)

lemma any_poll: "poll_step d parse s s' \<Longrightarrow> any_step d conv parse s s'"
  by (simp add: any_step_def)

lemma crewed_crew:
  assumes "crewed d conv parse s" and "(crew_step d conv)\<^sup>*\<^sup>* s s'"
  shows "crewed d conv parse s'"
  using assms(2,1) by (induction rule: rtranclp_induct) (auto intro: crewed_step simp: any_step_def)

end
