(* ===== verification/Goroutine_Runs.thy ===== *)
theory Goroutine_Runs
  imports Goroutines
begin

text \<open>
  Runs of the goroutines of a dispatcher (theory \<open>Goroutines\<close>): the workers and visibility goroutines end by
  themselves (a ranking of their steps), where they come to rest, that the runs of \<open>Worker_Pool\<close> are among the runs
  here, and the properties: what \<open>stop\<close> waits for, what the \<open>WaitGroup\<close> counts, the order within groups.
\<close>

section \<open>Without the handlers every run ends\<close>

text \<open>What is left to do for a visibility goroutine, a worker and a queued message.\<close>

definition airRank :: "dispatcher \<Rightarrow> flying \<Rightarrow> nat" where
  "airRank d y = (if yReturned y then 0 else Suc (nat (sint (vmExtensionLimit (dVisibility d)) + 1 - sint (yCount y))))"

definition fullAir :: "dispatcher \<Rightarrow> nat" where
  "fullAir d = Suc (nat (sint (vmExtensionLimit (dVisibility d)) + 1))"

definition seatRank :: "dispatcher \<Rightarrow> worker \<times> stage \<Rightarrow> nat" where
  "seatRank d x = (case fst x of Gone \<Rightarrow> 0 | Idle \<Rightarrow> 1 | Working msg \<Rightarrow>
     (case snd x of Fetched \<Rightarrow> fullAir d + 4 | Handling a \<Rightarrow> 1 | Blocked a delay \<Rightarrow> 2 | Handled a err \<Rightarrow> 3))"

definition crewRank :: "dispatcher \<Rightarrow> crew \<Rightarrow> nat" where
  "crewRank d s = sum_list (map (\<lambda>ch. (fullAir d + 4) * length (buf ch)) (poChannels (crPool s))) +
     sum_list (map (seatRank d) (zip (poWorkers (crPool s)) (crStages s))) + sum_list (map (airRank d) (crFlying s))"

lemma seat_update:
  assumes "i < length ws" and "length ws = length gs"
  shows "sum_list (map (seatRank d) (zip (ws[i := w]) (gs[i := g]))) + seatRank d (ws ! i, gs ! i) =
    sum_list (map (seatRank d) (zip ws gs)) + seatRank d (w, g)"
  using sum_list_update_plus [of i "zip ws gs" "seatRank d" "(w, g)"] assms
  by (simp add: update_zip)

lemma seat_update_worker:
  assumes "i < length ws" and "length ws = length gs"
  shows "sum_list (map (seatRank d) (zip (ws[i := w]) gs)) + seatRank d (ws ! i, gs ! i) =
    sum_list (map (seatRank d) (zip ws gs)) + seatRank d (w, gs ! i)"
  using seat_update [OF assms, of d w "gs ! i"] by simp

lemma seat_update_stage:
  assumes "i < length ws" and "length ws = length gs"
  shows "sum_list (map (seatRank d) (zip ws (gs[i := g]))) + seatRank d (ws ! i, gs ! i) =
    sum_list (map (seatRank d) (zip ws gs)) + seatRank d (ws ! i, g)"
  using seat_update [OF assms, of d "ws ! i" g] by simp

lemma air_update:
  "airRank d y = airRank d (ys ! a) \<Longrightarrow> sum_list (map (airRank d) (ys[a := y])) = sum_list (map (airRank d) ys)"
  using sum_list_update_plus [of a ys "airRank d" y] by (cases "a < length ys") (simp_all add: list_update_beyond)

lemma air_less:
  "a < length ys \<Longrightarrow> airRank d y < airRank d (ys ! a) \<Longrightarrow> sum_list (map (airRank d) (ys[a := y])) < sum_list (map (airRank d) ys)"
  using sum_list_update_plus [of a ys "airRank d" y] by linarith

lemma airRank_simps [simp]: "airRank d (y\<lparr>yMsg := m\<rparr>) = airRank d y" "airRank d (y\<lparr>yReturned := True\<rparr>) = 0"
  "airRank d (goVisibility v m) = fullAir d" "\<not> yReturned y \<Longrightarrow> 0 < airRank d y"
  by (simp_all add: airRank_def fullAir_def)

lemma rank_landed:
  assumes "a < length (crFlying s)" and "\<not> yReturned (crFlying s ! a)"
  shows "crewRank d (landed a s) < crewRank d s"
  using air_less [OF assms(1), of d "(crFlying s ! a)\<lparr>yReturned := True\<rparr>"] assms(2) by (simp add: crewRank_def)

lemma rank_simps [simp]: "crewRank d (messageTo a m s) = crewRank d s" "crewRank d (traceTo t s) = crewRank d s"
  by (simp_all add: crewRank_def air_update)

lemma crew_step_rank:
  assumes "crew_step d conv s s'" and "pool_inv d (crPool s)" and "link_inv d s"
    and small: "sint (vmExtensionLimit (dVisibility d)) < 2 ^ 63 - 1"
  shows "crewRank d s' < crewRank d s"
  using assms(1-3)
proof (induction rule: crew_step.induct)
  case (take i s msg ch)
  note inv = pool_invD [OF take(4)]
  have i: "i < length (poChannels (crPool s))" "i < poolSize d" and len: "workers s = length (crStages s)"
    using take inv by (simp_all add: link_inv_def)
  have "length (buf (poChannels (crPool s) ! i)) = Suc (length (buf ch))"
    using ch.recv_Received [OF inv(3) [OF i(2)] take(3)] by simp
  then show ?case
    using sum_list_update_plus [OF i(1), of "\<lambda>ch. (fullAir d + 4) * length (buf ch)" ch]
      seat_update [OF take(1) len, of d "Working msg" Fetched] take(2)
    by (simp add: crewRank_def seatRank_def)
next
  case (hold i s msg)
  then show ?case
    using seat_update_worker [of i "poWorkers (crPool s)" "crStages s" d Idle]
    by (simp add: crewRank_def seatRank_def link_inv_def)
next
  case (launch i s msg)
  then show ?case
    using seat_update_stage [of i "poWorkers (crPool s)" "crStages s" d "Handling (length (crFlying s))"]
    by (simp add: crewRank_def seatRank_def link_inv_def)
next
  case (unblock i s msg a delay m ch)
  then show ?case
    using seat_update_stage [of i "poWorkers (crPool s)" "crStages s" d "Handling a"]
    by (simp add: crewRank_def seatRank_def link_inv_def air_update)
next
  case (settle i s msg a err m st)
  then show ?case
    using seat_update_worker [of i "poWorkers (crPool s)" "crStages s" d Idle]
    by (simp add: crewRank_def seatRank_def link_inv_def air_update)
next
  case (leave i s)
  then show ?case
    using seat_update_worker [of i "poWorkers (crPool s)" "crStages s" d Gone]
    by (simp add: crewRank_def seatRank_def link_inv_def)
next
  case (got_backoff a s y delay ch)
  define s1 where "s1 = messageTo a ((yMsg y)\<lparr>backoffChannel := ch\<rparr>) (traceTo (changeVisibility (dVisibility d)
    (Identifier (yMsg y)) (backoffSeconds conv delay) (poTrace (crPool s))) s)"
  have "crewRank d (landed a s1) < crewRank d s1"
    using got_backoff(1-3) by (intro rank_landed) (simp_all add: s1_def)
  then show ?case by (simp add: s1_def)
next
  case (tick a s y e)
  have le: "sint (yCount y) \<le> sint (vmExtensionLimit (dVisibility d))" using tick(4) by (simp add: go_sint)
  then have c: "sint (yCount y + 1) = sint (yCount y) + 1"
    using small sint64_range [of "yCount y"] by (subst sint64_add) simp_all
  have "airRank d (y\<lparr>yCount := yCount y + 1, yExtension := e\<rparr>) < airRank d y"
    using tick(3) le c by (simp add: airRank_def)
  then have "sum_list (map (airRank d) ((crFlying s)[a := y\<lparr>yCount := yCount y + 1, yExtension := e\<rparr>])) <
      sum_list (map (airRank d) (crFlying s))"
    using air_less [OF tick(1)] tick(2) by simp
  then show ?case by (simp add: crewRank_def)
qed (simp_all add: rank_landed)

lemma crew_terminates:
  assumes "crewed d conv parse s" and "sint (vmExtensionLimit (dVisibility d)) < 2 ^ 63 - 1"
  shows "\<nexists>f. f 0 = s \<and> (\<forall>k. crew_step d conv (f k) (f (Suc k)))"
proof
  assume "\<exists>f. f 0 = s \<and> (\<forall>k. crew_step d conv (f k) (f (Suc k)))"
  then obtain f where f: "f 0 = s" "\<And>k. crew_step d conv (f k) (f (Suc k))" by blast
  have "crewed d conv parse (f k)" for k
    by (induction k) (use f assms(1) in \<open>auto intro: crewed_step simp: any_step_def\<close>)
  then have inv: "crew_inv d (f k)" for k by (rule crewed_inv)
  have "crewRank d (f (Suc k)) < crewRank d (f k)" for k
    using crew_step_rank [OF f(2) _ _ assms(2)] inv [of k] by (simp add: crew_inv_def)
  then have "(f (Suc k), f k) \<in> measure (crewRank d)" for k by simp
  then show False using wf_no_infinite_down_chainE [OF wf_measure] by blast
qed

section \<open>Where a crew rests\<close>

definition inHandler :: "crew \<Rightarrow> nat \<Rightarrow> bool" where
  "inHandler s i \<longleftrightarrow> (\<exists>msg a. worker s i = Working msg \<and>
     (crStages s ! i = Handling a \<or> (\<exists>delay. crStages s ! i = Blocked a delay)))"

definition rests :: "dispatcher \<Rightarrow> (duration \<Rightarrow> go_int32) \<Rightarrow> crew \<Rightarrow> bool" where
  "rests d conv s \<longleftrightarrow> (\<nexists>s'. crew_step d conv s s')"

text \<open>The code behind a handler panics: a nil scheduler or publisher, or the \<open>OnDLQ\<close> callback.\<close>

definition settlePanics :: "dispatcher \<Rightarrow> crew \<Rightarrow> bool" where
  "settlePanics d s \<longleftrightarrow> (\<exists>i msg a err p. i < workers s \<and> worker s i = Working msg \<and> crStages s ! i = Handled a err \<and>
     fst (settle d err (processState (yMsg (crFlying s ! a)) (crPool s))) = Panic p)"

lemma rests_worker:
  assumes "rests d conv s" and "crew_inv d s" and "crStopping s" and "\<not> settlePanics d s" and i: "i < workers s"
  shows "worker s i = Gone \<or> inHandler s i"
proof (cases "worker s i")
  case Idle
  have inv: "pool_inv d (crPool s)" using assms(2) by (simp add: crew_inv_def)
  have n: "i < poolSize d" "i < length (poChannels (crPool s))" using pool_invD(1,2) [OF inv] i by simp_all
  have "closed (poChannels (crPool s) ! i)" using assms(2,3) n(2) by (simp add: crew_inv_def)
  then have "recv (poChannels (crPool s) ! i) \<noteq> RecvBlocks"
    using ch.recv_blocks [OF pool_invD(3) [OF inv n(1)]] by simp
  then show ?thesis
    using crew_step.take [OF i Idle] crew_step.leave [OF i Idle] assms(1)
    by (cases "recv (poChannels (crPool s) ! i)") (auto simp: rests_def)
next
  case (Working msg)
  show ?thesis
  proof (cases "crStages s ! i")
    case Fetched
    then have False
      using crew_step.hold [OF i Working Fetched, of d conv] crew_step.launch [OF i Working Fetched, of d conv] assms(1)
      unfolding rests_def by blast
    then show ?thesis ..
  next
    case (Handled a err)
    obtain r st where r: "settle d err (processState (yMsg (crFlying s ! a)) (crPool s)) = (r, st)" by force
    show ?thesis
    proof (cases r)
      case (Return u)
      with r have "settle d err (processState (yMsg (crFlying s ! a)) (crPool s)) = (Return (), st)" by simp
      from crew_step.settle [OF i Working Handled refl this] assms(1) show ?thesis by (auto simp: rests_def)
    next
      case (Panic p)
      with r Handled Working i assms(4) show ?thesis by (force simp: settlePanics_def)
    qed
  qed (use Working in \<open>auto simp: inHandler_def\<close>)
qed simp

lemma rests_flying:
  assumes "rests d conv s" and "a < length (crFlying s)" and "ending (dVisibility d) (crFlying s ! a)"
  shows "yReturned (crFlying s ! a)"
proof (rule ccontr)
  assume air: "\<not> yReturned (crFlying s ! a)"
  have within: "\<not> vmExtensionLimit (dVisibility d) <s yCount (crFlying s ! a)"
    using crew_step.limit [OF assms(2) refl air] assms(1) by (auto simp: rests_def)
  have "\<not> dispatched (yMsg (crFlying s ! a))"
    using crew_step.got_dispatch [OF assms(2) refl air within] assms(1) by (auto simp: rests_def)
  with assms(3) air have "\<not> vmScheduled (dVisibility d)" "buf (backoffChannel (yMsg (crFlying s ! a))) \<noteq> []"
    by (simp_all add: ending_def)
  moreover from this(2) obtain delay ch where "recv (backoffChannel (yMsg (crFlying s ! a))) = Received delay ch"
    by (cases "buf (backoffChannel (yMsg (crFlying s ! a)))") (auto simp: recv_def)
  ultimately show False
    using crew_step.got_backoff [OF assms(2) refl air within] assms(1) by (auto simp: rests_def)
qed

text \<open>A handler that stays blocked in \<open>Backoff\<close>: nobody reads the channel any more.\<close>

lemma rests_blocked:
  assumes "rests d conv s" and "crew_inv d s" and "managed d"
    and "i < workers s" "worker s i = Working msg" "crStages s ! i = Blocked a delay"
  shows "yReturned (crFlying s ! a) \<or> vmScheduled (dVisibility d)"
proof -
  have "flies s i msg a" using assms(4-6) by (simp add: flies_def)
  then have a: "a < length (crFlying s)" using assms(2) by (auto simp: crew_inv_def link_inv_def)
  then have box: "mailbox (dVisibility d) (crFlying s ! a)" using assms(2,3) by (simp add: crew_inv_def flying_inv_def)
  have "send delay (backoffChannel (yMsg (crFlying s ! a))) \<noteq> Sent ch" for ch
    using crew_step.unblock [OF assms(4-6) refl, of ch d conv] assms(1) unfolding rests_def by blast
  moreover have "\<exists>ch. send delay (backoffChannel (yMsg (crFlying s ! a))) = Sent ch"
    if "buf (backoffChannel (yMsg (crFlying s ! a))) = []"
    using box that by (simp add: mailbox_def Let_def send_def)
  ultimately have "buf (backoffChannel (yMsg (crFlying s ! a))) \<noteq> []" by blast
  then show ?thesis using rests_flying [OF assms(1) a] by (auto simp: ending_def)
qed

lemma rests_done:
  assumes "rests d conv s" and "crew_inv d s" and "managed d" and "crStopping s" and "\<not> settlePanics d s"
    and "\<forall>i < workers s. \<not> inHandler s i"
  shows "live s = 0" "mset (map snd (poSent (crPool s))) = mset (map (fst \<circ> snd) (poDone (crPool s)))"
proof -
  have inv: "pool_inv d (crPool s)" using assms(2) by (simp add: crew_inv_def)
  have gone: "worker s i = Gone" if "i < workers s" for i
    using rests_worker [OF assms(1,2,4,5) that] assms(6) that by blast
  then have "\<not> flies s i msg a" for i msg a by (auto simp: flies_def)
  then have "yReturned (crFlying s ! a)" if "a < length (crFlying s)" for a
    using rests_flying [OF assms(1) that] assms(2,3) that by (simp add: crew_inv_def flying_inv_def)
  then have "\<forall>y \<in> set (crFlying s). airborne y = 0" by (auto simp: in_set_conv_nth airborne_def)
  moreover have all: "set (poWorkers (crPool s)) \<subseteq> {Gone}" using gone by (auto simp: in_set_conv_nth)
  ultimately show "live s = 0" by (auto simp: live_def)
  show "mset (map snd (poSent (crPool s))) = mset (map (fst \<circ> snd) (poDone (crPool s)))"
    by (rule all_gone_all_done(2) [OF inv all])
qed

section \<open>The steps of the pool\<close>

text \<open>
  What a handler does with its message, as a list of calls that do not block. A handler is \<open>scripted\<close> when what it
  leaves is what such a list leaves; every step of \<open>Worker_Pool\<close> is then a run of the crew that ends in the same pool.
\<close>

datatype act = DoBackoff duration | DoDispatch | DoEmit event

fun doings :: "act list \<Rightarrow> message \<times> trace \<Rightarrow> (message \<times> trace) option" where
  "doings [] mt = Some mt"
| "doings (DoBackoff delay # xs) (m, t) = (case Backoff delay m of (m', blocked) \<Rightarrow>
     if blocked then None else doings xs (m', t))"
| "doings (DoDispatch # xs) (m, t) = doings xs (Dispatch m, t)"
| "doings (DoEmit e # xs) (m, t) = (if isOutcome e then None else doings xs (m, t @ [e]))"

definition scripted :: "Middleware.handler \<Rightarrow> bool" where
  "scripted h \<longleftrightarrow> (\<forall>c m t err s. h c \<lparr>cur = Some m, htrace = t\<rparr> = (HRet err, s) \<longrightarrow>
     (\<exists>xs. doings xs (m, t) = Some (absorb m (cur s), htrace s)))"

definition goroutine_step :: "dispatcher \<Rightarrow> (duration \<Rightarrow> go_int32) \<Rightarrow> crew \<Rightarrow> crew \<Rightarrow> bool" where
  "goroutine_step d conv s s' \<longleftrightarrow> crew_step d conv s s' \<or> user_step s s'"

lemma messageTo_messageTo [simp]: "messageTo a m (messageTo a m' s) = messageTo a m s"
  by (cases "a < length (crFlying s)") (simp_all add: messageTo_def list_update_beyond)

lemma messageTo_traceTo: "traceTo t (messageTo a m s) = messageTo a m (traceTo t s)"
  "traceTo t (traceTo t' s) = traceTo t s" "s\<lparr>crPool := recordIn [e] (crPool s)\<rparr> = traceTo (poTrace (crPool s) @ [e]) s"
  by (simp_all add: messageTo_def traceTo_def recordIn_def)

lemma messageTo_same: "messageTo a (yMsg (crFlying s ! a)) (traceTo (poTrace (crPool s)) s) = s"
  by (simp add: messageTo_def traceTo_def)

lemma user_doings:
  assumes "i < workers s" and "worker s i = Working msg" and "crStages s ! i = Handling a"
    and "a < length (crFlying s)" and "doings xs (yMsg (crFlying s ! a), poTrace (crPool s)) = Some (m, t)"
  shows "user_step\<^sup>*\<^sup>* s (messageTo a m (traceTo t s))"
  using assms
proof (induction xs arbitrary: s)
  case Nil
  then show ?case by (auto simp: messageTo_same)
next
  case (Cons x xs)
  have go: "user_step\<^sup>*\<^sup>* s (messageTo a m (traceTo t s))"
    if "user_step s s1" "messageTo a m (traceTo t s1) = messageTo a m (traceTo t s)"
      "crPool s1 = (crPool s)\<lparr>poTrace := poTrace (crPool s1)\<rparr>" "crStages s1 = crStages s" "a < length (crFlying s1)"
      "doings xs (yMsg (crFlying s1 ! a), poTrace (crPool s1)) = Some (m, t)" for s1
  proof -
    have "workers s1 = workers s" "worker s1 i = worker s i" using that(3) by (metis pool.select_convs(2) pool.surjective pool.update_convs(4))+
    with Cons.IH [of s1] Cons.prems(1-3) that(2,4,5,6) have "user_step\<^sup>*\<^sup>* s1 (messageTo a m (traceTo t s))" by simp
    with that(1) show ?thesis by (rule converse_rtranclp_into_rtranclp)
  qed
  show ?case
  proof (cases x)
    case (DoBackoff delay)
    with Cons.prems(5) obtain m1 where b: "Backoff delay (yMsg (crFlying s ! a)) = (m1, False)"
      and rest: "doings xs (m1, poTrace (crPool s)) = Some (m, t)" by (auto split: prod.splits if_splits)
    show ?thesis
      by (rule go [OF user_step.backoff [OF Cons.prems(1-3) b]]) (use Cons.prems(4) rest in \<open>simp_all add: messageTo_traceTo\<close>)
  next
    case DoDispatch
    show ?thesis
      by (rule go [OF user_step.dispatch [OF Cons.prems(1-3)]])
        (use Cons.prems(4,5) DoDispatch in \<open>simp_all add: messageTo_traceTo\<close>)
  next
    case (DoEmit e)
    with Cons.prems(5) have e: "\<not> isOutcome e" by (auto split: if_splits)
    show ?thesis
      by (rule go [OF user_step.emit [OF Cons.prems(1-3) e]])
        (use Cons.prems(4,5) DoEmit e in \<open>simp_all add: messageTo_traceTo\<close>)
  qed
qed

text \<open>Between two messages: no worker has begun to process the message it holds.\<close>

definition atRest :: "crew \<Rightarrow> bool" where
  "atRest s \<longleftrightarrow> length (crStages s) = workers s \<and>
     (\<forall>i < workers s. \<forall>msg. worker s i = Working msg \<longrightarrow> crStages s ! i = Fetched)"

lemma work_is_a_run:
  assumes "scripted (dHandler d)" and "length (crStages s) = workers s"
    and i: "i < workers s" "worker s i = Working msg" "crStages s ! i = Fetched"
    and "process d c (processState msg (crPool s)) = (Return (), st)"
  shows "\<exists>s'. (goroutine_step d conv)\<^sup>*\<^sup>* s s' \<and> length (crStages s') = length (crStages s) \<and>
    (\<forall>j. j \<noteq> i \<longrightarrow> crStages s' ! j = crStages s ! j) \<and>
    crPool s' = finish i msg (verdictOf d c (processState msg (crPool s))) st (crPool s)"
proof (cases "held d (processState msg (crPool s))")
  case True
  then have st: "st = holdForOrder d (processState msg (crPool s))" using assms(6) by (simp add: process_settle)
  from crew_step.hold [OF i True] have "goroutine_step d conv s
      (s\<lparr>crPool := finish i msg Held (holdForOrder d (processState msg (crPool s))) (crPool s)\<rparr>)"
    by (simp add: goroutine_step_def)
  then show ?thesis using True st by (intro exI conjI) (rule r_into_rtranclp, assumption, simp_all add: verdictOf_def)
next
  case nh: False
  define n where "n = length (crFlying s)"
  define s1 where "s1 = stageTo i (Handling n) (s\<lparr>crWg := crWg s + 1, crPool := recordIn [SpawnVisibility (Identifier msg)] (crPool s),
      crFlying := crFlying s @ [goVisibility (dVisibility d) msg]\<rparr>)"
  obtain r st1 where h: "handled d c (processState msg (crPool s)) = (r, st1)" by force
  with assms(6) nh obtain err where r: "r = HRet err" and ps: "settle d err st1 = (Return (), st)"
    by (cases r) (simp_all add: process_settle)
  have bars: "pBarriers st1 = poBarriers (crPool s)" using invoke_simps(5) [OF h] by (simp add: processState_def)
  have at1: "workers s1 = workers s" "worker s1 i = Working msg" "crStages s1 ! i = Handling n" "n < length (crFlying s1)"
    "crFlying s1 ! n = goVisibility (dVisibility d) msg" "crPool s1 = recordIn [SpawnVisibility (Identifier msg)] (crPool s)"
    "crStages s1 = (crStages s)[i := Handling n]"
    using i assms(2) by (simp_all add: s1_def n_def)
  have "\<exists>xs. doings xs (msg, poTrace (crPool s) @ [SpawnVisibility (Identifier msg)]) = Some (pMsg st1, pTrace st1)"
    using h r assms(1) by (auto simp: invoke_def processState_def say_def scripted_def split: prod.splits)
  then obtain xs where xs: "doings xs (yMsg (crFlying s1 ! n), poTrace (crPool s1)) = Some (pMsg st1, pTrace st1)"
    by (auto simp: at1)
  define s3 where "s3 = stageTo i (Handled n err) (messageTo n (pMsg st1) (traceTo (pTrace st1) s1))"
  have "yMsg (crFlying s3 ! n) = pMsg st1" using at1(4) by (simp add: s3_def)
  then have st1: "processState (yMsg (crFlying s3 ! n)) (crPool s3) = st1" "yMsg (crFlying s3 ! n) = pMsg st1"
    using bars by (simp_all add: processState_def s3_def at1(6))
  have at3: "i < workers s3" "worker s3 i = Working msg" "crStages s3 ! i = Handled n err" "crStages s3 = (crStages s)[i := Handled n err]"
    using i assms(2) at1 by (simp_all add: s3_def)
  let ?s4 = "messageTo n (pMsg st) (s3\<lparr>crPool := finish i msg (settled err (pMsg st1)) st (crPool s3)\<rparr>)"
  have "goroutine_step d conv s s1"
    using crew_step.launch [OF i nh] by (simp add: goroutine_step_def s1_def n_def)
  moreover have "user_step\<^sup>*\<^sup>* s1 (messageTo n (pMsg st1) (traceTo (pTrace st1) s1))"
    by (rule user_doings [OF _ at1(2-4) xs]) (simp add: at1(1) i)
  then have "(goroutine_step d conv)\<^sup>*\<^sup>* s1 (messageTo n (pMsg st1) (traceTo (pTrace st1) s1))"
    by (rule rtranclp_mono [THEN predicate2D, rotated]) (auto simp: goroutine_step_def)
  moreover have "goroutine_step d conv (messageTo n (pMsg st1) (traceTo (pTrace st1) s1)) s3"
    unfolding goroutine_step_def s3_def by (rule disjI2, rule user_step.returns) (simp_all add: at1 i assms(2))
  moreover have "goroutine_step d conv s3 ?s4"
    using crew_step.settle [OF at3(1-3) refl ps [folded st1(1)], of conv] st1(2) by (simp add: goroutine_step_def)
  ultimately have run: "(goroutine_step d conv)\<^sup>*\<^sup>* s ?s4"
    by (meson converse_rtranclp_into_rtranclp rtranclp.rtrancl_into_rtrancl)
  have "verdictOf d c (processState msg (crPool s)) = settled err (pMsg st1)"
    using nh h r by (simp add: verdictOf_def settled_def split: option.split)
  moreover have "finish i msg v st (crPool s3) = finish i msg v st (crPool s)" for v
    by (simp add: s3_def at1(6) finish_def recordIn_def)
  ultimately show ?thesis using run by (intro exI [of _ ?s4]) (simp add: at3(4))
qed

lemma pool_step_is_a_run:
  assumes "pool_step d c (crPool s) p" and "atRest s" and "scripted (dHandler d)"
  shows "\<exists>s'. (goroutine_step d conv)\<^sup>*\<^sup>* s s' \<and> atRest s' \<and> crPool s' = p"
  using assms(1)
proof cases
  case (take i msg ch)
  from crew_step.take [OF take(2-4), of d conv]
  have "goroutine_step d conv s (stageTo i Fetched (s\<lparr>crPool := p\<rparr>))" by (simp add: goroutine_step_def take(1))
  moreover have "atRest (stageTo i Fetched (s\<lparr>crPool := p\<rparr>))"
    using assms(2) take(1,2) by (auto simp: atRest_def nth_list_update)
  ultimately show ?thesis by (intro exI conjI) (rule r_into_rtranclp, assumption+, simp)
next
  case (work i msg st)
  have len: "length (crStages s) = workers s" and f: "crStages s ! i = Fetched"
    using assms(2) work(2,3) by (auto simp: atRest_def)
  from work_is_a_run [OF assms(3) len work(2,3) f work(4)] obtain s' where s': "(goroutine_step d conv)\<^sup>*\<^sup>* s s'"
    "length (crStages s') = length (crStages s)" "\<And>j. j \<noteq> i \<Longrightarrow> crStages s' ! j = crStages s ! j"
    "crPool s' = finish i msg (verdictOf d c (processState msg (crPool s))) st (crPool s)" by blast
  moreover have "atRest s'"
    using assms(2) s'(2,3,4) work(2) by (auto simp: atRest_def nth_list_update)
  moreover have "crPool s' = p" using s'(4) work(1) by (simp add: finish_def)
  ultimately show ?thesis by blast
next
  case (leave i)
  from crew_step.leave [OF leave(2-4), of d conv]
  have "goroutine_step d conv s (s\<lparr>crPool := p, crWg := crWg s - 1\<rparr>)" by (simp add: goroutine_step_def leave(1))
  moreover have "atRest (s\<lparr>crPool := p, crWg := crWg s - 1\<rparr>)"
    using assms(2) leave(1,2) by (auto simp: atRest_def nth_list_update)
  ultimately show ?thesis by (intro exI conjI) (rule r_into_rtranclp, assumption+, simp)
qed

section \<open>Properties\<close>

text \<open>
  C28: Every run of the worker pool in which \<open>process\<close> is one step is a run of the goroutines in which it is the steps
  it consists of, for every handler that does to its message only what calls that do not block do: from a crew between
  two messages some run of the workers, their visibility goroutines and handlers ends in exactly the same pool, with
  the same trace, barriers and verdicts, again between two messages.
\<close>

theorem pool_runs_are_goroutine_runs:
  assumes "(pool_step d c)\<^sup>*\<^sup>* (crPool s) p" and "atRest s" and "scripted (dHandler d)"
  shows "\<exists>s'. (goroutine_step d conv)\<^sup>*\<^sup>* s s' \<and> atRest s' \<and> crPool s' = p"
  using assms(1)
proof (induction rule: rtranclp_induct)
  case base
  show ?case using assms(2) by blast
next
  case (step p p')
  then obtain s' where s': "(goroutine_step d conv)\<^sup>*\<^sup>* s s'" "atRest s'" "crPool s' = p" by blast
  with step(2) pool_step_is_a_run [of d c s' p'] assms(3) obtain s'' where
    "(goroutine_step d conv)\<^sup>*\<^sup>* s' s''" "atRest s''" "crPool s'' = p'" by metis
  with rtranclp_trans [OF s'(1)] show ?case by blast
qed

text \<open>
  C11: \<open>stop\<close> waits for handlers and nothing else. Once \<open>stop\<close> has closed the channels, the workers and the
  visibility goroutines have no infinite run of their own, whatever the limit of extensions; and where they can do
  nothing more, unless the code behind a handler panics, every worker has left or is in a handler that has not
  returned. A handler blocked there in \<open>Backoff\<close> has lost its visibility goroutine or is on a route of the Scheduled
  model. When no worker is in a handler, the counter is zero, so \<open>stop\<close> returns, every visibility goroutine has
  returned, and every message handed to a worker has been processed.
\<close>

theorem stop_waits_for_handlers_only:
  assumes "crewed d conv parse s" and "managed d" and "crStopping s"
    and "sint (vmExtensionLimit (dVisibility d)) < 2 ^ 63 - 1"
  shows "(\<nexists>f. f 0 = s \<and> (\<forall>k. crew_step d conv (f k) (f (Suc k)))) \<and>
    (rests d conv s \<and> \<not> settlePanics d s \<longrightarrow>
      (\<forall>i < workers s. worker s i = Gone \<or> inHandler s i) \<and>
      (\<forall>i < workers s. \<forall>msg a delay. worker s i = Working msg \<and> crStages s ! i = Blocked a delay \<longrightarrow>
         yReturned (crFlying s ! a) \<or> vmScheduled (dVisibility d)) \<and>
      ((\<forall>i < workers s. \<not> inHandler s i) \<longrightarrow> crWg s = 0 \<and> (\<forall>y \<in> set (crFlying s). yReturned y) \<and>
         mset (map snd (poSent (crPool s))) = mset (map (fst \<circ> snd) (poDone (crPool s)))))"
proof (intro conjI impI allI)
  note inv = crewed_inv [OF assms(1)]
  show "\<nexists>f. f 0 = s \<and> (\<forall>k. crew_step d conv (f k) (f (Suc k)))" by (rule crew_terminates [OF assms(1,4)])
  assume r: "rests d conv s \<and> \<not> settlePanics d s"
  show "worker s i = Gone \<or> inHandler s i" if "i < workers s" for i
    using rests_worker [OF _ inv assms(3) _ that] r by blast
  show "yReturned (crFlying s ! a) \<or> vmScheduled (dVisibility d)"
    if "i < workers s" "worker s i = Working msg \<and> crStages s ! i = Blocked a delay" for i msg a delay
    using rests_blocked [OF _ inv assms(2)] r that by blast
  assume none: "\<forall>i < workers s. \<not> inHandler s i"
  note fin = rests_done [OF _ inv assms(2,3) _ none]
  show "mset (map snd (poSent (crPool s))) = mset (map (fst \<circ> snd) (poDone (crPool s)))" using fin r by blast
  have "live s = 0" using fin r by blast
  then show "crWg s = 0" "\<forall>y \<in> set (crFlying s). yReturned y"
    using inv live_none(2) [of s] by (auto simp: crew_inv_def wg_inv_def in_set_conv_nth)
qed

text \<open>
  C12: The \<open>WaitGroup\<close> counts exactly the goroutines there are, so it is never negative, and it is not raised from
  zero: a crew whose counter is zero has no step. When \<open>stop\<close> has returned no goroutine is left, and none is started
  again.
\<close>

theorem wait_group_counts_goroutines:
  assumes "crewed d conv parse s"
  shows "crWg s = int (live s) \<and>
    (crWg s = 0 \<longrightarrow> (\<forall>s'. \<not> crew_step d conv s s' \<and> \<not> user_step s s')) \<and>
    (crStopped s \<longrightarrow> live s = 0 \<and> set (poWorkers (crPool s)) \<subseteq> {Gone} \<and> (\<forall>y \<in> set (crFlying s). yReturned y) \<and>
       (\<forall>s'. any_step d conv parse s s' \<longrightarrow> live s' = 0))"
proof -
  have inv: "crew_inv d s" using assms by (rule crewed_inv)
  then have wg: "crWg s = int (live s)" "crStopped s \<longrightarrow> live s = 0" by (simp_all add: crew_inv_def wg_inv_def)
  have "set (poWorkers (crPool s)) \<subseteq> {Gone} \<and> (\<forall>y \<in> set (crFlying s). yReturned y)" if "live s = 0"
    using live_none [OF that] by (auto simp: in_set_conv_nth)
  moreover have "live s' = 0" if s: "crStopped s" "any_step d conv parse s s'" for s'
  proof -
    have "poll_step d parse s s'" using s wg live_none_rests [of s] by (auto simp: any_step_def)
    then have "crStopped s'" using s(1) by cases simp_all
    then show ?thesis using crew_inv_step [OF s(2) inv] by (simp add: crew_inv_def wg_inv_def)
  qed
  ultimately show ?thesis using wg live_none_rests [of s] by auto
qed

text \<open>
  C5: Groups stay apart and in order while \<open>process\<close> is interleaved step by step, under either retry model. In
  per-group mode no two workers are ever at messages of the same group; every message is handed, with its routing key,
  to the one worker of that key, in every batch alike; and the messages of a key are processed in the order they were
  handed over, across all batches, and of one batch in particular. Where groups are ordered, what was made of the messages
  of a group of a batch is commits, then at most one failure, and only held messages after it; and the receipt handles
  committed are those of the messages so called, in order.
\<close>

theorem groups_in_order_step_by_step:
  assumes "crewed d conv parse s" and "dMode d = PerGroupID"
  shows "(\<forall>i j m m'. i < workers s \<and> worker s i = Working m \<and> j < workers s \<and> worker s j = Working m' \<and>
      groupKey m = groupKey m' \<longrightarrow> i = j) \<and>
    (\<forall>(i, m) \<in> set (poSent (crPool s)). groupKey m = msgGroupKey d m \<and> i = keyWorker d (groupKey m)) \<and>
    (\<exists>rest. keySent (crPool s) k = map (fst \<circ> snd) (keyDone (crPool s) k) @ rest) \<and>
    (\<exists>rest. groupSent (crPool s) b k = map (fst \<circ> snd) (groupDone (crPool s) b k) @ rest) \<and>
    (orderedGroups d \<longrightarrow> (\<exists>n. groupVerdicts (crPool s) b k = replicate n Committed \<or>
        (\<exists>h. groupVerdicts (crPool s) b k = replicate n Committed @ Failed # replicate h Held)) \<and>
      commits (poTrace (crPool s)) = committed (crPool s))"
proof (intro conjI allI impI)
  have inv: "pool_inv d (crPool s)" "routed d (crPool s)" using crewed_inv [OF assms(1)] by (simp_all add: crew_inv_def)
  show "i = j" if "i < workers s \<and> worker s i = Working m \<and> j < workers s \<and> worker s j = Working m' \<and> groupKey m = groupKey m'"
    for i j m m' using one_worker [OF inv assms(2)] that by blast
  show "\<forall>(i, m) \<in> set (poSent (crPool s)). groupKey m = msgGroupKey d m \<and> i = keyWorker d (groupKey m)"
    using key_worker [OF inv(2) assms(2)] by blast
  show "\<exists>rest. keySent (crPool s) k = map (fst \<circ> snd) (keyDone (crPool s) k) @ rest"
    by (rule key_prefix [OF inv assms(2)])
  show "\<exists>rest. groupSent (crPool s) b k = map (fst \<circ> snd) (groupDone (crPool s) b k) @ rest"
    by (rule group_prefix [OF inv assms(2)])
  assume ord: "orderedGroups d"
  then have "books_inv d s" using crewed_inv [OF assms(1)] by (simp add: crew_inv_def orderedGroups_def route_consts)
  then have "order_inv d (crPool s)" and c: "commits (poTrace (crPool s)) = committed (crPool s)"
    by (simp_all add: books_inv_def)
  then have "orderly (groupVerdicts (crPool s) b k)"
    using ord by (cases "poBarriers (crPool s) b") (auto simp: order_inv_def)
  then show "\<exists>n. groupVerdicts (crPool s) b k = replicate n Committed \<or>
      (\<exists>h. groupVerdicts (crPool s) b k = replicate n Committed @ Failed # replicate h Held)"
    by (simp add: orderly_def)
  show "commits (poTrace (crPool s)) = committed (crPool s)" by (rule c)
qed

section \<open>An example\<close>

text \<open>
  The crew of the example route of \<open>Consumer\<close>: a batch of one message arrives, its worker takes it and calls the
  handler, and \<open>stop\<close> closes the channel.
\<close>

abbreviation crewDispatcher :: dispatcher where
  "crewDispatcher \<equiv> groupDispatcher oneMessage"

abbreviation exampleCrewed :: "crew \<Rightarrow> bool" where
  "exampleCrewed \<equiv> crewed crewDispatcher (\<lambda>d. 0) (\<lambda>b. zero_envelope)"

definition deliveredCrew :: crew where
  "deliveredCrew = (startCrew crewDispatcher False [])\<lparr>crPool := (startPool crewDispatcher [])\<lparr>
     poBarriers := (\<lambda>a. None)(0 := newGroupBarrier),
     poChannels := [(make_chan (nat (sint (dBufferSize crewDispatcher))))\<lparr>buf := [exampleKeyed]\<rparr>],
     poSent := [(0, exampleKeyed)]\<rparr>\<rparr>"

lemma delivered_crewed: "exampleCrewed deliveredCrew"
proof -
  let ?s0 = "startCrew crewDispatcher False []"
  have "exampleCrewed ?s0" unfolding crewed_def by (rule exI [of _ False], rule exI [of _ "[]"]) simp
  moreover
  let ?s1 = "?s0\<lparr>crPool := (crPool ?s0)\<lparr>poBarriers := (poBarriers (crPool ?s0))(0 := newBatchBarrier crewDispatcher)\<rparr>\<rparr>"
  have bar: "newBatchBarrier crewDispatcher = newGroupBarrier"
    by (simp add: newBatchBarrier_def groupDispatcher_simps)
  have "poll_step crewDispatcher (\<lambda>b. zero_envelope) ?s0 ?s1"
    by (rule poll_step.batch) (simp_all add: startCrew_def startPool_def groupDispatcher_simps)
  ultimately have r1: "exampleCrewed ?s1" by (blast intro: crewed_step any_poll)
  define m where "m = (newMessage (\<lambda>b. zero_envelope) (original example_message))\<lparr>barrier := Some 0\<rparr>"
  have idx: "workerIndex (crewDispatcher\<lparr>dRandIntN := \<lambda>n. Return 0\<rparr>) m = (Return 0, exampleKeyed)"
    by (simp add: example_index m_def exampleKeyed_def)
  have enq: "enqueue 0 exampleKeyed (crPool ?s1) = Enqueued (crPool deliveredCrew)"
    using groupDispatcher_simps(7,8) [of oneMessage]
    by (simp add: enqueue_def channelAt_def startCrew_def startPool_def send_def make_chan_def deliveredCrew_def bar)
  have m: "m \<in> set (deliveries (\<lambda>b. zero_envelope) (Some 0) [original example_message])"
    by (simp add: deliveries_def m_def)
  have alive: "case Some 0 of None \<Rightarrow> \<not> orderedGroups crewDispatcher
      | Some a \<Rightarrow> orderedGroups crewDispatcher \<and> poBarriers (crPool ?s1) a \<noteq> None"
    by (simp add: groupDispatcher_simps bar newGroupBarrier_def)
  have "\<not> crStopping ?s1" by (simp add: startCrew_def)
  from poll_step.deliver [OF this legalRand_exists m alive idx enq]
  have "poll_step crewDispatcher (\<lambda>b. zero_envelope) ?s1 deliveredCrew"
    by (simp add: startCrew_def deliveredCrew_def)
  with r1 show ?thesis by (blast intro: crewed_step any_poll)
qed

lemma example_crewed:
  "\<exists>s. exampleCrewed s \<and> crStopping s \<and> workers s = 1 \<and> worker s 0 = Working exampleKeyed \<and> crStages s ! 0 = Handling 0 \<and>
     poSent (crPool s) = [(0, exampleKeyed)] \<and> poDone (crPool s) = []"
proof -
  let ?d = crewDispatcher
  have one: "poolSize ?d = 1" by (simp add: groupDispatcher_simps)
  define ch :: "message chan" where "ch = make_chan (nat (sint (dBufferSize ?d)))"
  have del: "workers deliveredCrew = 1" "worker deliveredCrew 0 = Idle" "crStages deliveredCrew = [Fetched]"
    "poChannels (crPool deliveredCrew) = [ch\<lparr>buf := [exampleKeyed]\<rparr>]" "poBarriers (crPool deliveredCrew) 0 = newGroupBarrier"
    "\<not> crStopping deliveredCrew" "poSent (crPool deliveredCrew) = [(0, exampleKeyed)]" "poDone (crPool deliveredCrew) = []"
    by (simp_all add: deliveredCrew_def startCrew_def startPool_def one ch_def)
  have rcv: "recv (poChannels (crPool deliveredCrew) ! 0) = Received exampleKeyed (ch\<lparr>buf := []\<rparr>)"
    by (simp add: del recv_def)
  define s1 where "s1 = stageTo 0 Fetched (deliveredCrew\<lparr>crPool := (crPool deliveredCrew)\<lparr>
    poChannels := (poChannels (crPool deliveredCrew))[0 := ch\<lparr>buf := []\<rparr>],
    poWorkers := (poWorkers (crPool deliveredCrew))[0 := Working exampleKeyed]\<rparr>\<rparr>)"
  have "crew_step ?d (\<lambda>d. 0) deliveredCrew s1"
    unfolding s1_def by (rule crew_step.take [OF _ del(2) rcv]) (simp add: del)
  then have r1: "exampleCrewed s1" by (intro crewed_step [OF delivered_crewed]) (simp add: any_step_def)
  have at1: "workers s1 = 1" "worker s1 0 = Working exampleKeyed" "crStages s1 = [Fetched]" "\<not> crStopping s1"
    "poChannels (crPool s1) = [ch\<lparr>buf := []\<rparr>]" "poBarriers (crPool s1) 0 = newGroupBarrier"
    "poSent (crPool s1) = [(0, exampleKeyed)]" "poDone (crPool s1) = []"
    using del by (simp_all add: s1_def)
  have nh: "\<not> held ?d (processState exampleKeyed (crPool s1))"
    by (simp add: held_processState heldIn_def barrier_exampleKeyed at1)
  define s2 where "s2 = stageTo 0 (Handling (length (crFlying s1))) (s1\<lparr>crWg := crWg s1 + 1,
    crPool := recordIn [SpawnVisibility (Identifier exampleKeyed)] (crPool s1),
    crFlying := crFlying s1 @ [goVisibility (dVisibility ?d) exampleKeyed]\<rparr>)"
  have "crew_step ?d (\<lambda>d. 0) s1 s2"
    unfolding s2_def by (rule crew_step.launch [OF _ at1(2) _ nh]) (simp_all add: at1)
  then have r2: "exampleCrewed s2" by (intro crewed_step [OF r1]) (simp add: any_step_def)
  have at2: "workers s2 = 1" "worker s2 0 = Working exampleKeyed" "crStages s2 = [Handling 0]" "\<not> crStopping s2"
    "poChannels (crPool s2) = [ch\<lparr>buf := []\<rparr>]" "poSent (crPool s2) = [(0, exampleKeyed)]" "poDone (crPool s2) = []"
    using at1 by (simp_all add: s2_def) (simp add: s1_def deliveredCrew_def startCrew_def)
  let ?s3 = "s2\<lparr>crStopping := True, crPool := (crPool s2)\<lparr>poChannels := [ch\<lparr>buf := [], closed := True\<rparr>]\<rparr>\<rparr>"
  have "poll_step ?d (\<lambda>b. zero_envelope) s2 ?s3"
    by (rule poll_step.stop) (simp_all add: at2 close_chan_def ch_def make_chan_def)
  then have "exampleCrewed ?s3" by (intro crewed_step [OF r2]) (simp add: any_step_def)
  then show ?thesis by (intro exI [of _ ?s3] conjI) (simp_all add: at2)
qed

lemma crewDispatcher_managed: "managed crewDispatcher" "sint (vmExtensionLimit (dVisibility crewDispatcher)) < 2 ^ 63 - 1"
  "dMode crewDispatcher = PerGroupID"
  by (simp_all add: managed_def groupDispatcher_simps)
    (simp_all add: groupDispatcher_def newDispatcher_def newVisibilityManager_def groupRoute_def defaultRoute_def
      route_consts Let_def split: option.split)

lemma stop_waits_for_handlers_only_witness:
  "\<exists>s. exampleCrewed s \<and> crStages s ! 0 = Handling 0 \<and>
     (\<nexists>f. f 0 = s \<and> (\<forall>k. crew_step crewDispatcher (\<lambda>d. 0) (f k) (f (Suc k))))"
proof -
  from example_crewed obtain s where s: "exampleCrewed s" "crStopping s" "crStages s ! 0 = Handling 0" by blast
  with stop_waits_for_handlers_only [OF s(1) crewDispatcher_managed(1) s(2) crewDispatcher_managed(2)]
  show ?thesis by blast
qed

lemma wait_group_counts_goroutines_witness:
  "\<exists>s. exampleCrewed s \<and> crStages s ! 0 = Handling 0 \<and> crWg s = int (live s)"
proof -
  from example_crewed obtain s where s: "exampleCrewed s" "crStages s ! 0 = Handling 0" by blast
  with wait_group_counts_goroutines [OF s(1)] show ?thesis by blast
qed

lemma groups_in_order_step_by_step_witness:
  "\<exists>s. exampleCrewed s \<and> poSent (crPool s) = [(0, exampleKeyed)] \<and> commits (poTrace (crPool s)) = [] \<and>
     keyWorker crewDispatcher (groupKey exampleKeyed) = 0"
proof -
  from example_crewed obtain s where s: "exampleCrewed s" "poSent (crPool s) = [(0, exampleKeyed)]" "poDone (crPool s) = []"
    by blast
  note order = groups_in_order_step_by_step [OF s(1) crewDispatcher_managed(3)]
  from order s(3) have "commits (poTrace (crPool s)) = []" by (auto simp: groupDispatcher_simps committed_def)
  moreover have "(0, exampleKeyed) \<in> set (poSent (crPool s))" by (simp add: s(2))
  from bspec [OF order [THEN conjunct2, THEN conjunct1] this]
  have "keyWorker crewDispatcher (groupKey exampleKeyed) = 0" unfolding prod.case by (elim conjE) (rule sym)
  ultimately show ?thesis using s(1,2) by blast
qed

lemma pool_runs_are_goroutine_runs_witness:
  "\<exists>s'. (goroutine_step crewDispatcher (\<lambda>d. 0))\<^sup>*\<^sup>* deliveredCrew s' \<and>
     doneBy (crPool s') 0 = [exampleKeyed]"
proof -
  let ?p = "crPool deliveredCrew" and ?d = crewDispatcher
  have del: "poWorkers ?p = [Idle]" "poDone ?p = []" "length (crStages deliveredCrew) = 1"
    by (simp_all add: deliveredCrew_def startCrew_def startPool_def groupDispatcher_simps)
  obtain ch where rcv: "recv (poChannels ?p ! 0) = Received exampleKeyed ch" by (simp add: deliveredCrew_def recv_def)
  let ?p1 = "?p\<lparr>poChannels := (poChannels ?p)[0 := ch], poWorkers := (poWorkers ?p)[0 := Working exampleKeyed]\<rparr>"
  have "pool_step ?d exampleCtx ?p ?p1" by (rule pool_step.take [OF _ _ rcv]) (simp_all add: del)
  moreover obtain st where st: "process ?d exampleCtx (processState exampleKeyed ?p1) = (Return (), st)"
    using example_process by blast
  have "\<exists>p2. pool_step ?d exampleCtx ?p1 p2 \<and> doneBy p2 0 = [exampleKeyed]"
    by (rule exI, rule conjI, rule pool_step.work [OF _ _ st, of 0]) (simp_all add: del doneBy_def)
  then obtain p2 where p2: "pool_step ?d exampleCtx ?p1 p2" "doneBy p2 0 = [exampleKeyed]" by blast
  ultimately have run: "(pool_step ?d exampleCtx)\<^sup>*\<^sup>* ?p p2" by (meson r_into_rtranclp rtranclp.rtrancl_into_rtrancl)
  have "atRest deliveredCrew" by (simp add: atRest_def del)
  moreover have "scripted (dHandler ?d)"
    by (auto simp: scripted_def groupDispatcher_simps absorb_def intro!: exI [of _ "[]"])
  ultimately show ?thesis using pool_runs_are_goroutine_runs [OF run, of "\<lambda>d. 0"] p2(2) by blast
qed

end
