(* ===== verification/Route_Settings.thy ===== *)
theory Route_Settings
  imports Router
begin

text \<open>
  The accessors of a route (\<open>src/router/router.go\<close>) and what they report of a route \<open>New\<close> made: for each setting the
  last value an option gave it, or the default. Every setting is a field that options set and none reads, the contract
  \<open>settable_field\<close>; the middlewares are those of all options, in order.
\<close>

section \<open>Accessors\<close>

definition QueueName :: "route \<Rightarrow> string" where "QueueName r = queueName r"
definition Handler :: "route \<Rightarrow> handler" where "Handler r = handler r"
definition Middlewares :: "route \<Rightarrow> middleware list" where "Middlewares r = middlewares r"
definition WorkerPoolSize :: "route \<Rightarrow> go_int" where "WorkerPoolSize r = workerPoolSize r"
definition MaxMessages :: "route \<Rightarrow> go_int32" where "MaxMessages r = maxMessages r"
definition WaitTimeSeconds :: "route \<Rightarrow> go_int32" where "WaitTimeSeconds r = waitTimeSeconds r"
definition VisibilityTimeout :: "route \<Rightarrow> go_int32" where "VisibilityTimeout r = visibilityTimeout r"
definition ExtensionLimit :: "route \<Rightarrow> go_int" where "ExtensionLimit r = extensionLimit r"
definition RunMode :: "route \<Rightarrow> mode" where "RunMode r = runMode r"
definition CustomGroupFields :: "route \<Rightarrow> string list" where "CustomGroupFields r = customGroupFields r"
definition DLQ :: "route \<Rightarrow> dlq_config option" where "DLQ r = dlqConfig r"
definition RetryModel :: "route \<Rightarrow> retry_model" where "RetryModel r = retryModel r"
definition ScheduledRetry :: "route \<Rightarrow> sched_config option" where "ScheduledRetry r = scheduledRetry r"
definition DeleteBatch :: "route \<Rightarrow> bool" where "DeleteBatch r = deleteBatch r"

lemmas accessors = QueueName_def Handler_def Middlewares_def WorkerPoolSize_def MaxMessages_def WaitTimeSeconds_def
  VisibilityTimeout_def ExtensionLimit_def RunMode_def CustomGroupFields_def DLQ_def RetryModel_def ScheduledRetry_def
  DeleteBatch_def

section \<open>What an option sets\<close>

fun poolSizeIn :: "route_option \<Rightarrow> go_int option" where
  "poolSizeIn (WithWorkerPoolSize n) = Some n" | "poolSizeIn _ = None"

fun maxMessagesIn :: "route_option \<Rightarrow> go_int32 option" where
  "maxMessagesIn (WithMaxMessages n) = Some n" | "maxMessagesIn _ = None"

fun waitIn :: "route_option \<Rightarrow> go_int32 option" where
  "waitIn (WithWaitTimeSeconds n) = Some n" | "waitIn _ = None"

fun timeoutIn :: "route_option \<Rightarrow> go_int32 option" where
  "timeoutIn (WithVisibilityTimeout n) = Some n" | "timeoutIn _ = None"

fun limitIn :: "route_option \<Rightarrow> go_int option" where
  "limitIn (WithExtensionLimit n) = Some n" | "limitIn _ = None"

fun modeIn :: "route_option \<Rightarrow> mode option" where
  "modeIn (WithRunMode m) = Some m" | "modeIn _ = None"

fun fieldsIn :: "route_option \<Rightarrow> string list option" where
  "fieldsIn (WithCustomGroupFields fs) = Some (filter (\<lambda>f. f \<noteq> []) fs)" | "fieldsIn _ = None"

fun middlewaresIn :: "route_option \<Rightarrow> middleware list" where
  "middlewaresIn (WithMiddleware mws) = List.map_filter (\<lambda>m. m) mws" | "middlewaresIn _ = []"

fun dlqIn :: "route_option \<Rightarrow> dlq_config option option" where
  "dlqIn (WithDLQ n opts) = Some (Some (applySubs applyDLQ opts \<lparr>OnDLQ = None, MaxReceiveCount = n\<rparr>))" | "dlqIn _ = None"

fun modelIn :: "route_option \<Rightarrow> retry_model option" where
  "modelIn (WithRetryModel m) = Some m" | "modelIn (WithScheduledRetry opts) = Some ScheduledRetryModel" | "modelIn _ = None"

fun schedIn :: "route_option \<Rightarrow> sched_config option option" where
  "schedIn (WithScheduledRetry opts) = Some (Some (assembleSched opts))" | "schedIn _ = None"

fun batchIn :: "route_option \<Rightarrow> bool option" where
  "batchIn WithDeleteBatch = Some True" | "batchIn _ = None"

text \<open>Every setting follows its options.\<close>

lemma applyRoute_fields:
  assumes "applyRoute opt r = Inr r'"
  shows "workerPoolSize r' = (case poolSizeIn opt of None \<Rightarrow> workerPoolSize r | Some v \<Rightarrow> v) \<and>
    maxMessages r' = (case maxMessagesIn opt of None \<Rightarrow> maxMessages r | Some v \<Rightarrow> v) \<and>
    waitTimeSeconds r' = (case waitIn opt of None \<Rightarrow> waitTimeSeconds r | Some v \<Rightarrow> v) \<and>
    visibilityTimeout r' = (case timeoutIn opt of None \<Rightarrow> visibilityTimeout r | Some v \<Rightarrow> v) \<and>
    extensionLimit r' = (case limitIn opt of None \<Rightarrow> extensionLimit r | Some v \<Rightarrow> v) \<and>
    runMode r' = (case modeIn opt of None \<Rightarrow> runMode r | Some v \<Rightarrow> v) \<and>
    customGroupFields r' = (case fieldsIn opt of None \<Rightarrow> customGroupFields r | Some v \<Rightarrow> v) \<and>
    middlewares r' = middlewares r @ middlewaresIn opt \<and>
    dlqConfig r' = (case dlqIn opt of None \<Rightarrow> dlqConfig r | Some v \<Rightarrow> v) \<and>
    retryModel r' = (case modelIn opt of None \<Rightarrow> retryModel r | Some v \<Rightarrow> v) \<and>
    scheduledRetry r' = (case schedIn opt of None \<Rightarrow> scheduledRetry r | Some v \<Rightarrow> v) \<and>
    deleteBatch r' = (case batchIn opt of None \<Rightarrow> deleteBatch r | Some v \<Rightarrow> v) \<and>
    queueName r' = queueName r \<and> handler r' = handler r"
proof (cases opt)
  case (WithScheduledRetry opts)
  from assms show ?thesis unfolding WithScheduledRetry applySchedRetry_Inr by simp
qed (use assms in \<open>simp_all only: applyRoute.simps go_simps sum.inject, ((elim conjE)?, hypsubst, simp)+\<close>)

interpretation poolSize_field: settable_field applyRoute workerPoolSize poolSizeIn
  by unfold_locales (use applyRoute_fields in blast)

interpretation maxMessages_field: settable_field applyRoute maxMessages maxMessagesIn
  by unfold_locales (use applyRoute_fields in blast)

interpretation wait_field: settable_field applyRoute waitTimeSeconds waitIn
  by unfold_locales (use applyRoute_fields in blast)

interpretation timeout_field: settable_field applyRoute visibilityTimeout timeoutIn
  by unfold_locales (use applyRoute_fields in blast)

interpretation limit_field: settable_field applyRoute extensionLimit limitIn
  by unfold_locales (use applyRoute_fields in blast)

interpretation mode_field: settable_field applyRoute runMode modeIn
  by unfold_locales (use applyRoute_fields in blast)

interpretation group_field: settable_field applyRoute customGroupFields fieldsIn
  by unfold_locales (use applyRoute_fields in blast)

interpretation dlq_field: settable_field applyRoute dlqConfig dlqIn
  by unfold_locales (use applyRoute_fields in blast)

interpretation model_field: settable_field applyRoute retryModel modelIn
  by unfold_locales (use applyRoute_fields in blast)

interpretation sched_field: settable_field applyRoute scheduledRetry schedIn
  by unfold_locales (use applyRoute_fields in blast)

interpretation batch_field: settable_field applyRoute deleteBatch batchIn
  by unfold_locales (use applyRoute_fields in blast)

definition middlewaresOf :: "route_option option list \<Rightarrow> middleware list" where
  "middlewaresOf opts = concat (map (\<lambda>x. case x of None \<Rightarrow> [] | Some opt \<Rightarrow> middlewaresIn opt) opts)"

lemma options_middlewares:
  "applyOptions applyRoute opts r = Inr r' \<Longrightarrow> middlewares r' = middlewares r @ middlewaresOf opts"
proof (induction opts arbitrary: r)
  case (Cons x opts)
  show ?case
  proof (cases x)
    case None
    with Cons show ?thesis by (simp add: middlewaresOf_def)
  next
    case (Some opt)
    with Cons.prems obtain r1 where r1: "applyRoute opt r = Inr r1" "applyOptions applyRoute opts r1 = Inr r'"
      by (auto split: sum.splits)
    with Some Cons.IH applyRoute_fields [OF r1(1)] show ?thesis by (simp add: middlewaresOf_def)
  qed
qed (simp add: middlewaresOf_def)

section \<open>Property\<close>

text \<open>
  C38: A route \<open>New\<close> returned reports through its accessors exactly what it was asked for: the queue and the handler
  given, for every other setting the last value an option gave it or its default, the middlewares of all options in
  order, and a visibility timeout of at least 11 seconds. No option disturbs the setting of another, except that
  \<open>WithScheduledRetry\<close> also selects the retry model.
\<close>

theorem route_reports_its_options:
  assumes "NewRoute q (Some h) opts = Inr r"
  shows "QueueName r = q \<and> Handler r = h \<and> Middlewares r = middlewaresOf opts \<and>
    WorkerPoolSize r = lastOf poolSizeIn 5 opts \<and> MaxMessages r = lastOf maxMessagesIn 10 opts \<and>
    WaitTimeSeconds r = lastOf waitIn 10 opts \<and>
    sint (VisibilityTimeout r) = max 11 (sint (lastOf timeoutIn 30 opts)) \<and>
    ExtensionLimit r = lastOf limitIn 2 opts \<and> RunMode r = lastOf modeIn Parallel opts \<and>
    CustomGroupFields r = lastOf fieldsIn [] opts \<and> DLQ r = lastOf dlqIn None opts \<and>
    RetryModel r = lastOf modelIn VisibilityRetryModel opts \<and> ScheduledRetry r = lastOf schedIn None opts \<and>
    DeleteBatch r = lastOf batchIn False opts"
proof -
  obtain r' where o': "applyOptions applyRoute opts (defaultRoute q h) = Inr r'" and r: "r = clampVisibility r'"
    using assms by (auto simp: NewRoute_Inr)
  have keep: "queueName r' = q" "handler r' = h"
    using rname.options_inv [OF _ o', where q = q and h = h] by (simp_all add: defaultRoute_def)
  have clamp: "sint (visibilityTimeout r) = max 11 (sint (visibilityTimeout r'))"
    by (simp add: r clampVisibility_def minVisibilityTimeout_def go_sint max_def)
  note settings = poolSize_field.options_field [OF o'] maxMessages_field.options_field [OF o'] wait_field.options_field [OF o']
    timeout_field.options_field [OF o'] limit_field.options_field [OF o'] mode_field.options_field [OF o']
    group_field.options_field [OF o'] dlq_field.options_field [OF o'] model_field.options_field [OF o']
    sched_field.options_field [OF o'] batch_field.options_field [OF o'] options_middlewares [OF o']
  from settings keep clamp show ?thesis
    by (simp add: accessors defaultRoute_def) (simp add: r clampVisibility_def)
qed

lemma route_reports_its_options_witness:
  "\<exists>r. NewRoute ''orders'' (Some exampleHandler)
      [Some (WithWorkerPoolSize 8), None, Some (WithVisibilityTimeout 3), Some (WithWorkerPoolSize 2)] = Inr r \<and>
    WorkerPoolSize r = 2 \<and> sint (VisibilityTimeout r) = 11 \<and> MaxMessages r = 10"
proof -
  let ?opts = "[Some (WithWorkerPoolSize 8), None, Some (WithVisibilityTimeout 3), Some (WithWorkerPoolSize 2)]"
  obtain r where r: "NewRoute ''orders'' (Some exampleHandler) ?opts = Inr r"
    by (simp add: NewRoute_def go_sint)
  with route_reports_its_options [OF r] show ?thesis by simp
qed

end
