(* ===== verification/Logger.thy ===== *)
theory Logger
  imports Broker
begin

text \<open>
  The package \<open>logger\<close> (\<open>src/logger/logger.go\<close>, \<open>noop.go\<close>): the two constructors over the handlers of \<open>log/slog\<close>, and
  what they write of the records the library logs. The text of a written record is the business of \<open>slog\<close>.
\<close>

text \<open>\<open>slog.DiscardHandler\<close>, and a \<open>slog.TextHandler\<close> on \<open>os.Stdout\<close> with its level, \<open>Info\<close> unless an option sets it.\<close>

datatype slog_handler = DiscardHandler | TextHandler "level option"

fun accepts :: "slog_handler \<Rightarrow> level \<Rightarrow> bool" where
  "accepts DiscardHandler l \<longleftrightarrow> False"
| "accepts (TextHandler least) l \<longleftrightarrow> (case least of None \<Rightarrow> LevelInfo | Some l \<Rightarrow> l) \<le> l"

definition loggerNew :: slog_handler where
  "loggerNew = TextHandler None"

definition loggerNewNoOp :: slog_handler where
  "loggerNewNoOp = DiscardHandler"

text \<open>The handler behind a logger; that of a user is an argument.\<close>

fun handlerOf :: "(nat \<Rightarrow> slog_handler) \<Rightarrow> logger \<Rightarrow> slog_handler" where
  "handlerOf own NewNoOp = loggerNewNoOp"
| "handlerOf own NewLogger = loggerNew"
| "handlerOf own (UserLogger n) = own n"

text \<open>The records among the events that are written to standard output.\<close>

definition written :: "slog_handler \<Rightarrow> trace \<Rightarrow> event list" where
  "written h t = filter (\<lambda>e. case e of Log l msg args \<Rightarrow> accepts h l | _ \<Rightarrow> False) t"

definition logRecords :: "trace \<Rightarrow> event list" where
  "logRecords t = filter (\<lambda>e. case e of Log l msg args \<Rightarrow> True | _ \<Rightarrow> False) t"

lemma written_default:
  "written loggerNewNoOp t = []" "written loggerNew t = logRecords t"
  by (auto simp: written_def logRecords_def loggerNewNoOp_def loggerNew_def filter_empty_conv
      split: event.splits intro!: filter_cong)

text \<open>The logger is a field the options set; a nil one is ignored.\<close>

fun consumerLogIn :: "consumer_option \<Rightarrow> logger option" where
  "consumerLogIn (WithLogger l) = l" | "consumerLogIn _ = None"

fun brokerLogIn :: "broker_option \<Rightarrow> logger option" where
  "brokerLogIn (BrokerLogger l) = l" | "brokerLogIn _ = None"

interpretation consumer_log: settable_field applyConsumer coLog consumerLogIn
proof
  show "coLog c' = (case consumerLogIn opt of None \<Rightarrow> coLog c | Some v \<Rightarrow> v)" if "applyConsumer opt c = Inr c'" for opt c c'
    using that by (cases opt) (auto split: if_splits option.splits)
qed

interpretation broker_log: settable_field applyBroker bkLog brokerLogIn
proof
  show "bkLog c' = (case brokerLogIn opt of None \<Rightarrow> bkLog c | Some v \<Rightarrow> v)" if "applyBroker opt c = Inr c'" for opt c c'
    using that by (cases opt) (auto split: if_splits option.splits)
qed

text \<open>
  Nothing a consumer does is written unless it is given a logger; a broker writes every record of its consumers, since
  they get its logger, which is the one on standard output unless it is given another.
\<close>

lemma consumer_logger:
  assumes "NewConsumer cl r opts = Inr co"
  shows "coLog co = lastOf consumerLogIn NewNoOp opts"
  using assms by (auto simp: NewConsumer_def dest!: consumer_log.options_field split: option.splits)

lemma broker_logger:
  assumes "NewBroker cl rs opts = Inr b"
  shows "bkLog b = lastOf brokerLogIn NewLogger opts"
  using assms by (auto simp: NewBroker_def dest!: broker_log.options_field split: option.splits if_splits)

lemma silent_consumer:
  assumes "NewConsumer cl r opts = Inr co" and "lastOf consumerLogIn NewNoOp opts = NewNoOp"
  shows "written (handlerOf own (coLog co)) t = []"
  using consumer_logger [OF assms(1)] assms(2) by (simp add: written_default)

lemma broker_writes_its_consumers:
  assumes "NewBroker cl rs opts = Inr b" and "lastOf brokerLogIn NewLogger opts = NewLogger" and "memberConsumer b r = Inr co"
  shows "written (handlerOf own (coLog co)) t = logRecords t"
proof -
  have "coLog co = bkLog b" using assms(3) by (simp add: memberConsumer_def consumer_logger)
  then show ?thesis using broker_logger [OF assms(1)] assms(2) by (simp add: written_default)
qed

end
