(* ===== verification/Scheduler_Program.thy ===== *)
theory Scheduler_Program
  imports Local_Scheduler Producer_Example
begin

text \<open>
  The program \<open>src/examples/localscheduler/main.go\<close> as a whole: the connection, then the polling loop of
  \<open>Local_Scheduler\<close>. The SDK's loader and its two clients, \<open>scheduler.NewFromConfig\<close> and \<open>sqs.NewFromConfig\<close>, are
  parameters; the events of the two channels are given, as to \<open>pollLoop\<close>.
\<close>

definition simulatorMain :: "(load_option list \<Rightarrow> err + 'cfg) \<Rightarrow> ('cfg \<Rightarrow> simulator) \<Rightarrow> sim_wake list \<Rightarrow>
    ((exit + bool) \<times> sim_trace) option" where
  "simulatorMain load fromConfig ws = (case NewConn load localConn of
     Inl e \<Rightarrow> Some (Inl (Fatal ''failed to create AWS config'' e), [])
   | Inr cfg \<Rightarrow> map_option (map_prod Inr id)
       (pollLoop (fromConfig cfg) ws [SimLog ''local EventBridge Scheduler simulator started'']))"

text \<open>
  The program exits early only when the configuration cannot be loaded, and then it has called nothing. Otherwise it
  deletes a schedule only after the message of it was accepted, and if the listings are finite it ends exactly when
  it is interrupted.
\<close>

lemma simulator_program:
  "simulatorMain load fromConfig ws = Some (Inl x, t) \<Longrightarrow> t = []"
  "simulatorMain load fromConfig ws = Some (Inr stopped, t) \<Longrightarrow> \<exists>cfg. NewConn load localConn = Inr cfg \<and>
     deletes_are_sent (fromConfig cfg) t"
  "NewConn load localConn = Inr cfg \<Longrightarrow>
     (\<And>u sus tok. N \<le> furtherPages u \<Longrightarrow> listSchedules (fromConfig cfg) u \<noteq> Inr (sus, Some tok)) \<Longrightarrow>
     \<exists>t. simulatorMain load fromConfig ws = Some (Inr (Interrupted \<in> set ws), t)"
proof -
  show "t = []" if "simulatorMain load fromConfig ws = Some (Inl x, t)"
    using that by (auto simp: simulatorMain_def split: sum.splits)
  show "\<exists>cfg. NewConn load localConn = Inr cfg \<and> deletes_are_sent (fromConfig cfg) t"
    if "simulatorMain load fromConfig ws = Some (Inr stopped, t)"
  proof -
    from that obtain cfg where "NewConn load localConn = Inr cfg"
      and run: "pollLoop (fromConfig cfg) ws [SimLog ''local EventBridge Scheduler simulator started''] = Some (stopped, t)"
      by (auto simp: simulatorMain_def split: sum.splits)
    moreover have "deletes_are_sent (fromConfig cfg) t"
      by (rule deletes_are_sent_loop [OF run]) (simp add: deletes_are_sent_def)
    ultimately show ?thesis by blast
  qed
  show "\<exists>t. simulatorMain load fromConfig ws = Some (Inr (Interrupted \<in> set ws), t)"
    if "NewConn load localConn = Inr cfg"
      and "\<And>u sus tok. N \<le> furtherPages u \<Longrightarrow> listSchedules (fromConfig cfg) u \<noteq> Inr (sus, Some tok)"
    using loop_returns [OF that(2), of N ws "[SimLog ''local EventBridge Scheduler simulator started'']"] that(1)
    by (auto simp: simulatorMain_def)
qed

end
