(* ===== verification/Program_Ends.thy ===== *)
theory Program_Ends
  imports Consumer_Examples
begin

text \<open>
  What the programs of \<open>src/examples/\<close> do beside and after \<open>Run\<close>: the lines printed and the exit, for the result of
  \<open>Run\<close>, and in \<open>middleware/main.go\<close> the goroutine that serves the metrics and the shutdown of the two auxiliary
  components. The HTTP server and the exporter are code outside \<open>src/\<close>; what they return is given.
\<close>

section \<open>After Run\<close>

text \<open>How the program exits, if it does, and what it prints.\<close>

definition ended :: "string \<Rightarrow> string \<Rightarrow> err option \<Rightarrow> exit option \<times> trace" where
  "ended bad fine r = (case r of
     Some e \<Rightarrow> (Some (Fatal bad e), [])
   | None \<Rightarrow> (None, [Log LevelInfo fine []]))"

definition basicEnd :: "err option \<Rightarrow> exit option \<times> trace" where
  "basicEnd = ended ''broker stopped with error'' ''broker stopped gracefully''"

definition fifoEnd :: "err option \<Rightarrow> exit option \<times> trace" where
  "fifoEnd = ended ''broker stopped with error'' ''broker stopped gracefully''"

definition typedEnd :: "err option \<Rightarrow> exit option \<times> trace" where
  "typedEnd = ended ''broker stopped with error'' ''broker stopped gracefully''"

definition scheduledEnd :: "err option \<Rightarrow> exit option \<times> trace" where
  "scheduledEnd = ended ''consumer stopped with error'' ''consumer stopped gracefully''"

section \<open>The middleware program\<close>

text \<open>\<open>http.ErrServerClosed\<close> is what \<open>ListenAndServe\<close> returns after a shutdown; \<open>byShutdown\<close> recognises it.\<close>

definition serveMetrics :: "(err \<Rightarrow> bool) \<Rightarrow> err option \<Rightarrow> trace" where
  "serveMetrics byShutdown result =
     Log LevelInfo ''serving Prometheus metrics'' [(''addr'', LStr '':9090''), (''path'', LStr ''/metrics'')] #
     (case result of None \<Rightarrow> [] | Some e \<Rightarrow>
       if byShutdown e then [] else [Log LevelError ''metrics server stopped with error'' [(''error'', LErr e)]])"

definition reporting :: "string \<Rightarrow> err option \<Rightarrow> trace" where
  "reporting text r = (case r of None \<Rightarrow> [] | Some e \<Rightarrow> [Log LevelError text [(''error'', LErr e)]])"

text \<open>The results of the two shutdowns, then that of \<open>Run\<close>; an exit is \<open>os.Exit(1)\<close> after its line.\<close>

definition middlewareEnd :: "err option \<Rightarrow> err option \<Rightarrow> err option \<Rightarrow> exit option \<times> trace" where
  "middlewareEnd server tracer r =
     (let t = reporting ''failed to shut down metrics server'' server @
        reporting ''failed to shut down tracer provider'' tracer
      in case r of
           Some e \<Rightarrow> (Some (Fatal ''broker stopped with error'' e), t @ [Log LevelError ''broker stopped with error'' [(''error'', LErr e)]])
         | None \<Rightarrow> (None, t @ [Log LevelInfo ''broker stopped gracefully'' []]))"

text \<open>
  Whether a program fails depends on \<open>Run\<close> alone, not on the shutdown of the auxiliary components; the line
  about a graceful stop is the last one printed exactly when it does not fail.
\<close>

lemma ends_with_run:
  "fst (ended bad fine r) = exitOf bad r" "fst (middlewareEnd server tracer r) = exitOf ''broker stopped with error'' r"
  "snd (ended bad fine r) = [Log LevelInfo fine []] \<longleftrightarrow> r = None"
  "last (snd (middlewareEnd server tracer r)) = Log LevelInfo ''broker stopped gracefully'' [] \<longleftrightarrow> r = None"
  by (simp_all add: ended_def middlewareEnd_def exitOf_def Let_def split: option.split)

lemmas program_ends = basicEnd_def fifoEnd_def typedEnd_def ends_with_run

text \<open>
  The broker programs to their very end: they report a graceful stop exactly when they do not fail, which takes an
  interrupt, and they fail only because the queue URL cannot be resolved.
\<close>

lemma broker_programs_end:
  assumes "runs_to_end b ctx parse" and "brokered b ctx parse st" and "bsPhase st = Returned r"
    and "e' \<in> {basicEnd r, fifoEnd r, typedEnd r, middlewareEnd server tracer r}"
  shows "case fst e' of
     None \<Rightarrow> bsExternal st \<and> last (snd e') = Log LevelInfo ''broker stopped gracefully'' []
   | Some x \<Rightarrow> \<exists>e. x = Fatal ''broker stopped with error'' e \<and> errIs e ErrQueueResolve"
proof -
  have "fst e' = exitOf ''broker stopped with error'' r" using assms(4) by (auto simp: program_ends)
  moreover have "last (snd e') = Log LevelInfo ''broker stopped gracefully'' []" if "fst e' = None"
    using assms(4) that
    by (auto simp: basicEnd_def fifoEnd_def typedEnd_def ended_def middlewareEnd_def Let_def split: option.splits)
  moreover have "case exitOf ''broker stopped with error'' r of None \<Rightarrow> bsExternal st
      | Some x \<Rightarrow> \<exists>e. x = Fatal ''broker stopped with error'' e \<and> errIs e ErrQueueResolve"
    using assms(1-3) by (auto simp: runs_to_end_def)
  ultimately show ?thesis by (auto split: option.splits)
qed

end
