(* ===== verification/Spec2Isabelle.thy ===== *)
theory Spec2Isabelle
  imports Errors Channels Clients Message Middleware Router Barrier Backoff Idgen Go_Time Go_Json
    Retry Visibility Dispatcher Worker_Pool Delete_Batcher Consumer Service Broker Producer Typed Client Conn
    Collectors Fake Log_Handler Go_Parse Local_Scheduler Retry_Loop Bench_Client Producer_Example Consumer_Examples
    Goroutines Goroutine_Runs Route_Settings Logger Scheduler_Program Program_Ends
begin

text \<open>
  A verification development of \<^verbatim>\<open>loafer-awsx\<close>, a Go library that consumes AWS SQS queues and
  publishes to AWS SNS topics.

  \<^bold>\<open>The program.\<close> A program declares routes (a queue, a handler, options) and runs a consumer of one
  route or a broker of several. A consumer polls its queue and hands the messages to a pool of worker
  goroutines, chosen at random or, to keep the order of a FIFO group, by a hash of the group key. A worker
  runs the handler through the middleware chain while a visibility goroutine keeps the message hidden in
  the queue, and then commits the message (deletes it, at once or through the batching senders), leaves it
  for redelivery, schedules a retry through EventBridge Scheduler, or publishes it to a dead-letter queue.
  The producer publishes single messages and batches, with identifiers from generators.

  \<^bold>\<open>Theories and the code they model\<close> (paths under \<open>src/\<close>).
  \<^item> \<open>Go_Base\<close>, \<open>Go_Strconv\<close>, \<open>Go_Time\<close>, \<open>Go_Parse\<close>, \<open>Go_Json\<close>, \<open>Channels\<close>: the parts of Go and of its standard library
    the code uses: machine integers at their width, maps, \<open>strconv\<close>, UTC dates and their parsing, JSON strings and objects,
    buffered channels (the locale \<open>fifo_channel\<close>).
  \<^item> \<open>Errors\<close>: \<open>errors/errors.go\<close>, and the loop over functional options (the locale \<open>validated_options\<close>,
    interpreted for the route, consumer, broker and client options, and \<open>settable_field\<close>, for every setting of a route).
  \<^item> \<open>Clients\<close>: the calls the library makes, as events of one trace, and the AWS clients as records of answer
    functions over the events so far (\<open>consumer/client.go\<close>); every theorem quantifies over them.
  \<^item> \<open>Message\<close>, \<open>Barrier\<close>, \<open>Backoff\<close>, \<open>Retry\<close>, \<open>Visibility\<close>: \<open>consumer/message.go\<close>, \<open>barrier.go\<close>,
    \<open>backoff.go\<close>; \<open>retrycount.go\<close>, \<open>retry_scheduler.go\<close>, \<open>dlq_publisher.go\<close>; \<open>visibility.go\<close>.
  \<^item> \<open>Dispatcher\<close> and \<open>Worker_Pool\<close>: \<open>consumer/dispatch.go\<close>; the first is routing and \<open>process\<close> as functions
    on the state of a message, the second the channels and worker goroutines as a step relation. \<open>Goroutines\<close> and
    \<open>Goroutine_Runs\<close> refine that relation: \<open>process\<close> in steps, the visibility goroutines and handlers beside it, and
    the \<open>WaitGroup\<close> that \<open>stop\<close> waits on.
  \<^item> \<open>Delete_Batcher\<close>: \<open>consumer/delete_batcher.go\<close>, its senders as a step relation.
  \<^item> \<open>Consumer\<close>: \<open>consumer/consumer.go\<close>, \<open>options.go\<close>; \<open>New\<close>, the checks of \<open>Run\<close>, and the polling loop with the
    pool, the cancellation and the shutdown (\<open>run_step\<close>). \<open>Service\<close> puts the run of a consumer and the
    senders of its batcher together (\<open>service_step\<close>).
  \<^item> \<open>Broker\<close>: \<open>broker/broker.go\<close>, \<open>options.go\<close>; every member of its state carries a run of \<open>Consumer\<close>,
    and its delete batcher of \<open>Service\<close> when it has one, under the broker's context.
  \<^item> \<open>Router\<close> and \<open>Route_Settings\<close> (the accessors): \<open>router/\<close>. \<open>Logger\<close>: \<open>logger/\<close>. \<open>Middleware\<close> and \<open>Collectors\<close>: \<open>middleware/\<close>. \<open>Idgen\<close>: \<open>idgen/\<close>. \<open>Producer\<close>:
    \<open>producer/\<close>. \<open>Typed\<close>: \<open>typed/\<close>. \<open>Client\<close>: \<open>client/\<close>. \<open>Conn\<close>: \<open>conn/\<close>.
  \<^item> \<open>Fake\<close> and \<open>Log_Handler\<close>: the test doubles of \<open>fake/\<close>. \<open>Bench_Client\<close>: \<open>benchmarks/fakeclient.go\<close>, the
    in-memory queue shared by concurrent callers, one atomic operation a step.
  \<^item> \<open>Local_Scheduler\<close>: \<open>examples/localscheduler\<close>, the program that fires the schedules, from its connection in
    \<open>Scheduler_Program\<close>. \<open>Retry_Loop\<close> composes it with the dispatcher and the retry scheduler.
  \<^item> \<open>Producer_Example\<close> and \<open>Consumer_Examples\<close>: the other programs of \<open>examples/\<close>, from the connection to \<open>Run\<close>
    (and after it, \<open>Program_Ends\<close>), composed with the models of the broker and of the consumer, and with each other.

  \<^bold>\<open>State and steps.\<close> A Go struct is a record with its fields, a mutex-protected or goroutine-local value is
  passed explicitly, shared barriers live in a store indexed by address. Errors are values (\<open>err\<close>, in a sum),
  panics the constructor \<open>Panic\<close> of \<open>outcome\<close>; a panic of a goroutine ends the program (\<open>Crashed\<close>), those of
  \<open>dispatch\<close> (an index out of range, a closed channel) and of \<open>close\<close> included.
  Concurrent parts are step relations: one channel operation, one client call of the poller, or one call of
  \<open>process\<close> is a step. \<open>process\<close> as one step is sound for what is proved of it because a message belongs to
  the worker that took it, and the only entry of a shared barrier it reads or writes is that of its own
  group, which has one worker; \<open>Goroutines\<close> splits it, and the order within groups holds there too
  (\<open>groups_in_order_step_by_step\<close>), every run of the pool being one of the goroutines
  (\<open>pool_runs_are_goroutine_runs\<close>). A handler of \<open>process\<close> as one step is a total function: the pool, the consumer
  and the broker are those of handlers that return or panic, and their runs end under that condition; handlers that
  never return, or block in \<open>Backoff\<close>, are in \<open>Goroutines\<close> alone (\<open>stop_waits_for_handlers_only\<close>). What a call answers depends on the events of the trace it is made in.

  \<^bold>\<open>What the lemmas show.\<close>
  \<^item> One message: the fate of a message in both retry models (\<open>scheduled_outcome\<close>, \<open>visibility_outcome\<close>), a
    handler that keeps failing ends in the dead-letter queue (\<open>failing_message_reaches_dlq\<close>; a failed delivery asks
    for exactly the call \<open>asksRetry\<close> or \<open>asksDeadLetter\<close> describes), the retried
    message is the original (\<open>scheduled_retry_is_the_message\<close>, \<open>retry_attributes_kept\<close>), what can panic. The
    whole retry loop, through the schedules and the program that fires them: it ends in the dead-letter queue
    (\<open>local_scheduler_closes_the_loop\<close>, \<open>retry_loop_ends_in_dlq\<close>).
  \<^item> One goroutine: the visibility loop ends, every call it makes for every list of signals in both modes
    (\<open>visibility_values\<close>), the delay is the clamped
    exponential without overflow (\<open>Backoff\<close>).
  \<^item> The concurrent consumer: per worker first in, first out (\<open>pool_inv\<close>), and a routing key has one worker
    for the whole run (\<open>keyWorker\<close>), hence group order across all batches
    (\<open>group_order_survives_concurrency\<close>); graceful shutdown by a ranking of the steps and progress
    (\<open>shutdown_is_graceful\<close>); the batcher neither loses nor duplicates a handle and flushes when closed
    (\<open>Delete_Batcher\<close>); both together, with the backpressure between them (\<open>every_commit_is_deleted\<close>).
  \<^item> All goroutines of a dispatcher: the counter \<open>stop\<close> waits on is the number of those that run
    (\<open>wait_group_counts_goroutines\<close>), and only a handler that does not return keeps it waiting
    (\<open>stop_waits_for_handlers_only\<close>).
  \<^item> The broker: its result is nil or an error of a member (\<open>broker_returns_first_error\<close>); its shutdown timer
    runs from the start (\<open>shutdown_timeout_needs_no_shutdown\<close>); once cancelled the whole of it, consumers and
    batchers included, comes to rest with \<open>Run\<close> returned (\<open>broker_stops\<close>).
  \<^item> The programs: they come to \<open>Run\<close> or exit for a stated reason, and run to their end
    (\<open>broker_examples_run_to_end\<close>, \<open>middleware_example_survives_handlers\<close>); what one publishes the other keeps in order
    (\<open>producer_example_publishes\<close>, \<open>fifo_example_keeps_orders_together\<close>); the scheduled retry program dead-letters
    after three retries (\<open>scheduled_example_ends_in_dlq\<close>). The benchmark client hands out each message once.
  \<^item> Construction: invariants of routes, consumers, brokers and clients from the options' contract, and which
    error each constructor returns; a route reports what it was asked for (\<open>route_reports_its_options\<close>). Publishing: single and batched requests carry the same message, whole
    batches or nothing. Middlewares: the observers call the handler once
    and return its result (\<open>transparent_middleware\<close>), recovery of panics, shared collectors.
    Identifiers: independence of map order, collisions, shape and range.

  \<^bold>\<open>Bounds.\<close> Loops are structural recursions, except the readers of \<open>Go_Json\<close> (a measure) and two
  partial functions: \<open>validateLoop\<close>, whose return is proved for every limit below the largest \<open>uint\<close>, and
  \<open>fireDueSchedules\<close>, which returns when the listing has finitely many pages. No fuel is used. Integers wrap at
  their width, and the theorems state where no overflow occurs; where one does there is a lemma
  (\<open>visibility_extension_overflow\<close>, \<open>retry_count_wraps\<close>, \<open>composite_suffix_overflow\<close>).
  The theorems of \<open>Service\<close> and \<open>broker_stops\<close> assume a buffered channel of handles, which every pool that fits in memory has.

  \<^bold>\<open>Assumptions that appear as hypotheses.\<close> A handler is \<open>polite\<close> when it makes none of the calls
  that are the dispatcher's own; maps are duplicate free (\<open>wf_map\<close>); a codec, a digest without collisions, or a
  Prometheus registry behaves as documented (\<open>lawful_codec\<close>, \<open>lawful_registry\<close>).

  \<^bold>\<open>Not modelled.\<close> The text of a log record or a printed line (what is written is an event), the
  AWS SDK, the HTTP server, Prometheus and OpenTelemetry (parameters), the real time of timers (a timer is an event that may happen at any moment),
  handlers that do not return where \<open>process\<close> is one step, contexts with deadlines, data races below the granularity of a step, and unbuffered channels.
\<close>

end
